(* ===== verification/Prelude.thy ===== *)
theory Prelude
  imports Complex_Main "HOL-Library.Word"
begin

unbundle bit_operations_syntax

text \<open>
  Shared vocabulary of the development: the machine types of the code, the result type of
  operations that may fail, checked stores into buffers, and the list lemmas that several
  components use.

  Sizes and offsets (\<open>size_t\<close>) are 64-bit words; a buffer (\<open>uint8_t const*\<close> with a
  length) is a list of bytes; a \<open>std::string\<close> or a C string is a list of bytes as well.
\<close>

section \<open>Machine types\<close>

type_synonym u8 = "8 word"
type_synonym u16 = "16 word"
type_synonym u32 = "32 word"
type_synonym u64 = "64 word"
type_synonym size_t = "64 word"
type_synonym bytes = "u8 list"

text \<open>The bytes of a string literal.\<close>

definition lit :: "string \<Rightarrow> bytes" where
  "lit s = map of_char s"

text \<open>\<open>strlen\<close> and \<open>c_str\<close>: a C string ends before its first zero byte.\<close>

definition c_str :: "bytes \<Rightarrow> bytes" where
  "c_str s = takeWhile (\<lambda>b. b \<noteq> 0) s"

lemma c_str_no_nul [simp]: "0 \<notin> set s \<Longrightarrow> c_str s = s"
  by (induction s) (auto simp: c_str_def)

lemma nul_notin_c_str [simp]: "0 \<notin> set (c_str s)"
  by (auto simp: c_str_def dest: set_takeWhileD)

lemma c_str_idem [simp]: "c_str (c_str s) = c_str s"
  by simp

lemma unat_bound: "unat (w :: 'w::len word) < 2 ^ LENGTH('w)"
  by (rule unsigned_less)

lemma unat_of_nat_small: "n < 2 ^ LENGTH('w) \<Longrightarrow> unat (of_nat n :: 'w::len word) = n"
  by (simp add: unsigned_of_nat take_bit_nat_eq_self)

lemma word_eq_of_nat_iff: "n < 2 ^ LENGTH('w) \<Longrightarrow> (w :: 'w::len word) = of_nat n \<longleftrightarrow> unat w = n"
  by (simp only: word_unat_eq_iff unat_of_nat_small)

lemma unat_ucast_up:
  assumes "LENGTH('a) \<le> LENGTH('b)"
  shows "unat (ucast (w :: 'a::len word) :: 'b::len word) = unat w"
proof -
  have "unat w < 2 ^ LENGTH('a)" by (rule unat_bound)
  also have "\<dots> \<le> (2::nat) ^ LENGTH('b)" using assms by (intro power_increasing) simp_all
  finally show ?thesis by (simp add: unsigned_ucast_eq take_bit_nat_eq_self)
qed

lemma uint_of_nat_small: "n < 2 ^ LENGTH('w) \<Longrightarrow> uint (of_nat n :: 'w::len word) = int n"
  by (simp add: uint_nat unat_of_nat_small)

section \<open>Operations that may fail\<close>

text \<open>
  The ways in which the code stops short of a result: \<open>LOG_FATAL_ERROR\<close> calls \<open>exit(1)\<close> and an
  exception that leaves a \<open>noexcept\<close> function ends the process too; a store or a load outside
  its buffer and any other undefined behaviour; a C++ exception; a loop that never ends.
\<close>

datatype err = Exit | OutOfBounds | Undefined | Throw | Diverge

type_synonym 'a res = "err + 'a"

named_theorems res_simps \<open>evaluation of the result monad\<close>

primrec bnd :: "'a res \<Rightarrow> ('a \<Rightarrow> 'b res) \<Rightarrow> 'b res" where
  "bnd (Inl e) f = Inl e"
| "bnd (Inr x) f = f x"

definition map_res :: "('a \<Rightarrow> 'b) \<Rightarrow> 'a res \<Rightarrow> 'b res" where
  "map_res f r = bnd r (\<lambda>x. Inr (f x))"

lemma map_res_simps [simp]:
  "map_res f (Inl e) = Inl e" "map_res f (Inr x) = Inr (f x)"
  by (simp_all add: map_res_def)

text \<open>A \<open>partial_function\<close> that has no value did not return.\<close>

definition returned :: "'a res option \<Rightarrow> 'a res" where
  "returned r = (case r of None \<Rightarrow> Inl Diverge | Some x \<Rightarrow> x)"

lemma returned_simps [simp]: "returned (Some x) = x" "returned None = Inl Diverge"
  by (simp_all add: returned_def)

lemma bnd_Inr_iff: "bnd r f = Inr y \<longleftrightarrow> (\<exists>x. r = Inr x \<and> f x = Inr y)"
  by (cases r) auto

lemma bnd_map_res [simp]: "bnd (map_res f r) g = bnd r (\<lambda>x. g (f x))"
  by (cases r) auto

lemma bnd_assoc: "bnd (bnd r f) g = bnd r (\<lambda>x. bnd (f x) g)"
  by (cases r) auto

lemma bnd_return [simp]: "bnd r Inr = r" "bnd r (\<lambda>x. Inr x) = r"
  by (cases r; simp)+

lemma bnd_cong: "r = r' \<Longrightarrow> (\<And>x. r' = Inr x \<Longrightarrow> f x = g x) \<Longrightarrow> bnd r f = bnd r' g"
  by (cases r') auto

section \<open>Stores into a buffer\<close>

text \<open>
  A pointer into an array is modelled by the list of the cells from the pointer to the end
  of the allocation. A store past that end is an error of the model; a store before it
  changes one cell.
\<close>

definition load :: "'a list \<Rightarrow> nat \<Rightarrow> 'a res" where
  "load xs i = (if i < length xs then Inr (xs ! i) else Inl OutOfBounds)"

text \<open>A load with a signed index.\<close>

definition load_at :: "'a list \<Rightarrow> int \<Rightarrow> 'a res" where
  "load_at xs i = (if i < 0 then Inl OutOfBounds else load xs (nat i))"

definition store :: "'a list \<Rightarrow> nat \<Rightarrow> 'a \<Rightarrow> 'a list res" where
  "store xs i v = (if i < length xs then Inr (xs[i := v]) else Inl OutOfBounds)"

text \<open>The first \<open>n\<close> cells at \<open>off\<close>.\<close>

definition load_list :: "'a list \<Rightarrow> nat \<Rightarrow> nat \<Rightarrow> 'a list res" where
  "load_list xs off n = (if off + n \<le> length xs then Inr (take n (drop off xs)) else Inl OutOfBounds)"

definition blit :: "'a list \<Rightarrow> nat \<Rightarrow> 'a list \<Rightarrow> 'a list" where
  "blit xs off vs = take off xs @ vs @ drop (off + length vs) xs"

definition store_list :: "'a list \<Rightarrow> nat \<Rightarrow> 'a list \<Rightarrow> 'a list res" where
  "store_list xs off vs =
     (if off + length vs \<le> length xs then Inr (blit xs off vs) else Inl OutOfBounds)"

lemma length_blit [simp]: "off + length vs \<le> length xs \<Longrightarrow> length (blit xs off vs) = length xs"
  by (simp add: blit_def)

lemma nth_blit:
  assumes "off + length vs \<le> length xs" "j < length xs"
  shows "blit xs off vs ! j = (if off \<le> j \<and> j < off + length vs then vs ! (j - off) else xs ! j)"
  using assms by (auto simp: blit_def nth_append min_def)

lemma blit_Nil [simp]: "blit xs off [] = xs"
  by (simp add: blit_def)

lemma blit_append:
  "off + length vs \<le> length xs \<Longrightarrow> blit (xs @ ys) off vs = blit xs off vs @ ys"
  by (simp add: blit_def)

lemma blit_whole: "length vs = length xs \<Longrightarrow> blit xs 0 vs = vs"
  by (simp add: blit_def)

lemma store_append:
  "i < length xs \<Longrightarrow> store (xs @ ys) i v = map_res (\<lambda>zs. zs @ ys) (store xs i v)"
  by (simp add: store_def list_update_append1)

lemma store_list_append:
  "off + length vs \<le> length xs \<Longrightarrow>
   store_list (xs @ ys) off vs = map_res (\<lambda>zs. zs @ ys) (store_list xs off vs)"
  by (simp add: store_list_def blit_append)

section \<open>Lists\<close>

text \<open>\<open>std::vector::resize\<close>: cut off, or padded with the default element.\<close>

definition resize :: "nat \<Rightarrow> 'a \<Rightarrow> 'a list \<Rightarrow> 'a list" where
  "resize n x xs = take n xs @ replicate (n - length xs) x"

lemma length_resize [simp]: "length (resize n x xs) = n"
  by (simp add: resize_def)

text \<open>The body of a \<open>for\<close> loop over the elements of a list, in a computation that may fail.\<close>

fun for_each :: "'a list \<Rightarrow> ('a \<Rightarrow> 's \<Rightarrow> 's res) \<Rightarrow> 's \<Rightarrow> 's res" where
  "for_each [] f s = Inr s"
| "for_each (x # xs) f s = bnd (f x s) (for_each xs f)"

lemma for_each_Nil [simp]: "for_each [] f = Inr"
  by (rule ext) simp

lemma for_each_append: "for_each (xs @ ys) f s = bnd (for_each xs f s) (for_each ys f)"
  by (induction xs arbitrary: s) (simp_all add: bnd_assoc cong: bnd_cong)

lemma for_each_pure: "(\<And>x s. x \<in> set xs \<Longrightarrow> f x s = Inr (g s x)) \<Longrightarrow> for_each xs f s = Inr (foldl g s xs)"
  by (induction xs arbitrary: s) auto

lemma for_each_map: "for_each (map h xs) f s = for_each xs (f \<circ> h) s"
  by (induction xs arbitrary: s) (simp_all cong: bnd_cong)

lemma foldl_append_invariant:
  assumes "\<And>s x. P s \<Longrightarrow> P (f s x)" "P s"
  shows "P (foldl f s xs)"
  using assms(2) by (induction xs arbitrary: s) (auto intro: assms(1))

lemma drop_take_append: "i + n \<le> length xs \<Longrightarrow> take n (drop i (xs @ ys)) = take n (drop i xs)"
  by simp

lemma nth_replicate_update: "i < n \<Longrightarrow> (replicate n x)[i := y] ! j = (if j = i then y else replicate n x ! j)"
  by (metis length_replicate nth_list_update_eq nth_list_update_neq)

section \<open>Little-endian words\<close>

fun le_bytes :: "bytes \<Rightarrow> 'w::len word" where
  "le_bytes [] = 0"
| "le_bytes (b # bs) = ucast b OR push_bit 8 (le_bytes bs)"

lemma bit_le_bytes:
  "bit (le_bytes bs :: 'w::len word) n \<longleftrightarrow>
   n < LENGTH('w) \<and> n div 8 < length bs \<and> bit (bs ! (n div 8)) (n mod 8)"
proof (induction bs arbitrary: n)
  case (Cons b bs)
  show ?case
  proof (cases "n < 8")
    case True
    then show ?thesis by (auto simp: bit_or_iff bit_push_bit_iff bit_ucast_iff)
  next
    case False
    then obtain m where m: "n = m + 8" by (metis le_add_diff_inverse2 not_less)
    have "\<not> bit b (m + 8)" using bit_imp_le_length [of b "m + 8"] by auto
    then show ?thesis using Cons.IH [of m]
      by (auto simp: m bit_or_iff bit_push_bit_iff bit_ucast_iff dest: bit_imp_le_length)
  qed
qed simp

lemma le_bytes_inj:
  assumes "length xs = length ys" "8 * length xs \<le> LENGTH('w)"
    and eq: "(le_bytes xs :: 'w::len word) = le_bytes ys"
  shows "xs = ys"
proof (rule nth_equalityI)
  fix i assume i: "i < length xs"
  show "xs ! i = ys ! i"
  proof (rule bit_word_eqI)
    fix n :: nat
    assume n: "n < LENGTH(8)"
    then have "8 * i + n < LENGTH('w)" "(8 * i + n) div 8 = i" "(8 * i + n) mod 8 = n"
      using i assms(2) by simp_all
    then show "bit (xs ! i) n = bit (ys ! i) n"
      using bit_le_bytes [where 'w = 'w, of xs "8 * i + n"] bit_le_bytes [where 'w = 'w, of ys "8 * i + n"]
        i assms by simp
  qed
qed (rule assms(1))

end
