(* ===== verification/Floats.thy ===== *)
theory Floats
  imports Prelude
begin

text \<open>
  The floating-point arithmetic of the code: \<open>float\<close> (\<open>feature_t\<close>, \<open>entropy_t\<close>) is IEEE 754
  binary32 and \<open>double\<close> is binary64, with rounding to nearest, ties to even, and no
  contraction of operations (the build sets \<open>-fno-fast-math\<close> or \<open>/fp:precise\<close>). A finite value
  is a sign and a rational magnitude, so signed zeros, infinities, overflow and gradual
  underflow are all there; only the payload of a NaN is not kept. Everything is executable.
\<close>

section \<open>Powers of two and the binary logarithm\<close>

definition p2 :: "int \<Rightarrow> rat" where
  "p2 e = (if 0 \<le> e then 2 ^ nat e else 1 / 2 ^ nat (- e))"

lemma p2_powi: "p2 e = 2 powi e"
  by (simp add: p2_def power_int_def power_one_over inverse_eq_divide)

lemma p2_pos [simp]: "0 < p2 e"
  by (simp add: p2_powi)

lemma p2_nonneg [simp]: "0 \<le> p2 e"
  by (simp add: less_imp_le)

lemma p2_neq0 [simp]: "p2 e \<noteq> 0"
  by (simp add: p2_powi)

lemma p2_0 [simp]: "p2 0 = 1"
  by (simp add: p2_powi)

lemma p2_add: "p2 (a + b) = p2 a * p2 b"
  by (simp add: p2_powi power_int_add)

lemma p2_diff: "p2 (a - b) = p2 a / p2 b"
  by (simp add: p2_powi power_int_diff)

lemma p2_Suc: "p2 (e + 1) = 2 * p2 e"
  by (simp add: p2_powi power_int_add)

lemma p2_of_nat: "p2 (int n) = 2 ^ n"
  by (simp add: p2_def)

lemma p2_mono: "a \<le> b \<Longrightarrow> p2 a \<le> p2 b"
  by (simp add: p2_powi power_int_increasing)

lemma p2_strict_mono: "a < b \<Longrightarrow> p2 a < p2 b"
  by (simp add: p2_powi power_int_strict_increasing)

lemma p2_le_iff: "p2 a \<le> p2 b \<longleftrightarrow> a \<le> b"
  by (meson linorder_not_le p2_mono p2_strict_mono)

lemma p2_less_iff: "p2 a < p2 b \<longleftrightarrow> a < b"
  by (meson linorder_not_le p2_le_iff)

fun nlog2 :: "nat \<Rightarrow> nat" where
  "nlog2 n = (if n < 2 then 0 else Suc (nlog2 (n div 2)))"

declare nlog2.simps [simp del]

lemma nlog2_bounds: "0 < n \<Longrightarrow> 2 ^ nlog2 n \<le> n \<and> n < 2 ^ Suc (nlog2 n)"
proof (induction n rule: nlog2.induct)
  case (1 n)
  show ?case
  proof (cases "n < 2")
    case True
    with 1(2) show ?thesis by (simp add: nlog2.simps [of n])
  next
    case False
    then have "2 ^ nlog2 (n div 2) \<le> n div 2 \<and> n div 2 < 2 ^ Suc (nlog2 (n div 2))"
      using 1(1) by simp
    with False show ?thesis by (auto simp: nlog2.simps [of n])
  qed
qed

definition rlog2 :: "rat \<Rightarrow> int" where
  "rlog2 q = (let (n, d) = quotient_of q;
                  e = int (nlog2 (nat n)) - int (nlog2 (nat d))
              in if p2 e \<le> q then e else e - 1)"

lemma nlog2_fraction_bounds:
  assumes "0 < n" "0 < d"
  shows "(of_nat n / of_nat d :: rat) < p2 (int (nlog2 n) - int (nlog2 d) + 1) \<and>
         p2 (int (nlog2 n) - int (nlog2 d) - 1) \<le> of_nat n / of_nat d"
proof -
  let ?a = "nlog2 n" and ?b = "nlog2 d"
  have "2 ^ ?a \<le> n" "n < 2 ^ Suc ?a" "2 ^ ?b \<le> d" "d < 2 ^ Suc ?b"
    using nlog2_bounds assms by auto
  then have "(of_nat (2 ^ ?a) :: rat) \<le> of_nat n" "(of_nat n :: rat) < of_nat (2 ^ Suc ?a)"
    "(of_nat (2 ^ ?b) :: rat) \<le> of_nat d" "(of_nat d :: rat) < of_nat (2 ^ Suc ?b)"
    by (simp_all only: of_nat_le_iff of_nat_less_iff)
  then have b: "2 ^ ?a \<le> (of_nat n :: rat)" "(of_nat n :: rat) < 2 * 2 ^ ?a"
    "2 ^ ?b \<le> (of_nat d :: rat)" "(of_nat d :: rat) < 2 * 2 ^ ?b"
    by simp_all
  let ?e = "int ?a - int ?b" and ?q = "of_nat n / of_nat d :: rat"
  have e: "p2 ?e = 2 ^ ?a / 2 ^ ?b" by (simp add: p2_diff p2_of_nat)
  have "?q < (2 * 2 ^ ?a) / 2 ^ ?b"
    using b assms by (intro frac_less) (auto simp: less_imp_le)
  moreover have "2 ^ ?a / (2 * 2 ^ ?b) \<le> ?q"
    using b assms by (intro frac_le) (auto simp: less_imp_le)
  moreover have "p2 (?e - 1) = p2 ?e / 2" using p2_Suc [of "?e - 1"] by simp
  ultimately show ?thesis by (simp add: p2_Suc e)
qed

lemma rlog2_bounds:
  assumes "0 < q"
  shows "p2 (rlog2 q) \<le> q \<and> q < p2 (rlog2 q + 1)"
proof -
  obtain n d where nd: "quotient_of q = (n, d)" by fastforce
  have d: "0 < d" using quotient_of_denom_pos [OF nd] .
  have "q = of_int n / of_int d" using quotient_of_div [OF nd] .
  moreover from this assms d have n: "0 < n" by (simp add: zero_less_divide_iff)
  ultimately have q: "q = of_nat (nat n) / of_nat (nat d)" using d by simp
  have "0 < nat n" "0 < nat d" using n d by simp_all
  from nlog2_fraction_bounds [OF this] show ?thesis
    by (auto simp: rlog2_def nd Let_def q [symmetric])
qed

lemma rlog2_unique:
  assumes "p2 e \<le> q" "q < p2 (e + 1)"
  shows "rlog2 q = e"
proof -
  have "0 < q" using assms(1) p2_pos [of e] by linarith
  then have "p2 (rlog2 q) < p2 (e + 1)" "p2 e < p2 (rlog2 q + 1)"
    using rlog2_bounds assms by (meson le_less_trans)+
  then show ?thesis by (simp add: p2_less_iff)
qed

lemma rlog2_mono:
  assumes "0 < p" "p \<le> q"
  shows "rlog2 p \<le> rlog2 q"
proof -
  have "p2 (rlog2 p) < p2 (rlog2 q + 1)"
    using rlog2_bounds [of p] rlog2_bounds [of q] assms by linarith
  then show ?thesis by (simp add: p2_less_iff)
qed

text \<open>
  Evaluation of closed terms by the simplifier: the logarithm of a fraction needs no
  normal form of the fraction.
\<close>

named_theorems fl_eval \<open>evaluation of floating-point terms\<close>

lemma rlog2_fraction:
  assumes "0 < n" "0 < d"
  shows "rlog2 (of_nat n / of_nat d) =
    (let e = int (nlog2 n) - int (nlog2 d)
     in if p2 e \<le> of_nat n / of_nat d then e else e - 1)"
proof -
  let ?q = "of_nat n / of_nat d :: rat"
  let ?e = "int (nlog2 n) - int (nlog2 d)"
  have b: "?q < p2 (?e + 1)" "p2 (?e - 1) \<le> ?q"
    using nlog2_fraction_bounds [OF assms] by auto
  show ?thesis
  proof (cases "p2 ?e \<le> ?q")
    case True
    then show ?thesis using rlog2_unique [of ?e ?q] b by (simp add: Let_def)
  next
    case False
    then show ?thesis using rlog2_unique [of "?e - 1" ?q] b by (simp add: Let_def)
  qed
qed

lemma rlog2_eval [fl_eval]:
  "rlog2 (numeral a / numeral b) =
    (let e = int (nlog2 (numeral a)) - int (nlog2 (numeral b))
     in if p2 e \<le> numeral a / numeral b then e else e - 1)"
  "rlog2 (1 / numeral b) =
    (let e = - int (nlog2 (numeral b)) in if p2 e \<le> 1 / numeral b then e else e - 1)"
  "rlog2 (numeral a) = int (nlog2 (numeral a))"
  "rlog2 1 = 0"
proof -
  have l1: "nlog2 (Suc 0) = 0" by (simp add: nlog2.simps)
  show "rlog2 (numeral a / numeral b) =
    (let e = int (nlog2 (numeral a)) - int (nlog2 (numeral b))
     in if p2 e \<le> numeral a / numeral b then e else e - 1)"
    using rlog2_fraction [of "numeral a" "numeral b"] by simp
  show "rlog2 (1 / numeral b) =
    (let e = - int (nlog2 (numeral b)) in if p2 e \<le> 1 / numeral b then e else e - 1)"
    using rlog2_fraction [of 1 "numeral b"] by (simp add: l1)
  have "(2::rat) ^ nlog2 (numeral a) \<le> numeral a \<and> numeral a < (2::rat) ^ Suc (nlog2 (numeral a))"
    using nlog2_bounds [of "numeral a"]
    by (metis of_nat_le_iff of_nat_less_iff of_nat_numeral of_nat_power zero_less_numeral)
  then show "rlog2 (numeral a) = int (nlog2 (numeral a))"
    by (intro rlog2_unique) (simp_all add: p2_of_nat p2_Suc)
  show "rlog2 1 = 0" by (rule rlog2_unique) (simp_all add: p2_def)
qed

section \<open>Rounding\<close>

text \<open>Nearest integer, ties to even.\<close>

definition rne :: "rat \<Rightarrow> int" where
  "rne x = (let f = \<lfloor>x\<rfloor>; r = x - of_int f
            in if r < 1/2 then f else if 1/2 < r then f + 1 else if even f then f else f + 1)"

lemma rne_of_int [simp]: "rne (of_int i) = i"
  by (simp add: rne_def)

lemma floor_rat_eval [fl_eval]:
  "\<lfloor>numeral a / numeral b :: rat\<rfloor> = numeral a div numeral b"
  "\<lfloor>1 / numeral b :: rat\<rfloor> = 1 div numeral b"
  using floor_divide_of_int_eq [where ?'a = rat, of "numeral a" "numeral b"]
    floor_divide_of_int_eq [where ?'a = rat, of 1 "numeral b"] by simp_all

lemma rne_near: "\<bar>of_int (rne x) - x\<bar> \<le> 1/2"
  using floor_correct [of x] by (auto simp: rne_def Let_def abs_le_iff split: if_splits)

lemma rne_mono:
  assumes "x \<le> y"
  shows "rne x \<le> rne y"
proof (rule ccontr)
  assume *: "\<not> rne x \<le> rne y"
  have fl: "\<lfloor>x\<rfloor> \<le> \<lfloor>y\<rfloor>" using assms by (rule floor_mono)
  have "rne x \<le> \<lfloor>x\<rfloor> + 1" "\<lfloor>y\<rfloor> \<le> rne y" by (auto simp: rne_def Let_def)
  with * fl have eq: "\<lfloor>x\<rfloor> = \<lfloor>y\<rfloor>" "rne x = \<lfloor>x\<rfloor> + 1" "rne y = \<lfloor>y\<rfloor>" by linarith+
  then show False using assms by (auto simp: rne_def Let_def split: if_splits)
qed

record fmt =
  prec :: nat
  emin :: int
  emax :: int

text \<open>\<open>emin\<close> is the exponent of the smallest subnormal, \<open>emax\<close> the largest exponent.\<close>

definition f32 :: fmt where "f32 = \<lparr>prec = 24, emin = - 149, emax = 127\<rparr>"
definition f64 :: fmt where "f64 = \<lparr>prec = 53, emin = - 1074, emax = 1023\<rparr>"

lemma fmt_simps [simp]:
  "prec f32 = 24" "emin f32 = - 149" "emax f32 = 127"
  "prec f64 = 53" "emin f64 = - 1074" "emax f64 = 1023"
  by (simp_all add: f32_def f64_def)

definition wf_fmt :: "fmt \<Rightarrow> bool" where
  "wf_fmt F \<longleftrightarrow> 1 < prec F \<and> emin F \<le> 0 \<and> int (prec F) \<le> emax F"

lemma wf_fmt_f32 [simp]: "wf_fmt f32" and wf_fmt_f64 [simp]: "wf_fmt f64"
  by (simp_all add: wf_fmt_def)

definition ulp_exp :: "fmt \<Rightarrow> rat \<Rightarrow> int" where
  "ulp_exp F q = max (rlog2 q - (int (prec F) - 1)) (emin F)"

definition round_mag :: "fmt \<Rightarrow> rat \<Rightarrow> rat" where
  "round_mag F q = (if q = 0 then 0
                    else let k = ulp_exp F q in of_int (rne (q / p2 k)) * p2 k)"

text \<open>
  The magnitudes a format can hold, overflow aside. Rounding yields such a magnitude,
  leaves one alone and is monotone, so it never moves a value past a representable bound.
\<close>

definition rep_mag :: "fmt \<Rightarrow> rat \<Rightarrow> bool" where
  "rep_mag F q \<longleftrightarrow>
     (\<exists>m k. q = of_int m * p2 k \<and> 0 \<le> m \<and> m < 2 ^ prec F \<and> emin F \<le> k)"

lemma rep_magI:
  "q = of_int m * p2 k \<Longrightarrow> 0 \<le> m \<Longrightarrow> m < 2 ^ prec F \<Longrightarrow> emin F \<le> k \<Longrightarrow> rep_mag F q"
  unfolding rep_mag_def by blast

lemma rep_mag_of_int: "wf_fmt F \<Longrightarrow> 0 \<le> i \<Longrightarrow> i < 2 ^ prec F \<Longrightarrow> rep_mag F (of_int i)"
  by (rule rep_magI [of _ i 0]) (auto simp: wf_fmt_def)

lemma rep_mag_of_nat: "wf_fmt F \<Longrightarrow> n < 2 ^ prec F \<Longrightarrow> rep_mag F (of_nat n)"
  using rep_mag_of_int [of F "int n"] by simp

lemma rep_mag_0 [simp]: "rep_mag F 0"
  by (rule rep_magI [of _ 0 "emin F"]) auto

lemma rep_mag_p2:
  assumes "wf_fmt F" "emin F \<le> k"
  shows "rep_mag F (p2 k)"
proof -
  have "(1::int) < 2 ^ prec F" using assms(1) by (simp add: wf_fmt_def)
  then show ?thesis using assms(2) by (intro rep_magI [of _ 1 k]) auto
qed

lemma p2_shift: "a \<le> b \<Longrightarrow> p2 b = of_int (2 ^ nat (b - a)) * p2 a"
  using p2_add [of "b - a" a] by (simp add: p2_def)

lemma round_rep:
  assumes "rep_mag F q"
  shows "round_mag F q = q"
proof (cases "q = 0")
  case False
  obtain m k where mk: "q = of_int m * p2 k" "0 \<le> m" "m < 2 ^ prec F" "emin F \<le> k"
    using assms unfolding rep_mag_def by blast
  with False have "0 < m" by (cases "m = 0") auto
  then have q: "0 < q" by (simp add: mk)
  have "(of_int m :: rat) < of_int (2 ^ prec F)" using mk(3) by (simp only: of_int_less_iff)
  then have "of_int m * p2 k < 2 ^ prec F * p2 k" by simp
  also have "\<dots> = p2 (int (prec F) + k)" by (simp add: p2_add p2_of_nat)
  finally have "p2 (rlog2 q) < p2 (int (prec F) + k)"
    using rlog2_bounds [OF q] mk(1) by linarith
  then have u: "ulp_exp F q \<le> k" using mk(4) by (simp add: ulp_exp_def p2_less_iff)
  let ?u = "ulp_exp F q"
  have "p2 k / p2 ?u = of_int (2 ^ nat (k - ?u))" by (simp add: p2_shift [OF u])
  moreover have "q / p2 ?u = of_int m * (p2 k / p2 ?u)" using mk(1) by (metis times_divide_eq_right)
  ultimately have "q / p2 ?u = of_int (m * 2 ^ nat (k - ?u))" by simp
  then have "of_int (rne (q / p2 ?u)) = q / p2 ?u" by (metis rne_of_int)
  then show ?thesis using False by (simp add: round_mag_def Let_def)
qed (simp add: round_mag_def)

lemma ulp_upper:
  assumes "0 < q"
  shows "q < 2 ^ prec F * p2 (ulp_exp F q)"
proof -
  have "p2 (rlog2 q + 1) \<le> p2 (int (prec F) + ulp_exp F q)"
    by (rule p2_mono) (simp add: ulp_exp_def)
  then show ?thesis
    using rlog2_bounds [OF assms] by (simp add: p2_add p2_of_nat)
qed

lemma round_mantissa:
  assumes "0 < q"
  shows "0 \<le> rne (q / p2 (ulp_exp F q)) \<and> rne (q / p2 (ulp_exp F q)) \<le> 2 ^ prec F"
proof -
  have "0 \<le> q / p2 (ulp_exp F q)" using assms by (simp add: less_imp_le)
  then have "rne (of_int 0) \<le> rne (q / p2 (ulp_exp F q))" by (intro rne_mono) simp
  moreover have "q / p2 (ulp_exp F q) \<le> of_int (2 ^ prec F)"
    using ulp_upper [OF assms, of F] by (simp add: pos_divide_le_eq)
  then have "rne (q / p2 (ulp_exp F q)) \<le> rne (of_int (2 ^ prec F))" by (rule rne_mono)
  ultimately show ?thesis unfolding rne_of_int by blast
qed

lemma round_is_rep:
  assumes "wf_fmt F" "0 \<le> q"
  shows "rep_mag F (round_mag F q)"
proof (cases "q = 0")
  case False
  with assms(2) have q: "0 < q" by simp
  let ?k = "ulp_exp F q" and ?m = "rne (q / p2 (ulp_exp F q))"
  have r: "round_mag F q = of_int ?m * p2 ?k" using False by (simp add: round_mag_def Let_def)
  have k: "emin F \<le> ?k" by (simp add: ulp_exp_def)
  show ?thesis
  proof (cases "?m < 2 ^ prec F")
    case True
    then show ?thesis using round_mantissa [OF q, of F] k r by (intro rep_magI [of _ ?m ?k]) auto
  next
    case False
    then have m: "?m = 2 ^ prec F" using round_mantissa [OF q, of F] by simp
    have "round_mag F q = p2 (int (prec F) + ?k)" by (simp add: r m p2_add p2_of_nat)
    then show ?thesis using rep_mag_p2 [OF assms(1)] k by simp
  qed
qed (simp add: round_mag_def)

lemma round_nonneg: "0 \<le> q \<Longrightarrow> 0 \<le> round_mag F q"
  using round_mantissa [of q F] by (cases "q = 0") (auto simp: round_mag_def Let_def)

lemma round_mono:
  assumes "0 \<le> p" "p \<le> q" "wf_fmt F"
  shows "round_mag F p \<le> round_mag F q"
proof (cases "p = 0")
  case True
  with assms show ?thesis using round_nonneg [of q F] by (simp add: round_mag_def)
next
  case False
  with assms have pos: "0 < p" "0 < q" by auto
  let ?a = "ulp_exp F p" and ?b = "ulp_exp F q"
  have P: "round_mag F p = of_int (rne (p / p2 ?a)) * p2 ?a"
    and Q: "round_mag F q = of_int (rne (q / p2 ?b)) * p2 ?b"
    using pos by (simp_all add: round_mag_def Let_def)
  have "?a \<le> ?b" using rlog2_mono [OF pos(1) assms(2)] by (simp add: ulp_exp_def)
  then consider "?a = ?b" | "?a < ?b" by linarith
  then show ?thesis
  proof cases
    case 1
    then have "rne (p / p2 ?a) \<le> rne (q / p2 ?b)"
      using assms(2) by (intro rne_mono) (simp add: divide_right_mono)
    then show ?thesis using 1 P Q by simp
  next
    case 2
    let ?n = "int (prec F) - 1"
    have b: "?b = rlog2 q - ?n" using 2 by (auto simp: ulp_exp_def max_def split: if_splits)
    have "of_int (rne (p / p2 ?a)) \<le> (of_int (2 ^ prec F) :: rat)"
      using round_mantissa [OF pos(1), of F] by (simp only: of_int_le_iff)
    then have "round_mag F p \<le> p2 (int (prec F)) * p2 ?a" by (simp add: P p2_of_nat)
    also have "\<dots> \<le> p2 (?n + ?b)" using 2 by (simp add: p2_add [symmetric] p2_le_iff)
    also have "\<dots> \<le> round_mag F q"
    proof -
      have n: "0 \<le> ?n" using assms(3) by (simp add: wf_fmt_def)
      have "p2 ?n = of_int (2 ^ nat ?n)" using n by (simp add: p2_def)
      moreover have "p2 ?n \<le> q / p2 ?b"
        using rlog2_bounds [OF pos(2)] b by (simp add: le_divide_eq p2_add [symmetric])
      ultimately have "rne (of_int (2 ^ nat ?n)) \<le> rne (q / p2 ?b)" by (intro rne_mono) simp
      then have "2 ^ nat ?n \<le> rne (q / p2 ?b)" unfolding rne_of_int .
      then have "(of_int (2 ^ nat ?n) :: rat) \<le> of_int (rne (q / p2 ?b))" by (simp only: of_int_le_iff)
      then show ?thesis using n by (simp add: Q p2_add p2_def [of ?n])
    qed
    finally show ?thesis .
  qed
qed

lemma round_le_rep: "wf_fmt F \<Longrightarrow> 0 \<le> q \<Longrightarrow> q \<le> r \<Longrightarrow> rep_mag F r \<Longrightarrow> round_mag F q \<le> r"
  using round_mono [of q r F] round_rep [of F r] by simp

lemma round_error: "0 < q \<Longrightarrow> \<bar>round_mag F q - q\<bar> \<le> p2 (ulp_exp F q) / 2"
proof -
  assume q: "0 < q"
  let ?k = "ulp_exp F q"
  have "round_mag F q - q = (of_int (rne (q / p2 ?k)) - q / p2 ?k) * p2 ?k"
    using q by (simp add: round_mag_def Let_def left_diff_distrib)
  then have "\<bar>round_mag F q - q\<bar> = \<bar>of_int (rne (q / p2 ?k)) - q / p2 ?k\<bar> * p2 ?k"
    by (simp add: abs_mult)
  also have "\<dots> \<le> 1/2 * p2 ?k" by (intro mult_right_mono rne_near) simp
  finally show ?thesis by simp
qed

section \<open>Values and operations\<close>

text \<open>\<open>Fin s q\<close> is the number \<open>q\<close>, negated when \<open>s\<close> holds; \<open>q\<close> is never negative.\<close>

datatype fl = NaN | Inf bool | Fin bool rat

type_synonym feature_t = fl
type_synonym entropy_t = fl

definition fl_round :: "fmt \<Rightarrow> bool \<Rightarrow> rat \<Rightarrow> fl" where
  "fl_round F s q = (let r = round_mag F q in if p2 (emax F + 1) \<le> r then Inf s else Fin s r)"

definition signed :: "bool \<Rightarrow> rat \<Rightarrow> rat" where
  "signed s q = (if s then - q else q)"

definition fl_zero :: fl where "fl_zero = Fin False 0"
definition fl_one :: fl where "fl_one = Fin False 1"

definition fl_of_int :: "fmt \<Rightarrow> int \<Rightarrow> fl" where
  "fl_of_int F i = fl_round F (i < 0) (of_int \<bar>i\<bar>)"

definition fl_of_nat :: "fmt \<Rightarrow> nat \<Rightarrow> fl" where
  "fl_of_nat F n = fl_round F False (of_nat n)"

text \<open>Conversion of an unsigned machine integer, and of a value of another format.\<close>

definition fl_of_word :: "fmt \<Rightarrow> 'w::len word \<Rightarrow> fl" where
  "fl_of_word F w = fl_of_nat F (unat w)"

fun fl_to :: "fmt \<Rightarrow> fl \<Rightarrow> fl" where
  "fl_to F (Fin s q) = fl_round F s q"
| "fl_to F x = x"

fun fl_neg :: "fl \<Rightarrow> fl" where
  "fl_neg NaN = NaN"
| "fl_neg (Inf s) = Inf (\<not> s)"
| "fl_neg (Fin s q) = Fin (\<not> s) q"

fun fl_add :: "fmt \<Rightarrow> fl \<Rightarrow> fl \<Rightarrow> fl" where
  "fl_add F (Fin s p) (Fin t q) =
     (let v = signed s p + signed t q
      in if v = 0 then Fin (s \<and> t) 0 else fl_round F (v < 0) \<bar>v\<bar>)"
| "fl_add F (Inf s) (Inf t) = (if s = t then Inf s else NaN)"
| "fl_add F (Inf s) (Fin t q) = Inf s"
| "fl_add F (Fin s p) (Inf t) = Inf t"
| "fl_add F _ _ = NaN"

definition fl_sub :: "fmt \<Rightarrow> fl \<Rightarrow> fl \<Rightarrow> fl" where
  "fl_sub F x y = fl_add F x (fl_neg y)"

fun fl_mul :: "fmt \<Rightarrow> fl \<Rightarrow> fl \<Rightarrow> fl" where
  "fl_mul F (Fin s p) (Fin t q) = fl_round F (s \<noteq> t) (p * q)"
| "fl_mul F (Inf s) (Inf t) = Inf (s \<noteq> t)"
| "fl_mul F (Inf s) (Fin t q) = (if q = 0 then NaN else Inf (s \<noteq> t))"
| "fl_mul F (Fin s p) (Inf t) = (if p = 0 then NaN else Inf (s \<noteq> t))"
| "fl_mul F _ _ = NaN"

fun fl_div :: "fmt \<Rightarrow> fl \<Rightarrow> fl \<Rightarrow> fl" where
  "fl_div F (Fin s p) (Fin t q) =
     (if q = 0 then (if p = 0 then NaN else Inf (s \<noteq> t)) else fl_round F (s \<noteq> t) (p / q))"
| "fl_div F (Inf s) (Fin t q) = Inf (s \<noteq> t)"
| "fl_div F (Fin s p) (Inf t) = Fin (s \<noteq> t) 0"
| "fl_div F _ _ = NaN"

text \<open>Comparisons are false on a NaN and take the two zeros as equal.\<close>

fun fl_less :: "fl \<Rightarrow> fl \<Rightarrow> bool" where
  "fl_less (Fin s p) (Fin t q) = (signed s p < signed t q)"
| "fl_less (Inf s) (Inf t) = (s \<and> \<not> t)"
| "fl_less (Inf s) (Fin t q) = s"
| "fl_less (Fin s p) (Inf t) = (\<not> t)"
| "fl_less _ _ = False"

fun fl_eq :: "fl \<Rightarrow> fl \<Rightarrow> bool" where
  "fl_eq (Fin s p) (Fin t q) = (signed s p = signed t q)"
| "fl_eq (Inf s) (Inf t) = (s = t)"
| "fl_eq _ _ = False"

text \<open>\<open>std::max\<close> and \<open>std::min\<close> return their first argument when neither is smaller.\<close>

definition fl_max :: "fl \<Rightarrow> fl \<Rightarrow> fl" where "fl_max a b = (if fl_less a b then b else a)"
definition fl_min :: "fl \<Rightarrow> fl \<Rightarrow> fl" where "fl_min a b = (if fl_less b a then b else a)"

text \<open>
  The cast to an integer type of the range \<open>lo\<close> to \<open>hi\<close> drops the fraction; a value whose
  integral part is out of range, an infinity or a NaN is undefined behaviour.
\<close>

fun fl_trunc :: "int \<Rightarrow> int \<Rightarrow> fl \<Rightarrow> int res" where
  "fl_trunc lo hi (Fin s q) =
     (let i = (if s then - \<lfloor>q\<rfloor> else \<lfloor>q\<rfloor>) in if lo \<le> i \<and> i \<le> hi then Inr i else Inl Undefined)"
| "fl_trunc lo hi _ = Inl Undefined"

fun is_fin :: "fl \<Rightarrow> bool" where
  "is_fin (Fin s q) = True"
| "is_fin _ = False"

text \<open>The values a format can hold.\<close>

definition wf_fl :: "fmt \<Rightarrow> fl \<Rightarrow> bool" where
  "wf_fl F x = (case x of Fin s q \<Rightarrow> 0 \<le> q \<and> rep_mag F q \<and> q < p2 (emax F + 1) | _ \<Rightarrow> True)"

lemma wf_fl_simps [simp]:
  "wf_fl F NaN" "wf_fl F (Inf s)"
  "wf_fl F (Fin s q) \<longleftrightarrow> 0 \<le> q \<and> rep_mag F q \<and> q < p2 (emax F + 1)"
  by (simp_all add: wf_fl_def)

lemma wf_fl_round: "wf_fmt F \<Longrightarrow> 0 \<le> q \<Longrightarrow> wf_fl F (fl_round F s q)"
  by (simp add: fl_round_def Let_def round_nonneg round_is_rep)

lemma fl_round_rep: "rep_mag F q \<Longrightarrow> q < p2 (emax F + 1) \<Longrightarrow> fl_round F s q = Fin s q"
  by (simp add: fl_round_def round_rep)

lemma fl_round_0 [simp]: "fl_round F s 0 = Fin s 0"
  by (simp add: fl_round_rep)

lemma fl_to_wf: "wf_fl F x \<Longrightarrow> fl_to F x = x"
  by (cases x) (auto simp: fl_round_rep)

lemma wf_fl_to_f32: "wf_fl f64 x \<Longrightarrow> wf_fl f32 (fl_to f32 x)"
  by (cases x) (auto intro: wf_fl_round)

lemma p2_prec_le_emax: "wf_fmt F \<Longrightarrow> 2 ^ prec F < p2 (emax F + 1)"
  by (metis p2_of_nat p2_less_iff wf_fmt_def zle_add1_eq_le)

lemma fl_of_nat_exact:
  assumes "wf_fmt F" "n < 2 ^ prec F"
  shows "fl_of_nat F n = Fin False (of_nat n)"
proof -
  have "(of_nat n :: rat) < of_nat (2 ^ prec F)" using assms(2) by (simp only: of_nat_less_iff)
  then have "(of_nat n :: rat) < 2 ^ prec F" by simp
  also have "\<dots> < p2 (emax F + 1)" by (rule p2_prec_le_emax [OF assms(1)])
  finally have "(of_nat n :: rat) < p2 (emax F + 1)" .
  then show ?thesis using rep_mag_of_nat [OF assms] by (simp add: fl_of_nat_def fl_round_rep)
qed

lemma fl_of_nat_0 [simp]: "fl_of_nat F 0 = Fin False 0"
  by (simp add: fl_of_nat_def)

lemma wf_fl_of_nat [simp]: "wf_fmt F \<Longrightarrow> wf_fl F (fl_of_nat F n)"
  by (simp add: fl_of_nat_def wf_fl_round)

lemma fl_add_nat_exact:
  assumes "wf_fmt F" "m + n < 2 ^ prec F"
  shows "fl_add F (Fin False (of_nat m)) (Fin False (of_nat n)) = Fin False (of_nat (m + n))"
proof (cases "m + n = 0")
  case False
  have "fl_of_nat F (m + n) = Fin False (of_nat (m + n))"
    using assms by (rule fl_of_nat_exact)
  moreover have "\<not> (of_nat m + of_nat n :: rat) < 0" using of_nat_0_le_iff [of "m + n"] by (simp add: not_less)
  moreover have "(of_nat m + of_nat n :: rat) \<noteq> 0" using False by (metis of_nat_add of_nat_eq_0_iff)
  ultimately show ?thesis by (simp add: signed_def fl_of_nat_def Let_def)
qed (simp add: signed_def)

lemmas fl_eval_defs [fl_eval] =
  fl_round_def round_mag_def ulp_exp_def rne_def p2_def nlog2.simps signed_def
  fl_of_int_def fl_of_nat_def fl_of_word_def fl_sub_def Let_def

text \<open>A quotient of two finite values that is at most one stays at most one.\<close>

lemma round_le_one: "wf_fmt F \<Longrightarrow> 0 \<le> q \<Longrightarrow> q \<le> 1 \<Longrightarrow> round_mag F q \<le> 1"
  using round_le_rep [of F q "of_int 1"] rep_mag_of_int [of F 1] by (simp add: wf_fmt_def)

lemma emax_big: "wf_fmt F \<Longrightarrow> 1 < p2 (emax F + 1)"
  using p2_less_iff [of 0 "emax F + 1"] by (simp add: wf_fmt_def)

lemma fl_div_le_one:
  assumes "wf_fmt F" "0 \<le> p" "p \<le> q" "0 < q"
  shows "\<exists>r. fl_div F (Fin False p) (Fin False q) = Fin False r \<and> 0 \<le> r \<and> r \<le> 1"
proof -
  have "0 \<le> p / q" "p / q \<le> 1" using assms by simp_all
  then have "0 \<le> round_mag F (p / q)" "round_mag F (p / q) \<le> 1"
    using assms(1) by (simp_all add: round_nonneg round_le_one)
  moreover have "round_mag F (p / q) < p2 (emax F + 1)"
    using calculation(2) emax_big [OF assms(1)] by linarith
  ultimately show ?thesis using assms(4) by (simp add: fl_round_def)
qed

lemma fl_of_nat_mono:
  assumes "wf_fmt F" "m \<le> n" "fl_of_nat F n = Fin t q"
  shows "\<exists>p. fl_of_nat F m = Fin False p \<and> 0 \<le> p \<and> p \<le> q"
proof -
  have "round_mag F (of_nat m) \<le> round_mag F (of_nat n)"
    using assms(1,2) by (intro round_mono) auto
  then show ?thesis using assms(3)
    by (auto simp: fl_of_nat_def fl_round_def Let_def round_nonneg split: if_splits)
qed

text \<open>A 64-bit count never overflows a \<open>float\<close>.\<close>

lemma fl_of_nat_fin:
  assumes "n \<le> 2 ^ 64"
  shows "\<exists>q. fl_of_nat f32 n = Fin False q \<and> 0 \<le> q"
proof -
  have "(of_nat n :: rat) \<le> of_nat (2 ^ 64)" using assms by (simp only: of_nat_le_iff)
  then have "(of_nat n :: rat) \<le> p2 64" by (simp add: p2_def)
  then have "round_mag f32 (of_nat n) \<le> p2 64"
    by (intro round_le_rep rep_mag_p2) auto
  moreover have "p2 64 < p2 (emax f32 + 1)" by (simp add: p2_less_iff)
  ultimately show ?thesis by (auto simp: fl_of_nat_def fl_round_def Let_def round_nonneg)
qed

lemma fl_of_word_fin: "\<exists>q. fl_of_word f32 (w :: u64) = Fin False q \<and> 0 \<le> q"
  using fl_of_nat_fin [of "unat w"] unat_bound [of w] by (simp add: fl_of_word_def)

end
