(* ===== verification/Meth.thy ===== *)
theory Meth
  imports Floats
begin

text \<open>
  \<open>common/include/efe/common/meth.h\<close> and \<open>common/src/meth.cpp\<close>: the power-of-two test and the
  three array templates, over any element type. \<open>cast\<close> is the \<open>static_cast\<close> of the template
  and \<open>add\<close>, \<open>mul\<close> the arithmetic of the element type at its instance.
\<close>

definition isPowerOf2 :: "size_t \<Rightarrow> bool" where
  "isPowerOf2 x \<longleftrightarrow> x \<noteq> 0 \<and> (x AND (x - 1)) = 0"

fun arraySum :: "('u \<Rightarrow> 'u \<Rightarrow> 'u) \<Rightarrow> ('t \<Rightarrow> 'u) \<Rightarrow> 'u \<Rightarrow> 't list \<Rightarrow> 'u" where
  "arraySum add cast s [] = s"
| "arraySum add cast s (x # xs) = arraySum add cast (add s (cast x)) xs"

fun arrayMul :: "('t \<Rightarrow> 't \<Rightarrow> 't) \<Rightarrow> 't \<Rightarrow> 't list \<Rightarrow> 't list" where
  "arrayMul mul multiplier [] = []"
| "arrayMul mul multiplier (x # xs) = mul x multiplier # arrayMul mul multiplier xs"

text \<open>
  \<open>arrayCopy dest src sz\<close> stores the cast source elements from the start of \<open>dest\<close>; a
  destination shorter than the source is written out of bounds.
\<close>

definition arrayCopy :: "('t \<Rightarrow> 'u) \<Rightarrow> 'u list \<Rightarrow> 't list \<Rightarrow> 'u list res" where
  "arrayCopy cast dest src = store_list dest 0 (map cast src)"

lemma arrayMul_map: "arrayMul mul c xs = map (\<lambda>x. mul x c) xs"
  by (induction xs) auto

lemma arraySum_foldl: "arraySum add cast s xs = foldl (\<lambda>s x. add s (cast x)) s xs"
  by (induction xs arbitrary: s) auto

section \<open>The power-of-two test\<close>

lemma nat_and_pred_eq_0: "0 < (n::nat) \<Longrightarrow> n AND (n - 1) = 0 \<longleftrightarrow> (\<exists>k. n = 2 ^ k)"
proof (induction n rule: less_induct)
  case (less n)
  show ?case
  proof (cases "even n")
    case True
    then obtain m where m: "n = 2 * m" by blast
    with less.prems have pos: "0 < m" "m < n" by auto
    have "(2 * m - 1) div 2 = m - 1" using pos(1) by (cases m) auto
    then have "n AND (n - 1) = 2 * (m AND (m - 1))"
      by (subst and_rec) (simp add: m)
    moreover have "(\<exists>k. m = 2 ^ k) \<longleftrightarrow> (\<exists>k. n = 2 ^ k)"
    proof
      assume "\<exists>k. n = 2 ^ k"
      then obtain k where k: "2 * m = 2 ^ k" using m by auto
      then show "\<exists>k. m = 2 ^ k" by (cases k) auto
    qed (auto simp: m intro: exI [of _ "Suc _"])
    ultimately show ?thesis using less.IH [OF pos(2,1)] by simp
  next
    case False
    then obtain m where m: "n = 2 * m + 1" by (auto elim: oddE)
    have "n AND (n - 1) = 2 * m" by (subst and_rec) (simp add: m)
    moreover have "n = 2 ^ k \<longleftrightarrow> k = 0 \<and> m = 0" for k
    proof (cases k)
      case (Suc j)
      have "odd n" using m by simp
      then show ?thesis using Suc by auto
    qed (use m in auto)
    ultimately show ?thesis by auto
  qed
qed

lemma isPowerOf2_unat: "isPowerOf2 x \<longleftrightarrow> (\<exists>k. unat x = 2 ^ k)"
proof (cases "x = 0")
  case False
  have "(x AND (x - 1)) = 0 \<longleftrightarrow> unat (x AND (x - 1)) = 0" by (simp add: unat_eq_0)
  also have "unat (x AND (x - 1)) = unat x AND (unat x - 1)"
    using False by (simp add: unsigned_and_eq unat_minus_one)
  finally show ?thesis
    using False nat_and_pred_eq_0 [of "unat x"] by (simp add: isPowerOf2_def unat_gt_0)
qed (simp add: isPowerOf2_def)

text \<open>
  \<open>isPowerOf2\<close> accepts exactly the powers of two that a 64-bit \<open>size_t\<close> holds: the bit
  trick with the wrapping \<open>x - 1\<close> agrees with the definition on every word, zero included.
\<close>

theorem isPowerOf2_correct: "isPowerOf2 x \<longleftrightarrow> (\<exists>k < 64. unat x = 2 ^ k)"
proof
  assume "isPowerOf2 x"
  then obtain k where k: "unat x = 2 ^ k" by (auto simp: isPowerOf2_unat)
  then have "(2::nat) ^ k < 2 ^ 64" using unat_bound [of x] by simp
  then have "k < 64" by (rule power_less_imp_less_exp [rotated]) simp
  with k show "\<exists>k < 64. unat x = 2 ^ k" by blast
qed (auto simp: isPowerOf2_unat)

end
