(* ===== verification/Timestamps.thy ===== *)
theory Timestamps
  imports Prelude
begin

text \<open>
  \<open>common/src/timestamps.cpp\<close>: days since 1970-01-01 of a civil date, in the mixed signed and
  unsigned 32-bit arithmetic of the source, and the Unix time of six date fields. A signed
  operation that leaves the range of its type is undefined behaviour.
\<close>

type_synonym time_array_t = "int \<times> int \<times> int \<times> int \<times> int \<times> int"

definition chk32 :: "int \<Rightarrow> int res" where
  "chk32 i = (if - (2 ^ 31) \<le> i \<and> i < 2 ^ 31 then Inr i else Inl Undefined)"

text \<open>Division of the source rounds towards zero.\<close>

definition tdiv :: "int \<Rightarrow> int \<Rightarrow> int" where
  "tdiv a b = sgn a * sgn b * (\<bar>a\<bar> div \<bar>b\<bar>)"

definition days_from_civil :: "int \<Rightarrow> u32 \<Rightarrow> u32 \<Rightarrow> int res" where
  "days_from_civil y0 m d =
     bnd (chk32 (y0 - (if m \<le> 2 then 1 else 0))) (\<lambda>y.
     bnd (if 0 \<le> y then Inr y else chk32 (y - 399)) (\<lambda>num.
     let era = tdiv num 400 in
     bnd (chk32 (era * 400)) (\<lambda>e400.
     bnd (chk32 (y - e400)) (\<lambda>r.
     let yoe = (of_int r :: u32);
         doy = (153 * (if 2 < m then m - 3 else m + 9) + 2) div 5 + d - 1;
         doe = yoe * 365 + yoe div 4 - yoe div 100 + doy
     in bnd (chk32 (era * 146097)) (\<lambda>e.
        bnd (chk32 (e + sint doe)) (\<lambda>s. chk32 (s - 719468)))))))"

definition to_timestamp_utc :: "time_array_t \<Rightarrow> u64 res" where
  "to_timestamp_utc t =
     (case t of (year, month, day, hour, minute, sec) \<Rightarrow>
        bnd (days_from_civil year (of_int month) (of_int day)) (\<lambda>days.
        Inr (of_int (days * 86400 + hour * 3600 + minute * 60 + sec))))"

section \<open>The reference calendar\<close>

definition is_leap :: "int \<Rightarrow> bool" where
  "is_leap y \<longleftrightarrow> 4 dvd y \<and> (\<not> 100 dvd y \<or> 400 dvd y)"

definition month_length :: "int \<Rightarrow> nat \<Rightarrow> nat" where
  "month_length y m = (if m = 2 then (if is_leap y then 29 else 28)
                       else if m \<in> {4, 6, 9, 11} then 30 else 31)"

definition valid_date :: "int \<Rightarrow> nat \<Rightarrow> nat \<Rightarrow> bool" where
  "valid_date y m d \<longleftrightarrow> 1 \<le> m \<and> m \<le> 12 \<and> 1 \<le> d \<and> d \<le> month_length y m"

definition next_day :: "int \<Rightarrow> nat \<Rightarrow> nat \<Rightarrow> int \<times> nat \<times> nat" where
  "next_day y m d = (if d < month_length y m then (y, m, d + 1)
                     else if m < 12 then (y, m + 1, 1) else (y + 1, 1, 1))"

text \<open>The years for which no intermediate result leaves 32 bits.\<close>

definition year_ok :: "int \<Rightarrow> bool" where
  "year_ok y \<longleftrightarrow> - 5000000 \<le> y \<and> y \<le> 5000000"

section \<open>The algorithm on integers\<close>

text \<open>Day of the shifted year: the source's term for each month.\<close>

definition day_of_year :: "int \<Rightarrow> int \<Rightarrow> int" where
  "day_of_year m d = (153 * (if 2 < m then m - 3 else m + 9) + 2) div 5 + d - 1"

definition civil_days :: "int \<Rightarrow> int \<Rightarrow> int \<Rightarrow> int" where
  "civil_days y0 m d =
     (let y = y0 - (if m \<le> 2 then 1 else 0)
      in y * 365 + y div 4 - y div 100 + y div 400
         + day_of_year m d - 719468)"

lemma tdiv_era: "tdiv (if 0 \<le> y then y else y - 399) 400 = y div 400"
proof (cases "0 \<le> y")
  case True
  then show ?thesis by (cases "y = 0") (simp_all add: tdiv_def)
next
  case False
  have "(399 - y) div 400 = ((399 - y mod 400) + 400 * (- (y div 400))) div 400"
    by (rule arg_cong [where f = "\<lambda>i. i div 400"]) (use mult_div_mod_eq [of 400 y] in linarith)
  also have "\<dots> = - (y div 400)" by (subst div_mult_self2) auto
  finally have "- ((399 - y) div 400) = y div 400" by simp
  with False show ?thesis by (simp add: tdiv_def abs_if)
qed

lemmas uint_small_ops =
  uint_add_lem [THEN iffD1] uint_mult_lem [THEN iffD1] uint_sub_lem [THEN iffD1] uint_div

lemma month_cases:
  assumes "1 \<le> m" "m \<le> (12::nat)"
  shows "m \<in> {1, 2, 3, 4, 5, 6, 7, 8, 9, 10, 11, 12}"
  using assms by (simp only: insert_iff empty_iff simp_thms) arith

lemma uint_doy:
  assumes "1 \<le> m" "m \<le> 12" "1 \<le> d" "d \<le> 31"
  shows "uint ((153 * (if 2 < (of_nat m :: u32) then of_nat m - 3 else of_nat m + 9) + 2) div 5
               + of_nat d - 1 :: u32) = day_of_year (int m) (int d)
         \<and> 0 \<le> day_of_year (int m) (int d) \<and> day_of_year (int m) (int d) \<le> 367"
proof -
  have ud: "uint (of_nat d :: u32) = int d" using assms by (intro uint_of_nat_small) simp
  have s: "uint (c + of_nat d :: u32) = uint c + int d" if "uint c \<le> 400" for c
    using that assms ud uint_small_ops(1) [of c "of_nat d"] by simp
  have t: "uint (of_nat d - 1 :: u32) = int d - 1"
    using assms ud uint_small_ops(3) [of 1 "of_nat d :: u32"] by simp
  show ?thesis
    using month_cases [OF assms(1,2)] assms(3,4)
    by (elim insertE emptyE) (simp_all add: s t day_of_year_def)
qed

lemma sint_uint_small: "uint (w :: u32) < 2 ^ 31 \<Longrightarrow> sint w = uint w"
  by (simp add: sint_uint signed_take_bit_int_eq_self_iff order_trans [OF _ uint_ge_0])

lemma era_days:
  "(y div 400) * 146097 + ((y mod 400) * 365 + (y mod 400) div 4 - (y mod 400) div 100) =
   y * 365 + y div 4 - y div 100 + y div (400::int)"
proof -
  define q r where "q = y div 400" and "r = y mod 400"
  have y: "y = r + 400 * q" by (simp add: q_def r_def)
  have "y div 4 = (r + 4 * (100 * q)) div 4" "y div 100 = (r + 100 * (4 * q)) div 100"
    by (simp_all add: y)
  then have "y div 4 = r div 4 + 100 * q" "y div 100 = r div 100 + 4 * q"
    by simp_all
  then show ?thesis unfolding q_def [symmetric] r_def [symmetric] using y by linarith
qed

lemma year_div_bounds:
  fixes b :: int
  assumes "year_ok y" "0 \<le> b" "b \<le> 1"
  shows "- 12501 \<le> (y - b) div 400 \<and> (y - b) div 400 \<le> 12500"
  using assms unfolding year_ok_def by linarith

lemma sint_doe:
  fixes yoe doy :: u32
  assumes "uint yoe = r" "0 \<le> r" "r \<le> 399" "0 \<le> uint doy" "uint doy \<le> 367"
  defines "doe \<equiv> yoe * 365 + yoe div 4 - yoe div 100 + doy"
  shows "sint doe = r * 365 + r div 4 - r div 100 + uint doy \<and> 0 \<le> sint doe \<and> sint doe \<le> 150000"
proof -
  have r: "0 \<le> r div 4" "r div 4 \<le> 100" "0 \<le> r div 100" "r div 100 \<le> r"
    using assms by (simp_all add: div_le_dividend)
  have t1: "uint (yoe * 365) = r * 365"
    using uint_small_ops(2) [of yoe 365] assms by simp
  have d: "uint (yoe div 4) = r div 4" "uint (yoe div 100) = r div 100"
    using assms(1) by (simp_all add: uint_div)
  have t2: "uint (yoe * 365 + yoe div 4) = r * 365 + r div 4"
    using uint_small_ops(1) [of "yoe * 365" "yoe div 4"] d t1 r assms(3) by simp
  have t3: "uint (yoe * 365 + yoe div 4 - yoe div 100) = r * 365 + r div 4 - r div 100"
    using uint_small_ops(3) [of "yoe div 100" "yoe * 365 + yoe div 4"] d t2 r assms(2) by simp
  have t4: "uint doe = r * 365 + r div 4 - r div 100 + uint doy"
    using uint_small_ops(1) [of "yoe * 365 + yoe div 4 - yoe div 100" doy] t3 r assms
    by (simp add: doe_def)
  then have "0 \<le> uint doe" "uint doe \<le> 150000" using r assms(2-5) by linarith+
  moreover from this have "sint doe = uint doe" by (intro sint_uint_small) simp
  ultimately show ?thesis using t4 by simp
qed

lemma days_from_civil_steps:
  assumes "chk32 (y0 - (if m \<le> 2 then 1 else 0)) = Inr y"
    and "(if 0 \<le> y then Inr y else chk32 (y - 399)) = Inr num"
    and "tdiv num 400 = era" and "chk32 (era * 400) = Inr e400" and "chk32 (y - e400) = Inr r"
    and "chk32 (era * 146097) = Inr e"
    and "chk32 (e + sint (of_int r * 365 + of_int r div 4 - of_int r div 100
          + ((153 * (if 2 < m then m - 3 else m + 9) + 2) div 5 + d - 1) :: u32)) = Inr s"
    and "chk32 (s - 719468) = Inr t"
  shows "days_from_civil y0 m d = Inr t"
  unfolding days_from_civil_def Let_def assms(1-5) bnd.simps using assms(3-8) by simp

lemma days_from_civil_civil_days:
  assumes y: "year_ok y" and m: "1 \<le> m" "m \<le> 12" and d: "1 \<le> d" "d \<le> 31"
  shows "days_from_civil y (of_nat m) (of_nat d) = Inr (civil_days y (int m) (int d))"
proof -
  define b :: int where "b = (if m \<le> 2 then 1 else 0)"
  let ?y = "y - b"
  let ?q = "?y div 400" and ?r = "?y mod 400"
  have le2: "(of_nat m :: u32) \<le> 2 \<longleftrightarrow> m \<le> 2"
    using month_cases [OF m] by (elim insertE emptyE) simp_all
  have b: "0 \<le> b" "b \<le> 1" by (simp_all add: b_def)
  have r: "0 \<le> ?r" "?r \<le> 399" by simp_all
  have q: "- 12501 \<le> ?q" "?q \<le> 12500" using year_div_bounds [OF y b] by auto
  have yr: "?y - ?q * 400 = ?r" by (simp add: minus_div_mult_eq_mod)
  define doy :: u32 where
    "doy = (153 * (if 2 < (of_nat m :: u32) then of_nat m - 3 else of_nat m + 9) + 2) div 5 + of_nat d - 1"
  have doy: "uint doy = day_of_year (int m) (int d)" "0 \<le> uint doy" "uint doy \<le> 367"
    using uint_doy [OF m d] by (simp_all add: doy_def)
  define yoe :: u32 where "yoe = of_int ?r"
  have yoe: "uint yoe = ?r" using r by (simp add: yoe_def uint_word_of_int)
  define doe where "doe = yoe * 365 + yoe div 4 - yoe div 100 + doy"
  have doe: "sint doe = ?r * 365 + ?r div 4 - ?r div 100 + day_of_year (int m) (int d)"
    "0 \<le> sint doe" "sint doe \<le> 150000"
    using sint_doe [OF yoe r doy(2,3)] by (simp_all add: doe_def doy(1))
  have c1: "chk32 ?y = Inr ?y" using y b by (simp add: chk32_def year_ok_def)
  have c2: "(if 0 \<le> ?y then Inr ?y else chk32 (?y - 399)) = Inr (if 0 \<le> ?y then ?y else ?y - 399)"
    using y b by (simp add: chk32_def year_ok_def)
  have c3: "chk32 (?q * 400) = Inr (?q * 400)" "chk32 (?y - ?q * 400) = Inr ?r"
    "chk32 (?q * 146097) = Inr (?q * 146097)" "chk32 (?q * 146097 + sint doe) = Inr (?q * 146097 + sint doe)"
    "chk32 (?q * 146097 + sint doe - 719468) = Inr (?q * 146097 + sint doe - 719468)"
    using q r yr doe(2,3) by (simp_all add: chk32_def)
  have "days_from_civil y (of_nat m) (of_nat d) = Inr (?q * 146097 + sint doe - 719468)"
  proof (rule days_from_civil_steps)
    show "chk32 (y - (if (of_nat m :: u32) \<le> 2 then 1 else 0)) = Inr ?y"
      unfolding le2 b_def [symmetric] by (rule c1)
    show "chk32 (?q * 146097 + sint (of_int ?r * 365 + of_int ?r div 4 - of_int ?r div 100
        + ((153 * (if 2 < (of_nat m :: u32) then of_nat m - 3 else of_nat m + 9) + 2) div 5
           + of_nat d - 1) :: u32)) = Inr (?q * 146097 + sint doe)"
      unfolding yoe_def [symmetric] doy_def [symmetric] doe_def [symmetric] by (rule c3)
  qed (rule c2 c3 tdiv_era)+
  moreover have "?q * 146097 + sint doe - 719468 = civil_days y (int m) (int d)"
  proof -
    have ib: "(if int m \<le> 2 then 1 else 0) = b" by (simp add: b_def)
    show ?thesis
      unfolding civil_days_def Let_def ib doe(1) era_days [of ?y, symmetric] by (simp only: add.assoc)
  qed
  ultimately show ?thesis by simp
qed

section \<open>The calendar\<close>

lemma div_pred:
  assumes "0 < (k::int)"
  shows "(y - 1) div k = y div k - (if k dvd y then 1 else 0)"
proof -
  define q r where "q = y div k" and "r = y mod k"
  have y: "y = r + k * q" by (simp add: q_def r_def)
  have r: "0 \<le> r" "r < k" using assms by (simp_all add: r_def)
  have dvd: "k dvd y \<longleftrightarrow> r = 0" by (simp add: r_def dvd_eq_mod_eq_0)
  show ?thesis
  proof (cases "r = 0")
    case True
    have "y - 1 = (k - 1) + k * (q - 1)" unfolding y True by (simp add: right_diff_distrib)
    then have "(y - 1) div k = ((k - 1) + k * (q - 1)) div k" by (rule arg_cong)
    also have "\<dots> = (q - 1) + (k - 1) div k" using assms by (intro div_mult_self2) simp
    finally have "(y - 1) div k = (q - 1) + (k - 1) div k" .
    moreover have "(k - 1) div k = 0" using assms by (intro div_pos_pos_trivial) auto
    ultimately show ?thesis using dvd True q_def by simp
  next
    case False
    have "y - 1 = (r - 1) + k * q" unfolding y by simp
    then have "(y - 1) div k = ((r - 1) + k * q) div k" by (rule arg_cong)
    also have "\<dots> = q + (r - 1) div k" using assms by (intro div_mult_self2) simp
    finally have "(y - 1) div k = q + (r - 1) div k" .
    moreover have "(r - 1) div k = 0" using r False by (intro div_pos_pos_trivial) auto
    ultimately show ?thesis using dvd False q_def by simp
  qed
qed

lemma year_length:
  "y * 365 + y div 4 - y div 100 + y div 400 =
   (y - 1) * 365 + (y - 1) div 4 - (y - 1) div 100 + (y - 1) div 400 + (if is_leap y then 366 else (365::int))"
proof -
  have count: "n + a - b + c = n - 365 + (a - (if p then 1 else 0)) - (b - (if q then 1 else 0)) +
      (c - (if r then 1 else 0)) + (if p \<and> (\<not> q \<or> r) then 366 else 365)"
    if "q \<longrightarrow> p" "r \<longrightarrow> q" for n a b c :: int and p q r
    using that by (cases p; cases q; cases r) simp_all
  have "100 dvd y \<longrightarrow> 4 dvd y" "400 dvd y \<longrightarrow> 100 dvd y"
    using dvd_trans [of 4 100 y] dvd_trans [of 100 400 y] by simp_all
  moreover have "(y - 1) * 365 = y * 365 - 365" by simp
  ultimately show ?thesis by (simp only: div_pred zero_less_numeral is_leap_def) (rule count)
qed

lemma civil_days_next:
  assumes "valid_date y m d" "next_day y m d = (y', m', d')"
  shows "civil_days y' (int m') (int d') = civil_days y (int m) (int d) + 1"
proof -
  have m: "m \<in> {1, 2, 3, 4, 5, 6, 7, 8, 9, 10, 11, 12}"
    using assms(1) by (intro month_cases) (auto simp: valid_date_def)
  show ?thesis
  proof (cases "d < month_length y m")
    case True
    then show ?thesis using assms(2) by (auto simp: next_day_def civil_days_def day_of_year_def Let_def)
  next
    case False
    with assms(1) have d: "d = month_length y m" by (simp add: valid_date_def)
    show ?thesis
    proof (cases "m = 2")
      case True
      with d assms(2) have n: "y' = y" "m' = 3" "d' = 1" by (auto simp: next_day_def)
      have a: "civil_days y' 3 1 = y * 365 + y div 4 - y div 100 + y div 400 - 719468"
        by (simp add: n civil_days_def day_of_year_def Let_def)
      have b: "civil_days y 2 (int d) = (y - 1) * 365 + (y - 1) div 4 - (y - 1) div 100
          + (y - 1) div 400 + 336 + int d - 719468"
        by (simp add: civil_days_def day_of_year_def Let_def)
      have c: "int d = (if is_leap y then 29 else 28)" using d True by (simp add: month_length_def)
      have step: "s = t + 1" if "s = A - 719468" "t = B + 336 + e - 719468" "e = (if L then 29 else 28)"
        "A = B + (if L then 366 else 365)" for s t A B e :: int and L
        using that by (cases L) simp_all
      have "civil_days y' 3 1 = civil_days y 2 (int d) + 1" by (rule step [OF a b c year_length])
      then show ?thesis using True n by simp
    next
      case F: False
      then show ?thesis
        using m d assms(2)
        by (elim insertE emptyE) (auto simp: next_day_def month_length_def civil_days_def day_of_year_def Let_def)
    qed
  qed
qed

lemma next_day_valid:
  "valid_date y m d \<Longrightarrow> next_day y m d = (y', m', d') \<Longrightarrow> valid_date y' m' d'"
  by (auto simp: valid_date_def next_day_def month_length_def split: if_splits)

lemma month_length_le: "month_length y m \<le> 31"
  by (simp add: month_length_def)

lemma days_from_civil_valid:
  assumes "year_ok y" "valid_date y m d"
  shows "days_from_civil y (of_nat m) (of_nat d) = Inr (civil_days y (int m) (int d))"
  using assms month_length_le [of y m]
  by (intro days_from_civil_civil_days) (auto simp: valid_date_def)

text \<open>One second later on the civil clock (no leap seconds, as in the source).\<close>

definition next_second :: "time_array_t \<Rightarrow> time_array_t" where
  "next_second t = (case t of (y, mo, d, h, mi, s) \<Rightarrow>
     if s < 59 then (y, mo, d, h, mi, s + 1)
     else if mi < 59 then (y, mo, d, h, mi + 1, 0)
     else if h < 23 then (y, mo, d, h + 1, 0, 0)
     else (case next_day y (nat mo) (nat d) of (y', m', d') \<Rightarrow> (y', int m', int d', 0, 0, 0)))"

definition valid_time :: "time_array_t \<Rightarrow> bool" where
  "valid_time t = (case t of (y, mo, d, h, mi, s) \<Rightarrow>
     year_ok y \<and> 0 \<le> mo \<and> 0 \<le> d \<and> valid_date y (nat mo) (nat d) \<and>
     0 \<le> h \<and> h \<le> 23 \<and> 0 \<le> mi \<and> mi \<le> 59 \<and> 0 \<le> s \<and> s \<le> 59)"

lemma to_timestamp_valid:
  assumes "valid_time (y, mo, d, h, mi, s)"
  shows "to_timestamp_utc (y, mo, d, h, mi, s) =
         Inr (of_int (civil_days y mo d * 86400 + h * 3600 + mi * 60 + s))"
proof -
  have "days_from_civil y (of_nat (nat mo)) (of_nat (nat d)) = Inr (civil_days y (int (nat mo)) (int (nat d)))"
    using assms by (intro days_from_civil_valid) (auto simp: valid_time_def)
  then show ?thesis using assms by (simp add: to_timestamp_utc_def valid_time_def)
qed

text \<open>
  C39. On every valid date and time of the years -5000000 to 5000000 the conversion hits no
  signed overflow, and it is the Unix clock of the Gregorian calendar: one second later gives
  one more (modulo \<open>2 ^ 64\<close> before 1970), and 1970-01-01 00:00:00 gives zero.
\<close>

theorem to_timestamp_utc_clock:
  assumes "valid_time t" "valid_time (next_second t)"
  shows "\<exists>n. to_timestamp_utc t = Inr n \<and> to_timestamp_utc (next_second t) = Inr (n + 1) \<and>
             to_timestamp_utc (1970, 1, 1, 0, 0, 0) = Inr 0"
proof -
  obtain y mo d h mi s where t: "t = (y, mo, d, h, mi, s)" by (metis prod_cases6)
  obtain y' mo' d' h' mi' s' where t': "next_second t = (y', mo', d', h', mi', s')" by (metis prod_cases6)
  let ?T = "\<lambda>y mo d h mi s. civil_days y mo d * 86400 + h * 3600 + mi * 60 + (s::int)"
  obtain a b c where nd: "next_day y (nat mo) (nat d) = (a, b, c)" by (metis prod_cases3)
  have v: "valid_date y (nat mo) (nat d)" "0 \<le> mo" "0 \<le> d"
    using assms(1) by (simp_all add: valid_time_def t)
  have "civil_days a (int b) (int c) = civil_days y mo d + 1"
    using civil_days_next [OF v(1) nd] v by simp
  then have "?T y' mo' d' h' mi' s' = ?T y mo d h mi s + 1"
    using t' assms(1) by (auto simp: t next_second_def nd valid_time_def split: if_splits)
  then have "(of_int (?T y' mo' d' h' mi' s') :: u64) = of_int (?T y mo d h mi s) + 1"
    by (simp only: of_int_add of_int_1)
  moreover have "to_timestamp_utc t = Inr (of_int (?T y mo d h mi s))"
    using assms(1) unfolding t by (rule to_timestamp_valid)
  moreover have "to_timestamp_utc (next_second t) = Inr (of_int (?T y' mo' d' h' mi' s'))"
    using assms(2) unfolding t' by (rule to_timestamp_valid)
  moreover have "to_timestamp_utc (1970, 1, 1, 0, 0, 0) = Inr 0"
    by (subst to_timestamp_valid)
      (simp_all add: valid_time_def valid_date_def month_length_def year_ok_def civil_days_def day_of_year_def)
  ultimately show ?thesis by metis
qed

theorem to_timestamp_utc_clock_witness:
  "\<exists>n. to_timestamp_utc (2024, 2, 28, 23, 59, 59) = Inr n \<and>
       to_timestamp_utc (2024, 2, 29, 0, 0, 0) = Inr (n + 1)"
proof -
  have l: "next_second (2024, 2, 28, 23, 59, 59) = (2024, 2, 29, 0, 0, 0)"
    by (simp add: next_second_def next_day_def month_length_def is_leap_def)
  have "valid_time (2024, 2, 28, 23, 59, 59)" "valid_time (2024, 2, 29, 0, 0, 0)"
    by (simp_all add: valid_time_def valid_date_def month_length_def is_leap_def year_ok_def)
  then show ?thesis using to_timestamp_utc_clock [of "(2024, 2, 28, 23, 59, 59)"] l by auto
qed

end
