(* ===== verification/Reducer.thy ===== *)
theory Reducer
  imports Prelude
begin

text \<open>
  The protocol that every consumer of the file follows (\<open>ByteCounter\<close>, \<open>ByteCatcher\<close>,
  \<open>SlidingByteWindow\<close> and the feature types built on them): the file arrives block by block
  through \<open>reduce(bufOffset, buf, bufSize)\<close>. A consumer whose \<open>reduce\<close> distributes over the
  concatenation of blocks computes the same result for every way to cut the file, which is
  what lets the extractor read the mapped file in blocks.
\<close>

text \<open>Feeding the blocks of a file one after the other, with the offset of each.\<close>

fun feed :: "(size_t \<Rightarrow> bytes \<Rightarrow> 's \<Rightarrow> 's res) \<Rightarrow> size_t \<Rightarrow> bytes list \<Rightarrow> 's \<Rightarrow> 's res" where
  "feed red off [] s = Inr s"
| "feed red off (c # cs) s = bnd (red off c s) (feed red (off + of_nat (length c)) cs)"

lemma unat_add_of_nat:
  "unat (off :: size_t) + n < 2 ^ 64 \<Longrightarrow> unat (off + of_nat n) = unat off + n"
  by (simp add: unat_word_ariths unat_of_nat_small)

locale chunk_reducer =
  fixes red :: "size_t \<Rightarrow> bytes \<Rightarrow> 's \<Rightarrow> 's res"
    and inv :: "'s \<Rightarrow> bool"
  assumes red_nil: "inv s \<Longrightarrow> red off [] s = Inr s"
    and red_append: "inv s \<Longrightarrow> unat off + length xs + length ys < 2 ^ 64 \<Longrightarrow>
      red off (xs @ ys) s = bnd (red off xs s) (red (off + of_nat (length xs)) ys)"
    and red_inv: "inv s \<Longrightarrow> unat off + length xs < 2 ^ 64 \<Longrightarrow> red off xs s = Inr t \<Longrightarrow> inv t"
begin

lemma feed_concat:
  "inv s \<Longrightarrow> unat off + length (concat cs) < 2 ^ 64 \<Longrightarrow> feed red off cs s = red off (concat cs) s"
proof (induction cs arbitrary: off s)
  case Nil
  then show ?case by (simp add: red_nil)
next
  case (Cons c cs)
  have off: "unat (off + of_nat (length c)) = unat off + length c"
    using Cons.prems(2) by (intro unat_add_of_nat) simp
  have "red off (concat (c # cs)) s = bnd (red off c s) (red (off + of_nat (length c)) (concat cs))"
    using Cons.prems by (simp add: red_append)
  also have "\<dots> = bnd (red off c s) (feed red (off + of_nat (length c)) cs)"
  proof (cases "red off c s")
    case (Inr t)
    then have "inv t" using Cons.prems by (intro red_inv [of s off c t]) auto
    then show ?thesis using Cons.IH [of t "off + of_nat (length c)"] Cons.prems(2) off Inr by simp
  qed simp
  finally show ?case by simp
qed

text \<open>Two ways to cut the same file give the same result.\<close>

lemma feed_same_file:
  "inv s \<Longrightarrow> length (concat cs) < 2 ^ 64 \<Longrightarrow> concat cs = concat ds \<Longrightarrow>
   feed red 0 cs s = feed red 0 ds s"
  by (simp add: feed_concat)

lemma feed_inv:
  "inv s \<Longrightarrow> unat off + length (concat cs) < 2 ^ 64 \<Longrightarrow> feed red off cs s = Inr t \<Longrightarrow> inv t"
  by (simp add: feed_concat red_inv)

end

end
