(* ===== verification/ByteTools.thy ===== *)
theory ByteTools
  imports Reducer
begin

text \<open>
  \<open>common/src/bytecounter.cpp\<close> (a histogram of the bytes seen) and \<open>common/src/bytecatcher.cpp\<close>
  (the bytes at chosen offsets of the file), with their interpretations as chunk reducers.
\<close>

section \<open>ByteCounter\<close>

record byte_counter =
  totalNumBytes :: size_t
  byteCounts :: "size_t list"

text \<open>The constructor leaves the array as the memory was: \<open>junk\<close> is its 256 cells.\<close>

definition bc_new :: "size_t list \<Rightarrow> byte_counter" where
  "bc_new junk = \<lparr>totalNumBytes = 0, byteCounts = junk\<rparr>"

definition bc_reset :: "byte_counter \<Rightarrow> byte_counter" where
  "bc_reset s = s\<lparr>totalNumBytes := 0, byteCounts := replicate 256 0\<rparr>"

definition bc_start :: "byte_counter \<Rightarrow> byte_counter" where
  "bc_start s = s"

fun bc_loop :: "bytes \<Rightarrow> size_t list \<Rightarrow> size_t list" where
  "bc_loop [] cs = cs"
| "bc_loop (b # bs) cs = bc_loop bs (cs[unat b := cs ! unat b + 1])"

definition bc_reduce :: "bytes \<Rightarrow> byte_counter \<Rightarrow> byte_counter" where
  "bc_reduce buf s = s\<lparr>byteCounts := bc_loop buf (byteCounts s),
                       totalNumBytes := totalNumBytes s + of_nat (length buf)\<rparr>"

definition bc_finalize :: "byte_counter \<Rightarrow> byte_counter" where
  "bc_finalize s = s"

definition bc_inv :: "byte_counter \<Rightarrow> bool" where
  "bc_inv s \<longleftrightarrow> length (byteCounts s) = 256"

lemma unat_u8_less [simp]: "unat (b :: u8) < 256"
  using unat_bound [of b] by simp

lemma length_bc_loop [simp]: "length (bc_loop bs cs) = length cs"
  by (induction bs arbitrary: cs) auto

lemma bc_loop_append: "bc_loop (xs @ ys) cs = bc_loop ys (bc_loop xs cs)"
  by (induction xs arbitrary: cs) auto

lemma nth_bc_loop:
  "length cs = 256 \<Longrightarrow> k < 256 \<Longrightarrow>
   bc_loop bs cs ! k = cs ! k + of_nat (count_list (map unat bs) k)"
  by (induction bs arbitrary: cs) (auto simp: nth_list_update)

lemma bc_reset_inv [simp]: "bc_inv (bc_reset s)"
  by (simp add: bc_inv_def bc_reset_def)

lemma bc_reduce_inv [simp]: "bc_inv s \<Longrightarrow> bc_inv (bc_reduce bs s)"
  by (simp add: bc_inv_def bc_reduce_def)

lemma bc_reduce_append: "bc_reduce (xs @ ys) s = bc_reduce ys (bc_reduce xs s)"
  by (simp add: bc_reduce_def bc_loop_append add.assoc)

interpretation counter: chunk_reducer "\<lambda>_ buf s. Inr (bc_reduce buf s)" bc_inv
  by unfold_locales (auto simp: bc_reduce_append, simp add: bc_reduce_def)

text \<open>The histogram of a byte string: what the counter holds after a run.\<close>

definition histogram :: "bytes \<Rightarrow> size_t list" where
  "histogram bs = map (\<lambda>k. of_nat (count_list (map unat bs) k)) [0..<256]"

lemma length_histogram [simp]: "length (histogram bs) = 256"
  by (simp add: histogram_def)

lemma bc_run:
  "bc_reduce bs (bc_start (bc_reset s)) =
   \<lparr>totalNumBytes = of_nat (length bs), byteCounts = histogram bs\<rparr>"
proof -
  have "bc_loop bs (replicate 256 0) = histogram bs"
    by (rule nth_equalityI) (auto simp: histogram_def nth_bc_loop)
  then show ?thesis by (simp add: bc_reduce_def bc_start_def bc_reset_def)
qed

lemma bc_reduce_histogram:
  "bc_reduce b \<lparr>totalNumBytes = of_nat (length d), byteCounts = histogram d\<rparr> =
   \<lparr>totalNumBytes = of_nat (length (d @ b)), byteCounts = histogram (d @ b)\<rparr>"
  using bc_run [of d] bc_run [of "d @ b"] by (simp add: bc_reduce_append)

lemma bc_reset_histogram: "bc_reset s = \<lparr>totalNumBytes = 0, byteCounts = histogram []\<rparr>"
proof -
  have "histogram [] = replicate 256 0" by (simp add: histogram_def map_replicate_const)
  then show ?thesis by (simp add: bc_reset_def)
qed

lemma sum_count_list_map: "sum (count_list (map unat (bs :: bytes))) {..<256} = length bs"
proof -
  have "set (map unat bs) \<subseteq> {..<256}" by auto
  then show ?thesis by (metis finite_lessThan length_map sum_count_set)
qed

section \<open>ByteCatcher\<close>

text \<open>
  \<open>std::unordered_map\<close> from offset to byte, as the list of its entries; the code never
  depends on their order.
\<close>

record byte_catcher =
  offsetToByteMap :: "(size_t \<times> u8) list"
  maxOffsetToLookFor :: size_t

definition bcat_new :: byte_catcher where
  "bcat_new = \<lparr>offsetToByteMap = [], maxOffsetToLookFor = 0\<rparr>"

definition bcat_reset :: "byte_catcher \<Rightarrow> byte_catcher" where
  "bcat_reset s = s\<lparr>offsetToByteMap := []\<rparr>"

text \<open>\<open>insert\<close> does nothing when the key is there already.\<close>

definition wantByteAtOffset :: "size_t \<Rightarrow> byte_catcher \<Rightarrow> byte_catcher" where
  "wantByteAtOffset off s =
     (if off \<in> fst ` set (offsetToByteMap s) then s
      else s\<lparr>offsetToByteMap := offsetToByteMap s @ [(off, 0)]\<rparr>)"

fun max_key :: "(size_t \<times> u8) list \<Rightarrow> size_t \<Rightarrow> size_t" where
  "max_key [] m = m"
| "max_key ((k, v) # es) m = max_key es (if m < k then k else m)"

definition bcat_start :: "byte_catcher \<Rightarrow> byte_catcher" where
  "bcat_start s = s\<lparr>maxOffsetToLookFor := max_key (offsetToByteMap s) 0\<rparr>"

fun catch_loop :: "size_t \<Rightarrow> size_t \<Rightarrow> bytes \<Rightarrow> (size_t \<times> u8) list \<Rightarrow> (size_t \<times> u8) list res" where
  "catch_loop lo hi buf [] = Inr []"
| "catch_loop lo hi buf ((k, v) # es) =
     bnd (if lo \<le> k \<and> k < hi then load buf (unat (k - lo)) else Inr v)
         (\<lambda>v'. map_res ((#) (k, v')) (catch_loop lo hi buf es))"

definition bcat_reduce :: "size_t \<Rightarrow> bytes \<Rightarrow> byte_catcher \<Rightarrow> byte_catcher res" where
  "bcat_reduce bufOffset buf s =
     (if offsetToByteMap s = [] \<or> maxOffsetToLookFor s < bufOffset then Inr s
      else map_res (\<lambda>es. s\<lparr>offsetToByteMap := es\<rparr>)
             (catch_loop bufOffset (bufOffset + of_nat (length buf)) buf (offsetToByteMap s)))"

definition bcat_finalize :: "byte_catcher \<Rightarrow> byte_catcher" where
  "bcat_finalize s = s"

text \<open>What one block does to one entry.\<close>

definition caught :: "size_t \<Rightarrow> bytes \<Rightarrow> size_t \<times> u8 \<Rightarrow> size_t \<times> u8" where
  "caught off buf e = (case e of (k, v) \<Rightarrow>
     (k, if unat off \<le> unat k \<and> unat k < unat off + length buf then buf ! (unat k - unat off) else v))"

definition bcat_inv :: "byte_catcher \<Rightarrow> bool" where
  "bcat_inv s \<longleftrightarrow> (\<forall>k \<in> fst ` set (offsetToByteMap s). k \<le> maxOffsetToLookFor s)"

lemma catch_loop_caught:
  assumes "unat off + length buf < 2 ^ 64"
  shows "catch_loop off (off + of_nat (length buf)) buf es = Inr (map (caught off buf) es)"
proof (induction es)
  case (Cons e es)
  obtain k v where e: "e = (k, v)" by (cases e)
  have hi: "unat (off + of_nat (length buf)) = unat off + length buf"
    using assms by (rule unat_add_of_nat)
  have "unat (k - off) = unat k - unat off" if "off \<le> k"
    using that by (simp add: unat_sub)
  then show ?case
    using Cons.IH by (auto simp: e caught_def load_def word_le_nat_alt word_less_nat_alt hi)
qed simp

lemma bcat_reduce_caught:
  assumes "unat off + length buf < 2 ^ 64" "bcat_inv s"
  shows "bcat_reduce off buf s = Inr (s\<lparr>offsetToByteMap := map (caught off buf) (offsetToByteMap s)\<rparr>)"
proof (cases "offsetToByteMap s = [] \<or> maxOffsetToLookFor s < off")
  case True
  have "caught off buf e = e" if "e \<in> set (offsetToByteMap s)" for e
  proof -
    from that True assms(2) have "fst e < off"
      by (auto simp: bcat_inv_def intro: le_less_trans)
    then show ?thesis by (cases e) (auto simp: caught_def word_less_nat_alt)
  qed
  then have "map (caught off buf) (offsetToByteMap s) = offsetToByteMap s" by (simp add: map_idI)
  then show ?thesis using True by (auto simp: bcat_reduce_def)
next
  case False
  then show ?thesis using catch_loop_caught [OF assms(1)] by (auto simp: bcat_reduce_def)
qed

lemma caught_append:
  "unat off + length xs + length ys < 2 ^ 64 \<Longrightarrow>
   caught off (xs @ ys) e = caught (off + of_nat (length xs)) ys (caught off xs e)"
  using unat_add_of_nat [of off "length xs"]
  by (cases e) (auto simp: caught_def nth_append)

lemma fst_caught [simp]: "fst (caught off buf e) = fst e"
  by (cases e) (simp add: caught_def)

lemma bcat_inv_map [simp]:
  "bcat_inv (s\<lparr>offsetToByteMap := map (caught off buf) (offsetToByteMap s)\<rparr>) \<longleftrightarrow> bcat_inv s"
  by (simp add: bcat_inv_def)

lemma catch_loop_inv:
  "catch_loop lo hi buf es = Inr es' \<Longrightarrow> map fst es' = map fst es"
  by (induction lo hi buf es arbitrary: es' rule: catch_loop.induct)
    (auto simp: bnd_Inr_iff map_res_def split: if_splits)

interpretation catcher: chunk_reducer bcat_reduce bcat_inv
proof
  fix s and off :: size_t assume "bcat_inv s"
  moreover have "caught off [] = id" by (rule ext) (auto simp: caught_def)
  ultimately show "bcat_reduce off [] s = Inr s"
    using bcat_reduce_caught [of off "[]" s] unat_bound [of off] by simp
next
  fix s and off :: size_t and xs ys :: bytes assume a: "bcat_inv s" "unat off + length xs + length ys < 2 ^ 64"
  have "unat (off + of_nat (length xs)) + length ys < 2 ^ 64"
    using unat_add_of_nat [of off "length xs"] a(2) by simp
  then show "bcat_reduce off (xs @ ys) s =
      bnd (bcat_reduce off xs s) (bcat_reduce (off + of_nat (length xs)) ys)"
    using a by (simp add: bcat_reduce_caught caught_append o_def)
next
  fix s and off :: size_t and xs :: bytes and t assume a: "bcat_inv s" "bcat_reduce off xs s = Inr t"
  then have "map fst (offsetToByteMap t) = map fst (offsetToByteMap s)"
    "maxOffsetToLookFor t = maxOffsetToLookFor s"
    by (auto simp: bcat_reduce_def bnd_Inr_iff map_res_def catch_loop_inv split: if_splits)
  then show "bcat_inv t" using a(1) unfolding bcat_inv_def by (metis list.set_map)
qed

lemma max_key_ge: "m \<le> max_key es m \<and> (\<forall>k \<in> fst ` set es. k \<le> max_key es m)"
  by (induction es m rule: max_key.induct) (auto intro: order_trans less_imp_le)

lemma bcat_start_inv [simp]: "bcat_inv (bcat_start s)"
  using max_key_ge by (simp add: bcat_inv_def bcat_start_def)

definition bcat_lookup :: "byte_catcher \<Rightarrow> size_t \<Rightarrow> u8 option" where
  "bcat_lookup s k = map_of (offsetToByteMap s) k"

fun want_all :: "size_t list \<Rightarrow> byte_catcher \<Rightarrow> byte_catcher" where
  "want_all [] s = s"
| "want_all (k # ks) s = want_all ks (wantByteAtOffset k s)"

lemma want_all_lookup:
  "bcat_lookup (want_all ks s) k =
     (case bcat_lookup s k of Some v \<Rightarrow> Some v | None \<Rightarrow> if k \<in> set ks then Some 0 else None)"
proof (induction ks arbitrary: s)
  case (Cons j ks)
  have "bcat_lookup (wantByteAtOffset j s) k =
     (case bcat_lookup s k of Some v \<Rightarrow> Some v | None \<Rightarrow> if k = j then Some 0 else None)"
  proof (cases "j \<in> fst ` set (offsetToByteMap s)")
    case True
    then obtain v where "map_of (offsetToByteMap s) j = Some v" by (metis map_of_eq_None_iff not_None_eq)
    then show ?thesis using True by (auto simp: bcat_lookup_def wantByteAtOffset_def split: option.splits)
  next
    case False
    then show ?thesis by (simp add: bcat_lookup_def wantByteAtOffset_def map_add_def split: option.splits)
  qed
  then show ?case by (auto simp: Cons.IH split: option.splits)
qed (simp split: option.splits)

lemma map_of_caught:
  "map_of (map (caught off buf) es) k = map_option (\<lambda>v. snd (caught off buf (k, v))) (map_of es k)"
  by (induction es) (auto simp: caught_def)

text \<open>
  C37. However a file shorter than \<open>2 ^ 64\<close> bytes is cut into blocks, a reset counter ends
  with the number of its bytes and with the exact number of occurrences of each byte value,
  and these numbers add up to the length.
\<close>

theorem byte_counter_counts:
  assumes "length (concat cs) < 2 ^ 64"
  shows "\<exists>t. feed (\<lambda>_ buf s. Inr (bc_reduce buf s)) 0 cs (bc_start (bc_reset s)) = Inr t \<and>
             unat (totalNumBytes t) = length (concat cs) \<and>
             (\<forall>k \<in> {..<256}. unat (byteCounts t ! k) = count_list (map unat (concat cs)) k) \<and>
             (\<Sum>k<256. unat (byteCounts t ! k)) = length (concat cs)"
proof -
  let ?f = "concat cs"
  let ?t = "\<lparr>totalNumBytes = of_nat (length ?f), byteCounts = histogram ?f\<rparr>"
  have "feed (\<lambda>_ buf s. Inr (bc_reduce buf s)) 0 cs (bc_start (bc_reset s)) = Inr ?t"
    using assms by (simp add: counter.feed_concat bc_run bc_start_def)
      (metis bc_run bc_start_def)
  moreover have c: "unat (histogram ?f ! k) = count_list (map unat ?f) k" if "k < 256" for k
  proof -
    have "count_list (map unat ?f) k \<le> length ?f" by (metis count_le_length length_map)
    then show ?thesis using that assms by (simp add: histogram_def unat_of_nat_small)
  qed
  moreover have "(\<Sum>k<256. unat (histogram ?f ! k)) = length ?f"
    using c sum_count_list_map [of ?f] by simp
  ultimately show ?thesis using assms by (auto simp: unat_of_nat_small)
qed

theorem byte_counter_counts_witness:
  "\<exists>t. feed (\<lambda>_ buf s. Inr (bc_reduce buf s)) 0 [[1, 2], [2 :: u8]] (bc_start (bc_reset (bc_new (replicate 256 7)))) = Inr t \<and>
       unat (byteCounts t ! 2) = 2"
  using byte_counter_counts [of "[[1, 2], [2 :: u8]]" "bc_new (replicate 256 7)"] by auto

text \<open>
  C38. A catcher that was reset, told the offsets \<open>ks\<close> in any order and with any repetition,
  and fed a file in any blocks, never reads out of bounds and maps each wanted offset to the
  byte there, to zero when the file is shorter, and holds no other offset.
\<close>

theorem byte_catcher_catches:
  assumes "length (concat cs) < 2 ^ 64"
  shows "\<exists>t. feed bcat_reduce 0 cs (bcat_start (want_all ks (bcat_reset s))) = Inr t \<and>
             bcat_lookup (bcat_finalize t) k =
               (if k \<notin> set ks then None
                else if unat k < length (concat cs) then Some (concat cs ! unat k) else Some 0)"
proof -
  let ?s = "bcat_start (want_all ks (bcat_reset s))"
  have "feed bcat_reduce 0 cs ?s = bcat_reduce 0 (concat cs) ?s"
    using assms by (simp add: catcher.feed_concat)
  also have "\<dots> = Inr (?s\<lparr>offsetToByteMap := map (caught 0 (concat cs)) (offsetToByteMap ?s)\<rparr>)"
    using assms by (simp add: bcat_reduce_caught)
  finally have run: "feed bcat_reduce 0 cs ?s = \<dots>" .
  have "bcat_lookup ?s k = (if k \<in> set ks then Some 0 else None)"
    using want_all_lookup [of ks "bcat_reset s" k]
    by (simp add: bcat_lookup_def bcat_start_def bcat_reset_def)
  then show ?thesis unfolding run
    by (auto simp: bcat_lookup_def bcat_finalize_def map_of_caught caught_def)
qed

theorem byte_catcher_catches_witness:
  "\<exists>t. feed bcat_reduce 0 [[10], [20, 30 :: u8]] (bcat_start (want_all [0, 2, 2, 5] (bcat_reset bcat_new))) = Inr t \<and>
       bcat_lookup (bcat_finalize t) 2 = Some 30"
  using byte_catcher_catches [of "[[10], [20, 30 :: u8]]" "[0, 2, 2, 5]" bcat_new 2] by simp

end
