(* ===== verification/BlockStream.thy ===== *)
theory BlockStream
  imports Reducer
begin

text \<open>
  \<open>common/src/blockstream.cpp\<close> and \<open>common/src/memoryblockstream.cpp\<close>: a source of blocks with
  its protocol (start, read until zero, stop), and the source that reads a buffer in memory.
  The abstract base class is the polymorphic record \<open>block_stream\<close>, its virtual functions the
  arguments of the operations; the laws a source must keep are the locale \<open>block_source\<close>.
\<close>

section \<open>The base class\<close>

record block_stream =
  m_blockSize :: size_t
  m_offset :: size_t
  m_nextOffset :: size_t
  m_started :: bool
  m_finished :: bool

definition setBlockSize :: "size_t \<Rightarrow> 'a block_stream_scheme \<Rightarrow> 'a block_stream_scheme" where
  "setBlockSize n s = s\<lparr>m_blockSize := n\<rparr>"

definition getBlockSize :: "'a block_stream_scheme \<Rightarrow> size_t" where
  "getBlockSize s = m_blockSize s"

definition getOffset :: "'a block_stream_scheme \<Rightarrow> size_t" where
  "getOffset s = m_offset s"

definition startReading ::
  "('a block_stream_scheme \<Rightarrow> bool \<times> 'a block_stream_scheme) \<Rightarrow>
   'a block_stream_scheme \<Rightarrow> bool \<times> 'a block_stream_scheme" where
  "startReading doStart s =
     (if m_started s \<or> m_finished s \<or> getBlockSize s = 0 then (False, s)
      else doStart (s\<lparr>m_offset := 0, m_nextOffset := 0, m_finished := False, m_started := True\<rparr>))"

definition stopReading ::
  "('a block_stream_scheme \<Rightarrow> 'a block_stream_scheme) \<Rightarrow>
   'a block_stream_scheme \<Rightarrow> 'a block_stream_scheme" where
  "stopReading doStop s = (if \<not> m_started s then s else (doStop s)\<lparr>m_finished := True\<rparr>)"

text \<open>\<open>outputBuf\<close> is the caller's buffer; the operation returns it as the read left it.\<close>

definition readNext ::
  "('a block_stream_scheme \<Rightarrow> bytes \<Rightarrow> (size_t \<times> bytes \<times> 'a block_stream_scheme) res) \<Rightarrow>
   'a block_stream_scheme \<Rightarrow> bytes \<Rightarrow> (size_t \<times> bytes \<times> 'a block_stream_scheme) res" where
  "readNext doRead s outputBuf =
     (if \<not> m_started s \<or> m_finished s then Inr (0, outputBuf, s)
      else bnd (doRead (s\<lparr>m_offset := m_nextOffset s\<rparr>) outputBuf) (\<lambda>(n, buf, t).
        if n = 0 then Inr (0, buf, t\<lparr>m_finished := True\<rparr>)
        else Inr (n, buf, t\<lparr>m_nextOffset := m_offset t + n\<rparr>)))"

section \<open>The memory source\<close>

text \<open>\<open>m_buf\<close> is \<open>None\<close> for the null pointer.\<close>

record memory_block_stream = block_stream +
  m_buf :: "bytes option"
  m_bufSize :: size_t

definition mbs_new :: memory_block_stream where
  "mbs_new = \<lparr>m_blockSize = 0, m_offset = 0, m_nextOffset = 0, m_started = False,
     m_finished = False, m_buf = None, m_bufSize = 0\<rparr>"

definition mbs_setup :: "bytes option \<Rightarrow> size_t \<Rightarrow> memory_block_stream \<Rightarrow> memory_block_stream" where
  "mbs_setup buf n s = s\<lparr>m_buf := buf, m_bufSize := n\<rparr>"

definition doStartReading :: "memory_block_stream \<Rightarrow> bool \<times> memory_block_stream" where
  "doStartReading s = (m_buf s \<noteq> None, s)"

definition doStopReading :: "memory_block_stream \<Rightarrow> memory_block_stream" where
  "doStopReading s = s\<lparr>m_buf := None, m_bufSize := 0\<rparr>"

text \<open>
  \<open>memcpy\<close> from the source (a null source is undefined behaviour for every length), checked
  against the ends of both buffers.
\<close>

definition doReadNext ::
  "memory_block_stream \<Rightarrow> bytes \<Rightarrow> (size_t \<times> bytes \<times> memory_block_stream) res" where
  "doReadNext s buf =
     (let offset = getOffset s;
          numBytesLeft = m_bufSize s - offset;
          numBytesRead = min numBytesLeft (getBlockSize s)
      in case m_buf s of
           None \<Rightarrow> Inl Undefined
         | Some src \<Rightarrow>
             if length src < unat offset + unat numBytesRead then Inl OutOfBounds
             else bnd (store_list buf 0 (take (unat numBytesRead) (drop (unat offset) src)))
                    (\<lambda>buf'. Inr (numBytesRead, buf', s)))"

section \<open>The read loop\<close>

text \<open>
  \<open>while (0 != (n = readNext(buf))) body(getOffset(), buf, n)\<close>, over any source and any body.
  A source that never returns zero makes the loop run forever, hence the option.
\<close>

partial_function (option) read_loop ::
  "('a block_stream_scheme \<Rightarrow> bytes \<Rightarrow> (size_t \<times> bytes \<times> 'a block_stream_scheme) res) \<Rightarrow>
   (size_t \<Rightarrow> bytes \<Rightarrow> 's \<Rightarrow> 's res) \<Rightarrow> 'a block_stream_scheme \<Rightarrow> bytes \<Rightarrow> 's \<Rightarrow>
   ('a block_stream_scheme \<times> bytes \<times> 's) res option" where
  [code]: "read_loop doRead body s buf st =
     (case readNext doRead s buf of
        Inl e \<Rightarrow> Some (Inl e)
      | Inr (n, buf', s') \<Rightarrow>
          if n = 0 then Some (Inr (s', buf', st))
          else (case body (getOffset s') (take (unat n) buf') st of
                  Inl e \<Rightarrow> Some (Inl e)
                | Inr st' \<Rightarrow> read_loop doRead body s' buf' st'))"

lemma word_of_nat_zero_iff: "unat (of_nat n :: 'w::len word) = n \<Longrightarrow> (of_nat n :: 'w word) = 0 \<longleftrightarrow> n = 0"
  by (metis of_nat_0 unat_eq_0)

text \<open>A byte string cut into blocks of \<open>n\<close> bytes, the last one possibly shorter.\<close>

fun blocks :: "nat \<Rightarrow> 'a list \<Rightarrow> 'a list list" where
  "blocks n xs = (if n = 0 \<or> xs = [] then [] else take n xs # blocks n (drop n xs))"

declare blocks.simps [simp del]

lemma blocks_Nil [simp]: "blocks n [] = []"
  by (simp add: blocks.simps)

lemma blocks_step: "0 < n \<Longrightarrow> xs \<noteq> [] \<Longrightarrow> blocks n xs = take n xs # blocks n (drop n xs)"
  by (simp add: blocks.simps)

lemma concat_blocks [simp]: "0 < n \<Longrightarrow> concat (blocks n xs) = xs"
proof (induction n xs rule: blocks.induct)
  case (1 n xs)
  then show ?case by (cases "xs = []") (simp_all add: blocks_step)
qed

lemma blocks_bound: "0 < n \<Longrightarrow> c \<in> set (blocks n xs) \<Longrightarrow> 0 < length c \<and> length c \<le> n"
proof (induction n xs rule: blocks.induct)
  case (1 n xs)
  then show ?case by (cases "xs = []") (auto simp: blocks_step)
qed

section \<open>What a source promises\<close>

text \<open>
  \<open>content s\<close> is what the source can deliver. A read at an offset inside it delivers the next
  bytes, at least one and at most a block, into the front of the caller's buffer; a read at
  its end delivers nothing; the counters of the base class are left alone.
\<close>

locale block_source =
  fixes doRead :: "'a block_stream_scheme \<Rightarrow> bytes \<Rightarrow> (size_t \<times> bytes \<times> 'a block_stream_scheme) res"
    and content :: "'a block_stream_scheme \<Rightarrow> bytes"
    and ready :: "'a block_stream_scheme \<Rightarrow> bool"
  assumes content_short: "ready s \<Longrightarrow> length (content s) < 2 ^ 64"
    and content_frame:
      "content (s\<lparr>m_offset := a\<rparr>) = content s" "content (s\<lparr>m_nextOffset := a\<rparr>) = content s"
      "ready (s\<lparr>m_offset := a\<rparr>) = ready s" "ready (s\<lparr>m_nextOffset := a\<rparr>) = ready s"
    and read_block: "ready s \<Longrightarrow> unat (m_offset s) \<le> length (content s) \<Longrightarrow>
      unat (m_blockSize s) \<le> length buf \<Longrightarrow>
      c = take (unat (m_blockSize s)) (drop (unat (m_offset s)) (content s)) \<Longrightarrow>
      \<exists>buf'. doRead s buf = Inr (of_nat (length c), buf', s) \<and> length buf' = length buf \<and>
             take (length c) buf' = c"
begin

lemma readNext_block:
  assumes "ready s" "m_started s" "\<not> m_finished s" "unat (m_nextOffset s) \<le> length (content s)"
    "unat (m_blockSize s) \<le> length buf"
    and c: "c = take (unat (m_blockSize s)) (drop (unat (m_nextOffset s)) (content s))"
  obtains buf' where "length buf' = length buf" "take (length c) buf' = c"
    "unat (of_nat (length c) :: size_t) = length c"
    "readNext doRead s buf = (let t = s\<lparr>m_offset := m_nextOffset s\<rparr> in
      if c = [] then Inr (0, buf', t\<lparr>m_finished := True\<rparr>)
      else Inr (of_nat (length c), buf', t\<lparr>m_nextOffset := m_nextOffset s + of_nat (length c)\<rparr>))"
proof -
  let ?t = "s\<lparr>m_offset := m_nextOffset s\<rparr>"
  obtain buf' where rd: "doRead ?t buf = Inr (of_nat (length c), buf', ?t)"
    and buf': "length buf' = length buf" "take (length c) buf' = c"
    using read_block [of ?t buf c] assms by (auto simp: content_frame)
  have "length c < 2 ^ 64" using content_short [OF assms(1)] by (simp add: c)
  then have n: "unat (of_nat (length c) :: size_t) = length c" by (intro unat_of_nat_small) simp
  have nz: "(of_nat (length c) :: size_t) = 0 \<longleftrightarrow> c = []"
    using word_of_nat_zero_iff [OF n] by simp
  show ?thesis
    using that [OF buf' n] assms(2,3) nz
    by (cases "c = []") (simp_all add: readNext_def rd)
qed

lemma read_loop_feed:
  assumes "ready s" "m_started s" "\<not> m_finished s" "0 < m_blockSize s"
    "unat (m_nextOffset s) \<le> length (content s)" "unat (m_blockSize s) \<le> length buf"
  shows "\<exists>s' buf'. read_loop doRead body s buf st =
      Some (map_res (\<lambda>st'. (s', buf', st'))
        (feed body (m_nextOffset s)
          (blocks (unat (m_blockSize s)) (drop (unat (m_nextOffset s)) (content s))) st))"
  using assms
proof (induction "length (content s) - unat (m_nextOffset s)" arbitrary: s buf st rule: less_induct)
  case less
  define bs where "bs = m_blockSize s"
  define rest where "rest = drop (unat (m_nextOffset s)) (content s)"
  define c where "c = take (unat bs) rest"
  have bs: "0 < unat bs" using less.prems(4) by (simp add: bs_def unat_gt_0 word_gt_0)
  have lc: "unat (m_nextOffset s) + length c \<le> length (content s)"
    using less.prems(5) by (simp add: c_def rest_def)
  obtain buf' where buf': "length buf' = length buf" "take (length c) buf' = c"
      and n: "unat (of_nat (length c) :: size_t) = length c"
      and rd: "readNext doRead s buf = (let t = s\<lparr>m_offset := m_nextOffset s\<rparr> in
        if c = [] then Inr (0, buf', t\<lparr>m_finished := True\<rparr>)
        else Inr (of_nat (length c), buf', t\<lparr>m_nextOffset := m_nextOffset s + of_nat (length c)\<rparr>))"
    using readNext_block [of s buf c] less.prems(1-3,5,6) unfolding c_def rest_def bs_def by metis
  have nz: "(of_nat (length c) :: size_t) = 0 \<longleftrightarrow> c = []"
    using word_of_nat_zero_iff [OF n] by simp
  show ?case
  proof (cases "c = []")
    case True
    then have "rest = []" using bs by (cases rest) (auto simp: c_def)
    then show ?thesis using True
      by (subst read_loop.simps) (simp add: rd rest_def)
  next
    case False
    let ?t = "s\<lparr>m_offset := m_nextOffset s, m_nextOffset := m_nextOffset s + of_nat (length c)\<rparr>"
    have off: "unat (m_nextOffset s + of_nat (length c)) = unat (m_nextOffset s) + length c"
      using content_short [OF less.prems(1)] lc by (intro unat_add_of_nat) linarith
    have "rest \<noteq> []" using False by (auto simp: c_def)
    then have cut: "blocks (unat bs) rest = c # blocks (unat bs) (drop (length c) rest)"
      using bs by (subst blocks_step) (auto simp: min_def c_def)
    have rest': "drop (length c) rest = drop (unat (m_nextOffset s) + length c) (content s)"
      by (simp add: rest_def add.commute)
    have step: "read_loop doRead body s buf st = (case body (m_nextOffset s) c st of
        Inl e \<Rightarrow> Some (Inl e) | Inr st' \<Rightarrow> read_loop doRead body ?t buf' st')"
      using False nz by (subst read_loop.simps) (simp add: rd n buf' getOffset_def)
    show ?thesis
    proof (cases "body (m_nextOffset s) c st")
      case (Inl e)
      then show ?thesis by (simp add: step cut flip: bs_def rest_def)
    next
      case (Inr st')
      have "length (content ?t) = length (content s)" "unat (m_nextOffset ?t) = unat (m_nextOffset s) + length c"
        using off by (simp_all add: content_frame)
      moreover have "0 < length c" using False by simp
      ultimately have "length (content ?t) - unat (m_nextOffset ?t) < length (content s) - unat (m_nextOffset s)"
        using lc by linarith
      from less.hyps [OF this, of buf' st'] less.prems lc off buf'
      have "\<exists>s'' buf''. read_loop doRead body ?t buf' st' = Some (map_res (\<lambda>st'. (s'', buf'', st'))
          (feed body (m_nextOffset s + of_nat (length c))
            (blocks (unat bs) (drop (unat (m_nextOffset s) + length c) (content s))) st'))"
        by (simp add: content_frame bs_def)
      then show ?thesis
        by (simp add: step Inr cut rest' flip: bs_def rest_def)
    qed
  qed
qed

end

definition mbs_content :: "memory_block_stream \<Rightarrow> bytes" where
  "mbs_content s = (case m_buf s of None \<Rightarrow> [] | Some src \<Rightarrow> take (unat (m_bufSize s)) src)"

definition mbs_ready :: "memory_block_stream \<Rightarrow> bool" where
  "mbs_ready s \<longleftrightarrow> (case m_buf s of None \<Rightarrow> False | Some src \<Rightarrow> unat (m_bufSize s) \<le> length src)"

lemma memory_read_block:
  assumes r: "mbs_ready s" and off: "unat (m_offset s) \<le> length (mbs_content s)"
    and room: "unat (m_blockSize s) \<le> length buf"
    and c: "c = take (unat (m_blockSize s)) (drop (unat (m_offset s)) (mbs_content s))"
  shows "\<exists>buf'. doReadNext s buf = Inr (of_nat (length c), buf', s) \<and> length buf' = length buf \<and>
                take (length c) buf' = c"
proof -
  obtain src where src: "m_buf s = Some src" "unat (m_bufSize s) \<le> length src"
    using r by (auto simp: mbs_ready_def split: option.splits)
  then have cont: "mbs_content s = take (unat (m_bufSize s)) src" by (simp add: mbs_content_def)
  with off src have le: "unat (m_offset s) \<le> unat (m_bufSize s)" by simp
  then have left: "unat (m_bufSize s - m_offset s) = unat (m_bufSize s) - unat (m_offset s)"
    by (simp add: unat_sub word_le_nat_alt)
  define n where "n = min (m_bufSize s - m_offset s) (m_blockSize s)"
  have un: "unat n = min (unat (m_bufSize s) - unat (m_offset s)) (unat (m_blockSize s))"
    by (simp add: n_def min_def word_le_nat_alt left)
  have chunk: "take (unat n) (drop (unat (m_offset s)) src) = c"
    by (simp add: c cont un drop_take min.commute)
  have len: "length c = unat n" using src(2) by (simp add: c cont un min.commute)
  have fits: "unat (m_offset s) + unat n \<le> length src" "unat n \<le> length buf"
    using le src(2) un room by linarith+
  have st: "store_list buf 0 c = Inr (blit buf 0 c)" using fits len by (simp add: store_list_def)
  have "doReadNext s buf = Inr (n, blit buf 0 c, s)"
    unfolding doReadNext_def getOffset_def getBlockSize_def Let_def src(1) n_def [symmetric] option.case
      chunk st using fits(1) by simp
  moreover have "of_nat (length c) = n" by (simp add: len)
  moreover have "length (blit buf 0 c) = length buf" using fits len by simp
  moreover have "take (length c) (blit buf 0 c) = c" by (simp add: blit_def)
  ultimately show ?thesis by blast
qed

interpretation memory: block_source doReadNext mbs_content mbs_ready
proof
  fix s :: memory_block_stream
  assume "mbs_ready s"
  then show "length (mbs_content s) < 2 ^ 64"
    using unat_bound [of "m_bufSize s"]
    by (auto simp: mbs_ready_def mbs_content_def split: option.splits)
next
  fix s :: memory_block_stream and buf c :: bytes
  assume "mbs_ready s" "unat (m_offset s) \<le> length (mbs_content s)" "unat (m_blockSize s) \<le> length buf"
    "c = take (unat (m_blockSize s)) (drop (unat (m_offset s)) (mbs_content s))"
  then show "\<exists>buf'. doReadNext s buf = Inr (of_nat (length c), buf', s) \<and> length buf' = length buf \<and>
      take (length c) buf' = c" by (rule memory_read_block)
qed (simp_all add: mbs_content_def mbs_ready_def cong: option.case_cong)


section \<open>The whole loop\<close>

text \<open>What \<open>run\<close> does to a fresh stream before the loop.\<close>

definition open_memory :: "bytes option \<Rightarrow> size_t \<Rightarrow> size_t \<Rightarrow> memory_block_stream" where
  "open_memory buf n bs = snd (startReading doStartReading (setBlockSize bs (mbs_setup buf n mbs_new)))"

lemma open_memory_run:
  assumes "unat n = length f" "0 < bs" "unat bs \<le> length buf"
  shows "\<exists>s' buf'. read_loop doReadNext body (open_memory (Some f) n bs) buf st =
           Some (map_res (\<lambda>st'. (s', buf', st')) (feed body 0 (blocks (unat bs) f) st))"
proof -
  have o: "open_memory (Some f) n bs = \<lparr>m_blockSize = bs, m_offset = 0, m_nextOffset = 0,
      m_started = True, m_finished = False, m_buf = Some f, m_bufSize = n\<rparr>"
    using assms(2) by (auto simp: open_memory_def startReading_def setBlockSize_def getBlockSize_def
        mbs_setup_def mbs_new_def doStartReading_def)
  have c: "mbs_content (open_memory (Some f) n bs) = f" "mbs_ready (open_memory (Some f) n bs)"
    using assms(1) by (simp_all add: o mbs_content_def mbs_ready_def)
  show ?thesis
    using memory.read_loop_feed [of "open_memory (Some f) n bs" buf body st] c assms
    by (simp add: o)
qed

text \<open>
  C14. The loop \<open>while ((n = readNext(buf)) != 0)\<close> over a memory stream that was set up with a
  file and a non-zero block size returns; its reads stay inside the file and inside a buffer
  of at least one block; and the body gets the consecutive blocks of the file, each with its
  offset, none empty and none longer than the block size.
\<close>

theorem read_loop_blocks:
  assumes "unat n = length f" "0 < bs" "unat bs \<le> length buf"
  shows "(\<exists>s' buf'. read_loop doReadNext body (open_memory (Some f) n bs) buf st =
           Some (map_res (\<lambda>st'. (s', buf', st')) (feed body 0 (blocks (unat bs) f) st))) \<and>
         concat (blocks (unat bs) f) = f \<and>
         (\<forall>c \<in> set (blocks (unat bs) f). 0 < length c \<and> length c \<le> unat bs)"
proof -
  have "0 < unat bs" using assms(2) by (simp add: unat_gt_0 word_gt_0)
  then show ?thesis
    by (intro conjI ballI open_memory_run assms concat_blocks) (auto dest: blocks_bound)
qed

theorem read_loop_blocks_witness:
  "\<exists>s' buf'. read_loop doReadNext (\<lambda>off c st. Inr (st @ [(off, c)])) (open_memory (Some [1, 2, 3, 4, 5]) 5 2)
      (replicate 4 0) [] = Some (Inr (s', buf', [(0, [1, 2]), (2, [3, 4]), (4, [5])]))"
proof -
  have b: "blocks (unat (2 :: size_t)) [1, 2, 3, 4, 5 :: u8] = [[1, 2], [3, 4], [5]]"
    by (simp add: blocks_step)
  have f: "feed (\<lambda>off c st. Inr (st @ [(off, c)])) 0 [[1, 2], [3, 4], [5 :: u8]] [] =
      Inr [(0, [1, 2]), (2, [3, 4]), (4, [5])]"
    by simp
  have "\<exists>s' buf'. read_loop doReadNext (\<lambda>off c st. Inr (st @ [(off, c)]))
      (open_memory (Some [1, 2, 3, 4, 5]) 5 2) (replicate 4 0) [] =
      Some (map_res (\<lambda>st'. (s', buf', st')) (Inr [(0, [1, 2]), (2, [3, 4]), (4, [5])]))"
    by (rule read_loop_blocks [of 5 "[1, 2, 3, 4, 5]" 2 "replicate 4 0", unfolded b, THEN conjunct1,
          of "\<lambda>off c st. Inr (st @ [(off, c)])" "[]", unfolded f]) simp_all
  then show ?thesis unfolding map_res_simps .
qed

section \<open>The protocol\<close>

text \<open>The calls a client may make, with what they report, and the phases of a stream.\<close>

datatype event = Setup | SetBlockSize size_t | Start bool | Read size_t | Stop

inductive stream_step :: "memory_block_stream \<Rightarrow> event \<Rightarrow> memory_block_stream \<Rightarrow> bool" where
  step_setup: "stream_step s Setup (mbs_setup buf n s)"
| step_size: "stream_step s (SetBlockSize n) (setBlockSize n s)"
| step_start: "startReading doStartReading s = (b, t) \<Longrightarrow> stream_step s (Start b) t"
| step_read: "readNext doReadNext s buf = Inr (n, buf', t) \<Longrightarrow> stream_step s (Read n) t"
| step_stop: "stream_step s Stop (stopReading doStopReading s)"

inductive stream_trace :: "event list \<Rightarrow> memory_block_stream \<Rightarrow> bool" where
  trace_new: "stream_trace [] mbs_new"
| trace_step: "stream_trace es s \<Longrightarrow> stream_step s e t \<Longrightarrow> stream_trace (es @ [e]) t"

inductive_cases stream_stepE: "stream_step s e t"

datatype phase = Fresh | Open | Done

fun phase_step :: "phase \<Rightarrow> event \<Rightarrow> phase set" where
  "phase_step p Setup = {p}"
| "phase_step p (SetBlockSize n) = {p}"
| "phase_step Fresh (Start True) = {Open}"
| "phase_step Fresh (Start False) = {Fresh, Open}"
| "phase_step p (Start b) = (if b then {} else {p})"
| "phase_step Fresh (Read n) = (if n = 0 then {Fresh} else {})"
| "phase_step Open (Read n) = (if n = 0 then {Done} else {Open})"
| "phase_step Done (Read n) = (if n = 0 then {Done} else {})"
| "phase_step Fresh Stop = {Fresh}"
| "phase_step p Stop = {Done}"

fun phase_run :: "event list \<Rightarrow> phase set \<Rightarrow> phase set" where
  "phase_run [] ps = ps"
| "phase_run (e # es) ps = phase_run es (\<Union>p \<in> ps. phase_step p e)"

lemma phase_run_append: "phase_run (es @ fs) ps = phase_run fs (phase_run es ps)"
  by (induction es arbitrary: ps) auto

definition phase_of :: "'a block_stream_scheme \<Rightarrow> phase" where
  "phase_of s = (if \<not> m_started s then Fresh else if m_finished s then Done else Open)"

lemma doReadNext_state: "doReadNext s buf = Inr (n, buf', t) \<Longrightarrow> t = s"
  by (auto simp: doReadNext_def Let_def bnd_Inr_iff split: option.splits if_splits)

lemma readNext_phase:
  assumes "readNext doReadNext s buf = Inr (n, buf', t)"
  shows "phase_of t \<in> phase_step (phase_of s) (Read n)"
proof (cases "\<not> m_started s \<or> m_finished s")
  case True
  then show ?thesis using assms by (auto simp: readNext_def phase_of_def)
next
  case False
  then obtain m b u where r: "doReadNext (s\<lparr>m_offset := m_nextOffset s\<rparr>) buf = Inr (m, b, u)"
    and t: "(if m = 0 then Inr (0, b, u\<lparr>m_finished := True\<rparr>)
             else Inr (m, b, u\<lparr>m_nextOffset := m_offset u + m\<rparr>)) = (Inr (n, buf', t) :: _ res)"
    using assms by (auto simp: readNext_def bnd_Inr_iff)
  have "u = s\<lparr>m_offset := m_nextOffset s\<rparr>" using doReadNext_state [OF r] .
  then show ?thesis using False t by (auto simp: phase_of_def split: if_splits)
qed

lemma startReading_phase:
  assumes "startReading doStartReading s = (b, t)"
  shows "phase_of t \<in> phase_step (phase_of s) (Start b)"
  using assms
  by (cases b) (auto simp: startReading_def doStartReading_def phase_of_def split: if_splits)

lemma stream_step_phase:
  "stream_step s e t \<Longrightarrow> phase_of t \<in> phase_step (phase_of s) e"
  by (erule stream_stepE)
    (auto simp: readNext_phase startReading_phase, auto simp: mbs_setup_def setBlockSize_def
      stopReading_def doStopReading_def phase_of_def)

text \<open>
  C13. Every sequence of calls on a memory stream, in any order and with any buffers, is a run of
  the three-phase automaton: it is opened at most once, delivers bytes only between the opening
  and the first zero read or stop, and once done stays done: no call starts it again.
\<close>

theorem stream_protocol:
  assumes "stream_trace es s"
  shows "phase_of s \<in> phase_run es {Fresh}"
  using assms
proof (induction rule: stream_trace.induct)
  case trace_new
  show ?case by (simp add: phase_of_def mbs_new_def)
next
  case (trace_step es s e t)
  then show ?case using stream_step_phase [of s e t] by (auto simp: phase_run_append)
qed

lemma trace_once: "stream_trace [SetBlockSize 2, Start False] (snd (startReading doStartReading (setBlockSize 2 mbs_new)))"
proof -
  have "stream_trace [SetBlockSize 2] (setBlockSize 2 mbs_new)"
    using trace_step [OF trace_new step_size, of 2] by simp
  moreover have "startReading doStartReading (setBlockSize 2 mbs_new) =
      (False, snd (startReading doStartReading (setBlockSize 2 mbs_new)))"
    by (simp add: startReading_def setBlockSize_def getBlockSize_def mbs_new_def doStartReading_def)
  ultimately show ?thesis using trace_step step_start by fastforce
qed

theorem stream_protocol_witness:
  "phase_of (snd (startReading doStartReading (setBlockSize 2 mbs_new))) \<in>
   phase_run [SetBlockSize 2, Start False] {Fresh}"
  by (rule stream_protocol [OF trace_once])

end
