(* ===== verification/SlidingWindow.thy ===== *)
theory SlidingWindow
  imports Reducer
begin

text \<open>
  \<open>common/src/slidingbytewindow.cpp\<close>: overlapping windows over a byte stream. The callback is a
  function on the state \<open>'c\<close> of the object it is bound to; \<open>None\<close> is the null
  \<open>std::function\<close>.
\<close>

section \<open>State and operations\<close>

record 'c sliding_byte_window =
  block :: bytes
  windowSize :: size_t
  step :: size_t
  callback :: "(bytes \<Rightarrow> 'c \<Rightarrow> 'c res) option"

definition sbw_new :: "'c sliding_byte_window" where
  "sbw_new = \<lparr>block = [], windowSize = 0, step = 0, callback = None\<rparr>"

definition sbw_reset :: "'c sliding_byte_window \<Rightarrow> 'c sliding_byte_window" where
  "sbw_reset s = s\<lparr>block := [], windowSize := 0, step := 0, callback := None\<rparr>"

definition setWindowSize :: "size_t \<Rightarrow> 'c sliding_byte_window \<Rightarrow> 'c sliding_byte_window" where
  "setWindowSize n s = s\<lparr>windowSize := n\<rparr>"

definition setStep :: "size_t \<Rightarrow> 'c sliding_byte_window \<Rightarrow> 'c sliding_byte_window" where
  "setStep n s = s\<lparr>step := n\<rparr>"

definition setCallback :: "(bytes \<Rightarrow> 'c \<Rightarrow> 'c res) option \<Rightarrow> 'c sliding_byte_window \<Rightarrow> 'c sliding_byte_window" where
  "setCallback f s = s\<lparr>callback := f\<rparr>"

text \<open>The memory for one window, \<open>block.reserve(windowSize)\<close>, is taken to be available.\<close>

definition sbw_start :: "'c sliding_byte_window \<Rightarrow> 'c sliding_byte_window res" where
  "sbw_start s =
     (if windowSize s = 0 then Inl Exit
      else if step s = 0 then Inl Exit
      else if callback s = None then Inl Exit
      else if windowSize s < step s then Inl Exit
      else Inr (s\<lparr>block := []\<rparr>))"

text \<open>
  \<open>callTheCallback\<close> is \<open>noexcept\<close>: an exception ends the process. Calling a null
  \<open>std::function\<close> throws, so it ends the process as well.
\<close>

fun noexcept :: "'a res \<Rightarrow> 'a res" where
  "noexcept (Inl Throw) = Inl Exit"
| "noexcept r = r"

definition callTheCallback :: "'c sliding_byte_window \<Rightarrow> 'c \<Rightarrow> 'c res" where
  "callTheCallback s c = (case callback s of None \<Rightarrow> Inl Exit | Some f \<Rightarrow> noexcept (f (block s) c))"

text \<open>
  The \<open>while\<close> loop of \<open>reduce\<close>; \<open>buf\<close> is what is left of the buffer. With a step of zero it
  would never leave a full window; \<open>erase\<close> past the end of the vector is undefined.
\<close>

partial_function (option) sbw_loop ::
  "bytes \<Rightarrow> 'c sliding_byte_window \<Rightarrow> 'c \<Rightarrow> ('c sliding_byte_window \<times> 'c) res option" where
  [code]: "sbw_loop buf s c =
     (if buf = [] then Some (Inr (s, c))
      else let spaceInBlock = windowSize s - of_nat (length (block s)) in
        if 0 < spaceInBlock then
          let bytesToCopy = unat (min spaceInBlock (of_nat (length buf)))
          in sbw_loop (drop bytesToCopy buf) (s\<lparr>block := block s @ take bytesToCopy buf\<rparr>) c
        else (case callTheCallback s c of
                Inl e \<Rightarrow> Some (Inl e)
              | Inr c' \<Rightarrow>
                  if length (block s) < unat (step s) then Some (Inl Undefined)
                  else sbw_loop buf (s\<lparr>block := drop (unat (step s)) (block s)\<rparr>) c'))"

definition sbw_reduce ::
  "size_t \<Rightarrow> bytes \<Rightarrow> 'c sliding_byte_window \<times> 'c \<Rightarrow> ('c sliding_byte_window \<times> 'c) res" where
  "sbw_reduce bufOffset buf st = (case st of (s, c) \<Rightarrow> returned (sbw_loop buf s c))"

definition sbw_finalize :: "'c sliding_byte_window \<Rightarrow> 'c \<Rightarrow> 'c res" where
  "sbw_finalize s c =
     (if of_nat (length (block s)) = windowSize s then callTheCallback s c else Inr c)"

definition getLastBlockAnyway :: "'c sliding_byte_window \<Rightarrow> bytes" where
  "getLastBlockAnyway s = block s"

section \<open>The windows of a byte string\<close>

text \<open>
  The specification: the windows of \<open>w\<close> bytes that start at the multiples of \<open>st\<close>, in order.
  \<open>slide\<close> splits the work the way the code does: the windows it has already passed on once a
  byte more has come, and the block it holds.
\<close>

fun windows :: "nat \<Rightarrow> nat \<Rightarrow> 'a list \<Rightarrow> 'a list list" where
  "windows w st xs = (if w = 0 \<or> st = 0 \<or> length xs < w then [] else take w xs # windows w st (drop st xs))"

fun slide :: "nat \<Rightarrow> nat \<Rightarrow> 'a list \<Rightarrow> 'a list list \<times> 'a list" where
  "slide w st xs = (if st = 0 \<or> length xs \<le> w then ([], xs)
     else (case slide w st (drop st xs) of (ws, r) \<Rightarrow> (take w xs # ws, r)))"

declare windows.simps [simp del] slide.simps [simp del]

fun calls :: "(bytes \<Rightarrow> 'c \<Rightarrow> 'c res) \<Rightarrow> bytes list \<Rightarrow> 'c \<Rightarrow> 'c res" where
  "calls f [] c = Inr c"
| "calls f (w # ws) c = bnd (f w c) (calls f ws)"

lemma calls_Nil [simp]: "calls f [] = Inr"
  by (rule ext) simp

lemma calls_append: "calls f (vs @ ws) c = bnd (calls f vs c) (calls f ws)"
  by (induction vs arbitrary: c) (simp_all add: bnd_assoc cong: bnd_cong)

lemma calls_snoc: "calls f (vs @ [w]) c = bnd (calls f vs c) (f w)"
  by (simp add: calls_append cong: bnd_cong)

lemma windows_short: "length xs < w \<Longrightarrow> windows w st xs = []"
  by (simp add: windows.simps)

lemma windows_step:
  "0 < w \<Longrightarrow> 0 < st \<Longrightarrow> w \<le> length xs \<Longrightarrow> windows w st xs = take w xs # windows w st (drop st xs)"
  by (simp add: windows.simps)

lemma slide_short: "length xs \<le> w \<Longrightarrow> slide w st xs = ([], xs)"
  by (simp add: slide.simps)

lemma slide_step:
  "0 < st \<Longrightarrow> w < length xs \<Longrightarrow>
   slide w st xs = (take w xs # fst (slide w st (drop st xs)), snd (slide w st (drop st xs)))"
  by (simp add: slide.simps [of w st xs] split: prod.splits)

lemma slide_rest: "0 < st \<Longrightarrow> length (snd (slide w st xs)) \<le> w"
proof (induction w st xs rule: slide.induct)
  case (1 w st xs)
  then show ?case by (cases "length xs \<le> w") (auto simp: slide_short slide_step)
qed

lemma slide_append:
  assumes "0 < st" "st \<le> w"
  shows "slide w st (xs @ ys) =
    (fst (slide w st xs) @ fst (slide w st (snd (slide w st xs) @ ys)),
     snd (slide w st (snd (slide w st xs) @ ys)))"
  using assms
proof (induction w st xs rule: slide.induct)
  case (1 w st xs)
  show ?case
  proof (cases "length xs \<le> w")
    case False
    then have "slide w st (xs @ ys) =
        (take w xs # fst (slide w st (drop st xs @ ys)), snd (slide w st (drop st xs @ ys)))"
      using 1(2,3) by (subst slide_step) auto
    then show ?thesis using 1 False by (simp add: slide_step)
  qed (simp add: slide_short)
qed

text \<open>A full block that is still held is the last window.\<close>

lemma slide_windows:
  assumes "0 < st" "st \<le> w"
  shows "windows w st xs =
    fst (slide w st xs) @ (if length (snd (slide w st xs)) = w then [snd (slide w st xs)] else [])"
  using assms
proof (induction w st xs rule: slide.induct)
  case (1 w st xs)
  then have w: "0 < w" by simp
  consider "length xs < w" | "length xs = w" | "w < length xs" by linarith
  then show ?case
  proof cases
    case 1
    then show ?thesis by (simp add: windows_short slide_short)
  next
    case 2
    then have "windows w st (drop st xs) = []"
      using 1(2) w by (intro windows_short) simp
    then show ?thesis using 2 1(2) w by (simp add: windows_step slide_short)
  next
    case 3
    then show ?thesis using 1 w by (simp add: windows_step slide_step)
  qed
qed

text \<open>Which windows these are, by their positions.\<close>

lemma windows_nth:
  assumes "0 < st" "0 < w"
  shows "windows w st xs =
    map (\<lambda>i. take w (drop (i * st) xs)) [0..<(if length xs < w then 0 else Suc ((length xs - w) div st))]"
  using assms
proof (induction w st xs rule: windows.induct)
  case (1 w st xs)
  show ?case
  proof (cases "length xs < w")
    case False
    define n where "n = (if length (drop st xs) < w then 0 else Suc ((length (drop st xs) - w) div st))"
    have n: "Suc ((length xs - w) div st) = Suc n"
    proof (cases "length xs - st < w")
      case True
      then have "length xs - w < st" using False by linarith
      then show ?thesis using True by (simp add: n_def)
    next
      case g: False
      then have "length xs - w = st + (length xs - st - w)" using 1(3) by linarith
      then have "(length xs - w) div st = (st + (length xs - st - w)) div st" by (rule arg_cong)
      also have "\<dots> = Suc ((length xs - st - w) div st)" using 1(2) by simp
      finally show ?thesis using g by (simp add: n_def)
    qed
    have "windows w st xs = take w xs # windows w st (drop st xs)"
      using False 1(2,3) by (intro windows_step) auto
    also have "windows w st (drop st xs) = map (\<lambda>i. take w (drop (i * st) (drop st xs))) [0..<n]"
      using "1"(1) False "1"(2,3) by (simp add: n_def)
    also have "take w xs # \<dots> = map (\<lambda>i. take w (drop (i * st) xs)) [0..<Suc n]"
    proof -
      have u: "[0..<Suc n] = 0 # map Suc [0..<n]" by (simp add: upt_conv_Cons map_Suc_upt del: upt_Suc)
      show ?thesis unfolding u by (simp add: add.commute)
    qed
    finally show ?thesis using False n by simp
  qed (simp add: windows_short)
qed

section \<open>The loop computes the windows\<close>

definition sbw_inv :: "'c sliding_byte_window \<times> 'c \<Rightarrow> bool" where
  "sbw_inv st = (case st of (s, c) \<Rightarrow>
     0 < step s \<and> step s \<le> windowSize s \<and> callback s \<noteq> None \<and>
     length (block s) \<le> unat (windowSize s))"

definition the_callback :: "'c sliding_byte_window \<Rightarrow> bytes \<Rightarrow> 'c \<Rightarrow> 'c res" where
  "the_callback s w c = callTheCallback (s\<lparr>block := w\<rparr>) c"

lemma the_callback_block [simp]: "the_callback (s\<lparr>block := b\<rparr>) = the_callback s"
  by (rule ext)+ (simp add: the_callback_def callTheCallback_def)

abbreviation sliding :: "'c sliding_byte_window \<Rightarrow> bytes \<Rightarrow> bytes list \<times> bytes" where
  "sliding s xs \<equiv> slide (unat (windowSize s)) (unat (step s)) xs"

lemma sbw_loop_slide:
  assumes "sbw_inv (s, c)" "length buf < 2 ^ 64"
  shows "sbw_loop buf s c = Some (map_res (\<lambda>c'. (s\<lparr>block := snd (sliding s (block s @ buf))\<rparr>, c'))
           (calls (the_callback s) (fst (sliding s (block s @ buf))) c))"
  using assms
proof (induction "2 * length buf + (if length (block s) = unat (windowSize s) then 1 else 0)"
    arbitrary: buf s c rule: less_induct)
  case less
  have st: "0 < unat (step s)" "unat (step s) \<le> unat (windowSize s)"
    and len: "length (block s) \<le> unat (windowSize s)"
    using less.prems(1) by (auto simp: sbw_inv_def unat_gt_0 word_gt_0 word_le_nat_alt)
  have b: "unat (of_nat (length (block s)) :: size_t) = length (block s)"
    using len unat_bound [of "windowSize s"] by (intro unat_of_nat_small) simp
  then have space: "unat (windowSize s - of_nat (length (block s))) = unat (windowSize s) - length (block s)"
    using len by (simp add: unat_sub word_le_nat_alt)
  consider "buf = []" | "buf \<noteq> []" "length (block s) < unat (windowSize s)"
    | "buf \<noteq> []" "length (block s) = unat (windowSize s)" using len by fastforce
  then show ?case
  proof cases
    case 1
    then show ?thesis using len by (subst sbw_loop.simps) (simp add: slide_short)
  next
    case 2
    define n where "n = unat (min (windowSize s - of_nat (length (block s))) (of_nat (length buf)))"
    let ?s = "s\<lparr>block := block s @ take n buf\<rparr>"
    have n: "n = min (unat (windowSize s) - length (block s)) (length buf)"
      using less.prems(2) by (simp add: n_def min_def word_le_nat_alt space unat_of_nat_small)
    have pos: "0 < windowSize s - of_nat (length (block s))"
      using 2 space by (metis unat_gt_0 word_gt_0 zero_less_diff)
    have "sbw_loop buf s c = sbw_loop (drop n buf) ?s c"
      by (subst sbw_loop.simps) (use 2(1) pos in \<open>simp add: Let_def n_def\<close>)
    also have "\<dots> = Some (map_res (\<lambda>c'. (?s\<lparr>block := snd (sliding ?s (block ?s @ drop n buf))\<rparr>, c'))
           (calls (the_callback ?s) (fst (sliding ?s (block ?s @ drop n buf))) c))"
    proof (rule less.hyps)
      have "0 < n" using 2 by (simp add: n)
      then show "2 * length (drop n buf) + (if length (block ?s) = unat (windowSize ?s) then 1 else 0)
          < 2 * length buf + (if length (block s) = unat (windowSize s) then 1 else 0)"
        using 2 by (cases buf) (auto simp: n)
      show "sbw_inv (?s, c)" using less.prems(1) 2 by (auto simp: sbw_inv_def n)
    qed (use less.prems(2) in simp)
    finally show ?thesis by simp
  next
    case 3
    let ?s = "s\<lparr>block := drop (unat (step s)) (block s)\<rparr>"
    have zero: "windowSize s - of_nat (length (block s)) = 0" using 3(2) by simp
    have step: "sbw_loop buf s c = (case the_callback s (block s) c of Inl e \<Rightarrow> Some (Inl e)
        | Inr c' \<Rightarrow> sbw_loop buf ?s c')"
      by (subst sbw_loop.simps) (use 3 zero st in \<open>simp add: the_callback_def cong: sum.case_cong\<close>)
    have sl: "sliding s (block s @ buf) =
        (block s # fst (sliding s (block ?s @ buf)), snd (sliding s (block ?s @ buf)))"
      using 3 st by (subst slide_step) auto
    show ?thesis
    proof (cases "the_callback s (block s) c")
      case (Inl e)
      then show ?thesis by (simp add: step sl)
    next
      case (Inr c')
      have "sbw_loop buf ?s c' = Some (map_res (\<lambda>c'. (?s\<lparr>block := snd (sliding ?s (block ?s @ buf))\<rparr>, c'))
           (calls (the_callback ?s) (fst (sliding ?s (block ?s @ buf))) c'))"
        using less.prems 3 st by (intro less.hyps) (auto simp: sbw_inv_def)
      then show ?thesis by (simp add: step Inr sl)
    qed
  qed
qed

lemma sbw_reduce_slide:
  "sbw_inv (s, c) \<Longrightarrow> length buf < 2 ^ 64 \<Longrightarrow>
   sbw_reduce off buf (s, c) = map_res (\<lambda>c'. (s\<lparr>block := snd (sliding s (block s @ buf))\<rparr>, c'))
     (calls (the_callback s) (fst (sliding s (block s @ buf))) c)"
  by (simp add: sbw_reduce_def sbw_loop_slide)

interpretation window: chunk_reducer sbw_reduce sbw_inv
proof
  fix st :: "'c sliding_byte_window \<times> 'c" and off :: size_t
  assume "sbw_inv st"
  then show "sbw_reduce off [] st = Inr st"
    by (cases st) (auto simp: sbw_reduce_slide sbw_inv_def word_le_nat_alt slide_short)
next
  fix st :: "'c sliding_byte_window \<times> 'c" and off :: size_t and xs ys :: bytes
  assume a: "sbw_inv st" "unat off + length xs + length ys < 2 ^ 64"
  obtain s c where st: "st = (s, c)" by (cases st)
  have pos: "0 < unat (step s)" "unat (step s) \<le> unat (windowSize s)"
    using a(1) by (auto simp: st sbw_inv_def unat_gt_0 word_gt_0 word_le_nat_alt)
  let ?r = "snd (sliding s (block s @ xs))"
  have inv: "sbw_inv (s\<lparr>block := ?r\<rparr>, c')" for c'
    using a(1) slide_rest [OF pos(1)] by (simp add: st sbw_inv_def)
  have "sbw_reduce off (xs @ ys) st = map_res (\<lambda>c'. (s\<lparr>block := snd (sliding s (?r @ ys))\<rparr>, c'))
      (calls (the_callback s) (fst (sliding s (block s @ xs)) @ fst (sliding s (?r @ ys))) c)"
    using a slide_append [OF pos, of "block s @ xs" ys] by (simp add: st sbw_reduce_slide)
  also have "\<dots> = bnd (sbw_reduce off xs st) (sbw_reduce (off + of_nat (length xs)) ys)"
    using a inv by (simp add: st sbw_reduce_slide calls_append map_res_def bnd_assoc cong: bnd_cong)
  finally show "sbw_reduce off (xs @ ys) st = bnd (sbw_reduce off xs st) (sbw_reduce (off + of_nat (length xs)) ys)" .
next
  fix st st' :: "'c sliding_byte_window \<times> 'c" and off :: size_t and xs :: bytes
  assume a: "sbw_inv st" "unat off + length xs < 2 ^ 64" "sbw_reduce off xs st = Inr st'"
  then have "0 < unat (step (fst st))" by (cases st) (auto simp: sbw_inv_def unat_gt_0 word_gt_0)
  then show "sbw_inv st'"
    using a slide_rest
    by (cases st) (auto simp: sbw_reduce_slide map_res_def bnd_Inr_iff sbw_inv_def)
qed

lemma sbw_finalize_call:
  assumes "sbw_inv (s, c)"
  shows "sbw_finalize s c' =
    calls (the_callback s) (if length (block s) = unat (windowSize s) then [block s] else []) c'"
proof -
  have "unat (of_nat (length (block s)) :: size_t) = length (block s)"
    using assms unat_bound [of "windowSize s"] by (intro unat_of_nat_small) (simp add: sbw_inv_def)
  then have "of_nat (length (block s)) = windowSize s \<longleftrightarrow> length (block s) = unat (windowSize s)"
    by (simp add: word_unat_eq_iff)
  then show ?thesis by (simp add: sbw_finalize_def the_callback_def)
qed

text \<open>One whole run: \<open>start\<close>, the blocks of the file, \<open>finalize\<close>.\<close>

definition sbw_run ::
  "bytes list \<Rightarrow> 'c sliding_byte_window \<Rightarrow> 'c \<Rightarrow> ('c sliding_byte_window \<times> 'c) res" where
  "sbw_run cs s c = bnd (sbw_start s) (\<lambda>s'. bnd (feed sbw_reduce 0 cs (s', c)) (\<lambda>(t, c').
     map_res (Pair t) (sbw_finalize t c')))"

text \<open>
  C11. A window object with a callback and sizes \<open>0 < step \<le> windowSize\<close> that is started and fed a
  file, however it is cut into blocks, returns; it calls the callback exactly on the windows
  \<open>file[i * step ..< i * step + windowSize]\<close> that fit into the file, in order, threading the
  callback's state and stopping at its first error; and when no window fits, the block that
  \<open>getLastBlockAnyway\<close> shows is the whole file.
\<close>

theorem sliding_windows:
  fixes s :: "'c sliding_byte_window" and cs :: "bytes list"
  defines "w \<equiv> unat (windowSize s)" and "st \<equiv> unat (step s)" and "f \<equiv> concat cs"
  assumes cfg: "0 < step s" "step s \<le> windowSize s" "callback s = Some cb"
    and len: "length f < 2 ^ 64"
  shows "map_res snd (sbw_run cs s c) = calls (\<lambda>b c. noexcept (cb b c))
           (map (\<lambda>i. take w (drop (i * st) f)) [0..<(if length f < w then 0 else Suc ((length f - w) div st))]) c \<and>
         (length f < w \<longrightarrow> map_res (\<lambda>(t, c). getLastBlockAnyway t) (sbw_run cs s c) = Inr f)"
proof -
  let ?s = "s\<lparr>block := []\<rparr>"
  let ?t = "s\<lparr>block := snd (slide w st f)\<rparr>"
  have pos: "0 < st" "st \<le> w" using cfg by (simp_all add: w_def st_def unat_gt_0 word_gt_0 word_le_nat_alt)
  have start: "sbw_start s = Inr ?s"
    using cfg by (auto simp: sbw_start_def word_gt_0)
  have inv: "sbw_inv (?s, c)" "sbw_inv (?t, c')" for c'
    using cfg slide_rest [OF pos(1), of w f] by (simp_all add: sbw_inv_def w_def)
  have cb: "the_callback s' = (\<lambda>b c. noexcept (cb b c))" if "callback s' = Some cb" for s'
    using that by (intro ext) (simp add: the_callback_def callTheCallback_def)
  have fin: "sbw_finalize ?t c' =
      calls (the_callback s) (if length (snd (slide w st f)) = w then [snd (slide w st f)] else []) c'" for c'
    using sbw_finalize_call [OF inv(2)] by (simp add: w_def)
  have feed: "feed sbw_reduce 0 cs (?s, c) = map_res (Pair ?t) (calls (the_callback s) (fst (slide w st f)) c)"
    using window.feed_concat [OF inv(1), of 0 cs] sbw_reduce_slide [OF inv(1), of f 0] len
    by (simp add: f_def w_def st_def)
  have run: "sbw_run cs s c = map_res (Pair ?t) (calls (the_callback s) (windows w st f) c)"
    unfolding sbw_run_def start bnd.simps feed slide_windows [OF pos] calls_append
    by (simp add: fin map_res_def bnd_assoc)
  show ?thesis
    using pos by (simp add: run cb [OF cfg(3)] windows_nth map_res_def bnd_assoc getLastBlockAnyway_def
        slide_short del: upt_Suc)
qed

text \<open>The first case of the unit tests, cut into three blocks, with a callback that records.\<close>

theorem sliding_windows_witness:
  "map_res snd (sbw_run [lit ''abc'', lit ''d'', lit ''efghij'']
     (setCallback (Some (\<lambda>b c. Inr (c @ [b]))) (setStep 2 (setWindowSize 4 sbw_new))) []) =
   Inr [lit ''abcd'', lit ''cdef'', lit ''efgh'', lit ''ghij'']"
proof -
  have l: "concat [lit ''abc'', lit ''d'', lit ''efghij''] = lit ''abcdefghij''"
    by (simp add: lit_def)
  have n: "length (lit ''abcdefghij'') = 10" by (simp add: lit_def)
  have u: "[0..<4] = [0, 1, 2, 3 :: nat]" by (simp add: upt_rec)
  show ?thesis
    using sliding_windows [of "setCallback (Some (\<lambda>b c. Inr (c @ [b]))) (setStep 2 (setWindowSize 4 sbw_new))"
        "\<lambda>b c. Inr (c @ [b])" "[lit ''abc'', lit ''d'', lit ''efghij'']" "[]", unfolded l n, THEN conjunct1]
    by (simp add: setCallback_def setStep_def setWindowSize_def sbw_new_def u) (simp add: lit_def)
qed

end
