(* ===== verification/Entropy.thy ===== *)
theory Entropy
  imports Floats
begin

text \<open>
  \<open>common/src/shannonentropycalculator.cpp\<close>. The C++ standard does not fix the accuracy of
  \<open>std::log2(float)\<close>, so it is a parameter; \<open>log2f_ok\<close> is what the common
  mathematical libraries do, more than they document: exact at powers of two and never outside the
  two integers around the true logarithm.
\<close>

section \<open>The routine\<close>

fun entropy_loop :: "(fl \<Rightarrow> fl) \<Rightarrow> size_t \<Rightarrow> size_t list \<Rightarrow> entropy_t \<Rightarrow> entropy_t" where
  "entropy_loop log2f tot [] entropy = entropy"
| "entropy_loop log2f tot (x # xs) entropy =
     (if x = 0 then entropy_loop log2f tot xs entropy
      else let p_x = fl_div f32 (fl_of_word f32 x) (fl_of_word f32 tot)
           in entropy_loop log2f tot xs (fl_sub f32 entropy (fl_mul f32 p_x (log2f p_x))))"

definition calculateShannonEntropy ::
  "(fl \<Rightarrow> fl) \<Rightarrow> size_t \<Rightarrow> size_t list \<Rightarrow> nat \<Rightarrow> entropy_t res" where
  "calculateShannonEntropy log2f sumTotalCounts counts numCounts =
     (if sumTotalCounts = 0 then Inr fl_zero
      else bnd (load_list counts 0 numCounts) (\<lambda>cs. Inr (entropy_loop log2f sumTotalCounts cs fl_zero)))"

text \<open>The value for an array of exactly \<open>numCounts\<close> counts.\<close>

definition entropy_value :: "(fl \<Rightarrow> fl) \<Rightarrow> size_t \<Rightarrow> size_t list \<Rightarrow> entropy_t" where
  "entropy_value log2f tot cs = (if tot = 0 then fl_zero else entropy_loop log2f tot cs fl_zero)"

lemma calculateShannonEntropy_value:
  "n \<le> length cs \<Longrightarrow> calculateShannonEntropy log2f tot cs n = Inr (entropy_value log2f tot (take n cs))"
  by (simp add: calculateShannonEntropy_def entropy_value_def load_list_def)

section \<open>What is known of the logarithm\<close>

definition log2f_ok :: "(fl \<Rightarrow> fl) \<Rightarrow> bool" where
  "log2f_ok log2f \<longleftrightarrow>
     (\<forall>q. 0 < q \<longrightarrow> wf_fl f32 (Fin False q) \<longrightarrow>
        (\<exists>s r. log2f (Fin False q) = Fin s r \<and> 0 \<le> r \<and>
           of_int (rlog2 q) \<le> signed s r \<and> signed s r \<le> of_int (rlog2 q + 1) \<and>
           (q = p2 (rlog2 q) \<longrightarrow> signed s r = of_int (rlog2 q))))"

text \<open>A logarithm that meets it: the integral part.\<close>

definition log2f_floor :: "fl \<Rightarrow> fl" where
  "log2f_floor x = (case x of Fin False q \<Rightarrow> Fin (rlog2 q < 0) (of_int \<bar>rlog2 q\<bar>) | _ \<Rightarrow> NaN)"

lemma log2f_floor_ok: "log2f_ok log2f_floor"
  by (auto simp: log2f_ok_def log2f_floor_def signed_def)

lemma rlog2_le0: "0 < q \<Longrightarrow> q < 1 \<Longrightarrow> rlog2 q + 1 \<le> 0"
proof -
  assume "0 < q" "q < 1"
  then have "p2 (rlog2 q) < 1" using rlog2_bounds [of q] by simp
  then show ?thesis using p2_less_iff [of "rlog2 q" 0] by simp
qed

lemma rlog2_p2 [simp]: "rlog2 (p2 k) = k"
  by (rule rlog2_unique) (simp_all add: p2_less_iff)

lemma log2f_range:
  assumes "log2f_ok log2f" "p2 (- 64) \<le> p" "p \<le> 1" "wf_fl f32 (Fin False p)"
  obtains s r where "log2f (Fin False p) = Fin s r" "0 \<le> r" "- 64 \<le> signed s r" "signed s r \<le> 0"
proof -
  have p: "0 < p" using assms(2) p2_pos [of "- 64"] by linarith
  obtain s r where l: "log2f (Fin False p) = Fin s r" "0 \<le> r" "of_int (rlog2 p) \<le> signed s r"
    "signed s r \<le> of_int (rlog2 p + 1)" "p = p2 (rlog2 p) \<longrightarrow> signed s r = of_int (rlog2 p)"
    using assms(1,4) p unfolding log2f_ok_def by blast
  have "- 64 \<le> rlog2 p" using rlog2_mono [of "p2 (- 64)" p] assms(2) by simp
  then have lo: "- 64 \<le> signed s r" using l(3) by linarith
  have "signed s r \<le> 0"
  proof (cases "p = 1")
    case True
    then have "rlog2 p = 0" using rlog2_p2 [of 0] by simp
    then show ?thesis using l(5) True by simp
  next
    case False
    then have "(of_int (rlog2 p + 1) :: rat) \<le> 0"
      using rlog2_le0 [OF p] assms(3) by (metis of_int_0 of_int_le_iff order_le_less)
    then show ?thesis using l(4) by linarith
  qed
  with l lo show ?thesis using that by blast
qed

section \<open>The entropy stays finite\<close>

text \<open>A count that, converted to \<open>float\<close>, is not above the converted total.\<close>

definition frac_ok :: "size_t \<Rightarrow> size_t \<Rightarrow> bool" where
  "frac_ok tot x \<longleftrightarrow>
     (\<exists>a b. fl_of_word f32 x = Fin False a \<and> fl_of_word f32 tot = Fin False b \<and> a \<le> b)"

lemma frac_okI:
  assumes "unat x \<le> unat tot"
  shows "frac_ok tot x"
proof -
  obtain b where b: "fl_of_word f32 tot = Fin False b" using fl_of_word_fin by blast
  then show ?thesis
    using fl_of_nat_mono [OF wf_fmt_f32 assms, of False b] by (auto simp: frac_ok_def fl_of_word_def)
qed

lemma fl_of_nat_ge1:
  assumes "0 < n" "n \<le> 2 ^ 64" "fl_of_nat f32 n = Fin False a"
  shows "1 \<le> a \<and> a \<le> p2 64"
proof -
  have a: "a = round_mag f32 (of_nat n)"
    using assms(3) by (auto simp: fl_of_nat_def fl_round_def Let_def split: if_splits)
  have "(1::rat) \<le> of_nat n" using assms(1) by simp
  then have "round_mag f32 1 \<le> a" unfolding a by (intro round_mono) auto
  moreover have "round_mag f32 1 = 1" using rep_mag_of_int [of f32 1] by (intro round_rep) simp
  moreover have "(of_nat n :: rat) \<le> of_nat (2 ^ 64)" using assms(2) by (simp only: of_nat_le_iff)
  then have "a \<le> p2 64" unfolding a by (intro round_le_rep rep_mag_p2) (auto simp: p2_def)
  ultimately show ?thesis by simp
qed

lemma fl_of_word_ge1:
  "x \<noteq> 0 \<Longrightarrow> fl_of_word f32 (x :: size_t) = Fin False a \<Longrightarrow> 1 \<le> a \<and> a \<le> p2 64"
  using fl_of_nat_ge1 [of "unat x" a] unat_bound [of x] by (simp add: fl_of_word_def unat_gt_0)

lemma fraction_range:
  assumes "frac_ok tot x" "x \<noteq> 0"
  obtains p where "fl_div f32 (fl_of_word f32 x) (fl_of_word f32 tot) = Fin False p"
    "p2 (- 64) \<le> p" "p \<le> 1" "wf_fl f32 (Fin False p)"
proof -
  obtain a b where ab: "fl_of_word f32 x = Fin False a" "fl_of_word f32 tot = Fin False b" "a \<le> b"
    using assms(1) by (auto simp: frac_ok_def)
  have a: "1 \<le> a" using fl_of_word_ge1 [OF assms(2) ab(1)] by simp
  have "tot \<noteq> 0"
  proof
    assume "tot = 0"
    then have "b = 0" using ab(2) by (simp add: fl_of_word_def)
    then show False using a ab(3) by simp
  qed
  then have b: "b \<le> p2 64" using fl_of_word_ge1 ab(2) by blast
  have pos: "0 < b" using a ab(3) by linarith
  let ?q = "a / b"
  have "1 / p2 64 \<le> ?q" using a b pos by (intro frac_le) auto
  then have lo: "p2 (- 64) \<le> ?q" using p2_diff [of 0 64] by simp
  have hi: "?q \<le> 1" using ab(3) pos by simp
  have r: "p2 (- 64) \<le> round_mag f32 ?q" "round_mag f32 ?q \<le> 1"
    using round_mono [of "p2 (- 64)" ?q f32] lo round_rep [OF rep_mag_p2, of f32 "- 64"]
      round_le_one [of f32 ?q] hi a pos by simp_all
  have "round_mag f32 ?q < p2 128" using r(2) p2_less_iff [of 0 128] by simp
  then have d: "fl_div f32 (Fin False a) (Fin False b) = Fin False (round_mag f32 ?q)"
    using pos by (simp add: fl_round_def Let_def)
  moreover have "wf_fl f32 (Fin False (round_mag f32 ?q))"
    using wf_fl_round [of f32 ?q False] a pos d by simp
  ultimately show ?thesis using that r ab by simp
qed

lemma entropy_term:
  assumes "log2f_ok log2f" "frac_ok tot x" "x \<noteq> 0"
    and p: "p = fl_div f32 (fl_of_word f32 x) (fl_of_word f32 tot)"
  obtains s r where "fl_mul f32 p (log2f p) = Fin s r" "0 \<le> r" "r \<le> 64" "signed s r \<le> 0"
proof -
  obtain q where q: "p = Fin False q" "p2 (- 64) \<le> q" "q \<le> 1" "wf_fl f32 (Fin False q)"
    using fraction_range [OF assms(2,3)] p by metis
  obtain s r where l: "log2f p = Fin s r" "0 \<le> r" "- 64 \<le> signed s r" "signed s r \<le> 0"
    using log2f_range [OF assms(1) q(2-4)] q(1) by blast
  have q0: "0 \<le> q" using q(2) p2_pos [of "- 64"] by linarith
  have r: "r \<le> 64" "s \<or> r = 0" using l by (cases s; simp add: signed_def)+
  have "q * r \<le> 1 * 64" using q(3) r q0 l(2) by (intro mult_mono) auto
  then have m: "0 \<le> round_mag f32 (q * r)" "round_mag f32 (q * r) \<le> 64"
    using round_le_rep [of f32 "q * r" "of_int 64"] rep_mag_of_int [of f32 64] q0 l(2)
    by (simp_all add: round_nonneg)
  have "(64 :: rat) < p2 128" using p2_less_iff [of 6 128] by (simp add: p2_def)
  with m(2) have "round_mag f32 (q * r) < p2 128" by linarith
  then have "fl_mul f32 p (log2f p) = Fin s (round_mag f32 (q * r))"
    using l(1) by (simp add: q(1) fl_round_def Let_def)
  moreover have "signed s (round_mag f32 (q * r)) \<le> 0"
    using r(2) m(1) by (auto simp: signed_def round_mag_def)
  ultimately show ?thesis using that m by blast
qed

lemma entropy_step:
  assumes "0 \<le> e" "e \<le> of_nat k" "0 \<le> r" "r \<le> 64" "signed s r \<le> 0" "k + 64 < 2 ^ 24"
  shows "\<exists>e'. fl_sub f32 (Fin False e) (Fin s r) = Fin False e' \<and> 0 \<le> e' \<and> e' \<le> of_nat (k + 64)"
proof -
  have r: "signed (\<not> s) r = r" using assms(3,5) by (cases s) (auto simp: signed_def)
  have le: "e + r \<le> of_nat (k + 64)" using assms(2,4) by simp
  have m: "0 \<le> round_mag f32 (e + r)" "round_mag f32 (e + r) \<le> of_nat (k + 64)"
    using assms round_le_rep [OF _ _ le] rep_mag_of_nat [of f32 "k + 64"] by (simp_all add: round_nonneg)
  have "(of_nat (k + 64) :: rat) < of_nat (2 ^ 24)" using assms(6) by (simp only: of_nat_less_iff)
  also have "(of_nat (2 ^ 24) :: rat) = p2 24" by (simp add: p2_def)
  also have "p2 24 < p2 128" by (simp add: p2_less_iff)
  finally have "round_mag f32 (e + r) < p2 128" using m(2) by linarith
  then show ?thesis using m assms(1,3) r
    by (auto simp: fl_sub_def fl_round_def Let_def signed_def [of False] abs_of_nonneg)
qed

lemma entropy_loop_finite:
  assumes "log2f_ok log2f" "\<forall>x \<in> set xs. x \<noteq> 0 \<longrightarrow> frac_ok tot x"
    "0 \<le> e" "e \<le> of_nat k" "k + 64 * length xs < 2 ^ 24"
  shows "\<exists>e'. entropy_loop log2f tot xs (Fin False e) = Fin False e' \<and> 0 \<le> e' \<and>
              e' \<le> of_nat (k + 64 * length xs)"
  using assms
proof (induction xs arbitrary: e k)
  case (Cons x xs)
  show ?case
  proof (cases "x = 0")
    case True
    have "\<exists>e'. entropy_loop log2f tot xs (Fin False e) = Fin False e' \<and> 0 \<le> e' \<and>
              e' \<le> of_nat (k + 64 * length xs)"
      using Cons.prems by (intro Cons.IH) auto
    then show ?thesis using True by auto
  next
    case False
    define p where "p = fl_div f32 (fl_of_word f32 x) (fl_of_word f32 tot)"
    have "frac_ok tot x" using Cons.prems(2) False by simp
    then obtain s r where t: "fl_mul f32 p (log2f p) = Fin s r" "0 \<le> r" "r \<le> 64" "signed s r \<le> 0"
      using entropy_term [OF Cons.prems(1) _ False p_def] by blast
    obtain e' where e': "fl_sub f32 (Fin False e) (Fin s r) = Fin False e'" "0 \<le> e'" "e' \<le> of_nat (k + 64)"
      using entropy_step [OF Cons.prems(3,4) t(2-4)] Cons.prems(5) by auto
    have "\<exists>e''. entropy_loop log2f tot xs (Fin False e') = Fin False e'' \<and> 0 \<le> e'' \<and>
              e'' \<le> of_nat (k + 64 + 64 * length xs)"
      using Cons.prems(1,2,5) e' by (intro Cons.IH) auto
    then show ?thesis using False by (simp add: Let_def t(1) e'(1) add.assoc flip: p_def)
  qed
qed simp

text \<open>
  C40. For up to 256 counts, none above the total (as \<open>float\<close>s), the entropy is a finite number
  between zero and 64 per count, with a positive sign: no NaN from \<open>0 * log2(0)\<close>, no negative
  zero and no infinity reaches the feature vector or the integer cast of the histogram bins.
\<close>

theorem entropy_finite:
  assumes "log2f_ok log2f" "n \<le> length counts" "n \<le> 256"
    "\<forall>x \<in> set (take n counts). unat x \<le> unat tot"
  shows "\<exists>q. calculateShannonEntropy log2f tot counts n = Inr (Fin False q) \<and> 0 \<le> q \<and> q \<le> of_nat (64 * n)"
proof -
  have "\<exists>e'. entropy_loop log2f tot (take n counts) (Fin False 0) = Fin False e' \<and> 0 \<le> e' \<and>
              e' \<le> of_nat (0 + 64 * length (take n counts))"
    using assms by (intro entropy_loop_finite) (auto intro: frac_okI)
  moreover have "length (take n counts) = n" using assms(2) by simp
  ultimately show ?thesis
    using assms(2) by (auto simp: calculateShannonEntropy_def load_list_def fl_zero_def)
qed

theorem entropy_finite_witness:
  "\<exists>q. calculateShannonEntropy log2f_floor 4 [1, 0, 2, 1] 4 = Inr (Fin False q) \<and> 0 \<le> q \<and> q \<le> 256"
  using entropy_finite [OF log2f_floor_ok, of 4 "[1, 0, 2, 1]" 4] by simp

end
