(* ===== verification/Murmur3.thy ===== *)
theory Murmur3
  imports Prelude
begin

text \<open>
  \<open>murmur3/src/murmur3.c\<close>: the three MurmurHash3 variants over 32-bit and 64-bit words, on a
  little-endian machine (\<open>getblock32\<close> and \<open>getblock64\<close> read the words in host order). \<open>key\<close> is
  the memory from the key pointer to the end of its allocation and \<open>len\<close> the signed 32-bit
  length; what the routine stores through \<open>out\<close> is its result. A read past the allocation is
  \<open>OutOfBounds\<close>, a block pointer in front of it \<open>Undefined\<close>.
\<close>

section \<open>Words\<close>

definition rotl32 :: "u32 \<Rightarrow> nat \<Rightarrow> u32" where
  "rotl32 x r = (push_bit r x OR drop_bit (32 - r) x)"

definition rotl64 :: "u64 \<Rightarrow> nat \<Rightarrow> u64" where
  "rotl64 x r = (push_bit r x OR drop_bit (64 - r) x)"

definition getblock32 :: "bytes \<Rightarrow> nat \<Rightarrow> u32" where
  "getblock32 p i = le_bytes (take 4 (drop (4 * i) p))"

definition getblock64 :: "bytes \<Rightarrow> nat \<Rightarrow> u64" where
  "getblock64 p i = le_bytes (take 8 (drop (8 * i) p))"

definition fmix32 :: "u32 \<Rightarrow> u32" where
  "fmix32 h = (let h = h XOR drop_bit 16 h; h = h * 0x85ebca6b;
                   h = h XOR drop_bit 13 h; h = h * 0xc2b2ae35
               in h XOR drop_bit 16 h)"

definition fmix64 :: "u64 \<Rightarrow> u64" where
  "fmix64 k = (let k = k XOR drop_bit 33 k; k = k * 0xff51afd7ed558ccd;
                   k = k XOR drop_bit 33 k; k = k * 0xc4ceb9fe1a85ec53
               in k XOR drop_bit 33 k)"

text \<open>One byte of the tail, shifted into its place when the \<open>switch\<close> falls through it.\<close>

definition tail_byte :: "nat \<Rightarrow> bytes \<Rightarrow> nat \<Rightarrow> nat \<Rightarrow> 'w::len word \<Rightarrow> 'w word" where
  "tail_byte t tail i sh k = (if i < t then k XOR push_bit sh (ucast (tail ! i)) else k)"

text \<open>
  The length checks the pointer arithmetic relies on: \<open>len / n\<close> truncates towards zero, and
  \<open>len & (n - 1)\<close> is the number of tail bytes read.
\<close>

definition hash_frame :: "bytes \<Rightarrow> u32 \<Rightarrow> nat \<Rightarrow> (nat \<Rightarrow> nat \<Rightarrow> 'a) \<Rightarrow> 'a res" where
  "hash_frame key len n f =
     (let nblocks = (if 0 \<le> sint len then sint len div int n else - (- sint len div int n));
          t = nat (sint len mod int n)
      in if nblocks < 0 then Inl Undefined
         else if length key < nat nblocks * n + t then Inl OutOfBounds
         else Inr (f (nat nblocks) t))"

section \<open>MurmurHash3\_x86\_32\<close>

definition mix_x86_32 :: "u32 \<Rightarrow> u32" where
  "mix_x86_32 k1 = rotl32 (k1 * 0xcc9e2d51) 15 * 0x1b873593"

definition round_x86_32 :: "u32 \<Rightarrow> u32 \<Rightarrow> u32" where
  "round_x86_32 k1 h1 = rotl32 (h1 XOR mix_x86_32 k1) 13 * 5 + 0xe6546b64"

text \<open>The loop over the blocks; the pointer moves where the code moves its index.\<close>

fun body_x86_32 :: "nat \<Rightarrow> bytes \<Rightarrow> u32 \<Rightarrow> u32" where
  "body_x86_32 0 p h1 = h1"
| "body_x86_32 (Suc n) p h1 = body_x86_32 n (drop 4 p) (round_x86_32 (getblock32 p 0) h1)"

definition tail_x86_32 :: "nat \<Rightarrow> bytes \<Rightarrow> u32 \<Rightarrow> u32" where
  "tail_x86_32 t tail h1 =
     (if t = 0 then h1
      else h1 XOR mix_x86_32 (tail_byte t tail 0 0 (tail_byte t tail 1 8 (tail_byte t tail 2 16 0))))"

definition MurmurHash3_x86_32 :: "bytes \<Rightarrow> u32 \<Rightarrow> u32 \<Rightarrow> u32 res" where
  "MurmurHash3_x86_32 key len seed =
     hash_frame key len 4 (\<lambda>nblocks t.
       let h1 = body_x86_32 nblocks key seed;
           h1 = tail_x86_32 t (drop (nblocks * 4) key) h1
       in fmix32 (h1 XOR len))"

section \<open>MurmurHash3\_x86\_128\<close>

type_synonym quad = "u32 \<times> u32 \<times> u32 \<times> u32"

definition mix_x86_128 :: "u32 \<Rightarrow> nat \<Rightarrow> u32 \<Rightarrow> u32 \<Rightarrow> u32" where
  "mix_x86_128 a r b k = rotl32 (k * a) r * b"

definition round_x86_128 :: "bytes \<Rightarrow> quad \<Rightarrow> quad" where
  "round_x86_128 p h = (case h of (h1, h2, h3, h4) \<Rightarrow>
     let k1 = getblock32 p 0; k2 = getblock32 p 1; k3 = getblock32 p 2; k4 = getblock32 p 3;
         h1 = h1 XOR mix_x86_128 0x239b961b 15 0xab0e9789 k1;
         h1 = (rotl32 h1 19 + h2) * 5 + 0x561ccd1b;
         h2 = h2 XOR mix_x86_128 0xab0e9789 16 0x38b34ae5 k2;
         h2 = (rotl32 h2 17 + h3) * 5 + 0x0bcaa747;
         h3 = h3 XOR mix_x86_128 0x38b34ae5 17 0xa1e38b93 k3;
         h3 = (rotl32 h3 15 + h4) * 5 + 0x96cd1c35;
         h4 = h4 XOR mix_x86_128 0xa1e38b93 18 0x239b961b k4;
         h4 = (rotl32 h4 13 + h1) * 5 + 0x32ac3b17
     in (h1, h2, h3, h4))"

fun body_x86_128 :: "nat \<Rightarrow> bytes \<Rightarrow> quad \<Rightarrow> quad" where
  "body_x86_128 0 p h = h"
| "body_x86_128 (Suc n) p h = body_x86_128 n (drop 16 p) (round_x86_128 p h)"

definition tail_x86_128 :: "nat \<Rightarrow> bytes \<Rightarrow> quad \<Rightarrow> quad" where
  "tail_x86_128 t tail h = (case h of (h1, h2, h3, h4) \<Rightarrow>
     let word = (\<lambda>j. tail_byte t tail j 0 (tail_byte t tail (j + 1) 8
                     (tail_byte t tail (j + 2) 16 (tail_byte t tail (j + 3) 24 0))));
         h4 = (if 12 < t then h4 XOR mix_x86_128 0xa1e38b93 18 0x239b961b (word 12) else h4);
         h3 = (if 8 < t then h3 XOR mix_x86_128 0x38b34ae5 17 0xa1e38b93 (word 8) else h3);
         h2 = (if 4 < t then h2 XOR mix_x86_128 0xab0e9789 16 0x38b34ae5 (word 4) else h2);
         h1 = (if 0 < t then h1 XOR mix_x86_128 0x239b961b 15 0xab0e9789 (word 0) else h1)
     in (h1, h2, h3, h4))"

definition spread_x86_128 :: "quad \<Rightarrow> quad" where
  "spread_x86_128 h = (case h of (h1, h2, h3, h4) \<Rightarrow>
     let h1 = h1 + h2 + h3 + h4 in (h1, h2 + h1, h3 + h1, h4 + h1))"

definition final_x86_128 :: "u32 \<Rightarrow> quad \<Rightarrow> quad" where
  "final_x86_128 len h = (case h of (h1, h2, h3, h4) \<Rightarrow>
     case spread_x86_128 (h1 XOR len, h2 XOR len, h3 XOR len, h4 XOR len) of (h1, h2, h3, h4) \<Rightarrow>
       spread_x86_128 (fmix32 h1, fmix32 h2, fmix32 h3, fmix32 h4))"

definition MurmurHash3_x86_128 :: "bytes \<Rightarrow> u32 \<Rightarrow> u32 \<Rightarrow> quad res" where
  "MurmurHash3_x86_128 key len seed =
     hash_frame key len 16 (\<lambda>nblocks t.
       final_x86_128 len (tail_x86_128 t (drop (nblocks * 16) key)
         (body_x86_128 nblocks key (seed, seed, seed, seed))))"

section \<open>MurmurHash3\_x64\_128\<close>

type_synonym pair64 = "u64 \<times> u64"

definition mix_x64_128 :: "u64 \<Rightarrow> nat \<Rightarrow> u64 \<Rightarrow> u64 \<Rightarrow> u64" where
  "mix_x64_128 a r b k = rotl64 (k * a) r * b"

definition round_x64_128 :: "bytes \<Rightarrow> pair64 \<Rightarrow> pair64" where
  "round_x64_128 p h = (case h of (h1, h2) \<Rightarrow>
     let k1 = getblock64 p 0; k2 = getblock64 p 1;
         h1 = h1 XOR mix_x64_128 0x87c37b91114253d5 31 0x4cf5ad432745937f k1;
         h1 = (rotl64 h1 27 + h2) * 5 + 0x52dce729;
         h2 = h2 XOR mix_x64_128 0x4cf5ad432745937f 33 0x87c37b91114253d5 k2;
         h2 = (rotl64 h2 31 + h1) * 5 + 0x38495ab5
     in (h1, h2))"

fun body_x64_128 :: "nat \<Rightarrow> bytes \<Rightarrow> pair64 \<Rightarrow> pair64" where
  "body_x64_128 0 p h = h"
| "body_x64_128 (Suc n) p h = body_x64_128 n (drop 16 p) (round_x64_128 p h)"

definition tail_x64_128 :: "nat \<Rightarrow> bytes \<Rightarrow> pair64 \<Rightarrow> pair64" where
  "tail_x64_128 t tail h = (case h of (h1, h2) \<Rightarrow>
     let word = (\<lambda>j. tail_byte t tail j 0 (tail_byte t tail (j + 1) 8 (tail_byte t tail (j + 2) 16
           (tail_byte t tail (j + 3) 24 (tail_byte t tail (j + 4) 32 (tail_byte t tail (j + 5) 40
           (tail_byte t tail (j + 6) 48 (tail_byte t tail (j + 7) 56 0))))))));
         h2 = (if 8 < t then h2 XOR mix_x64_128 0x4cf5ad432745937f 33 0x87c37b91114253d5 (word 8) else h2);
         h1 = (if 0 < t then h1 XOR mix_x64_128 0x87c37b91114253d5 31 0x4cf5ad432745937f (word 0) else h1)
     in (h1, h2))"

definition MurmurHash3_x64_128 :: "bytes \<Rightarrow> u32 \<Rightarrow> u32 \<Rightarrow> pair64 res" where
  "MurmurHash3_x64_128 key len seed =
     hash_frame key len 16 (\<lambda>nblocks t.
       case tail_x64_128 t (drop (nblocks * 16) key) (body_x64_128 nblocks key (ucast seed, ucast seed)) of
         (h1, h2) \<Rightarrow>
           let h1 = h1 XOR scast len; h2 = h2 XOR scast len;
               h1 = h1 + h2; h2 = h2 + h1;
               h1 = fmix64 h1; h2 = fmix64 h2;
               h1 = h1 + h2; h2 = h2 + h1
           in (h1, h2))"

section \<open>What the routine reads\<close>

lemma hash_frame_ok:
  "int n = sint len \<Longrightarrow> n \<le> length key \<Longrightarrow> 0 < m \<Longrightarrow>
   hash_frame key len m f = Inr (f (n div m) (n mod m))"
proof -
  assume a: "int n = sint len" "n \<le> length key" "0 < m"
  have "n div m * m + n mod m = n" by (rule div_mult_mod_eq)
  then show ?thesis unfolding hash_frame_def a(1) [symmetric]
    using a(2) by (simp add: Let_def flip: zdiv_int zmod_int)
qed

lemma sint_of_nat_len: "n < 2 ^ 31 \<Longrightarrow> sint (of_nat n :: u32) = int n"
  by (simp add: signed_of_nat signed_take_bit_int_eq_self)

text \<open>The result of a whole key, as the callers that pass \<open>strlen\<close> get it.\<close>

definition hash_value :: "bytes \<Rightarrow> u32 \<Rightarrow> u32" where
  "hash_value key seed =
     fmix32 (tail_x86_32 (length key mod 4) (drop (length key div 4 * 4) key)
       (body_x86_32 (length key div 4) key seed) XOR of_nat (length key))"

lemma body_take: "4 * n \<le> length p \<Longrightarrow> body_x86_32 n (p @ q) h = body_x86_32 n p h"
  by (induction n p h rule: body_x86_32.induct) (simp_all add: getblock32_def)

lemma tail_byte_append: "t \<le> length p \<Longrightarrow> tail_byte t (p @ q) i sh k = tail_byte t p i sh k"
  by (simp add: tail_byte_def nth_append)

lemma MurmurHash3_x86_32_value:
  assumes "length key < 2 ^ 31"
  shows "MurmurHash3_x86_32 (key @ junk) (of_nat (length key)) seed = Inr (hash_value key seed)"
proof -
  have "length key mod 4 \<le> length (drop (length key div 4 * 4) key)"
    by (simp add: minus_div_mult_eq_mod)
  moreover have "drop (length key div 4 * 4) (key @ junk) = drop (length key div 4 * 4) key @ junk"
    using div_mult_mod_eq [of "length key" 4] by (simp add: drop_append)
  moreover have "hash_frame (key @ junk) (of_nat (length key)) 4 f =
      Inr (f (length key div 4) (length key mod 4))" for f :: "nat \<Rightarrow> nat \<Rightarrow> u32"
    using assms by (intro hash_frame_ok) (simp_all add: sint_of_nat_len)
  ultimately show ?thesis
    unfolding MurmurHash3_x86_32_def
    by (simp add: hash_value_def body_take tail_x86_32_def tail_byte_append Let_def)
qed

section \<open>Every step is a bijection\<close>

lemma xorshift_inj:
  assumes "x XOR drop_bit n x = y XOR drop_bit n y" "0 < n"
  shows "x = (y :: 'w::len word)"
proof -
  let ?z = "x XOR y"
  have "?z XOR drop_bit n ?z = (x XOR drop_bit n x) XOR (y XOR drop_bit n y)"
    by (simp add: drop_bit_xor ac_simps)
  then have "?z XOR drop_bit n ?z = 0" using assms(1) by simp
  then have "(?z XOR drop_bit n ?z) XOR drop_bit n ?z = 0 XOR drop_bit n ?z" by (simp only:)
  then have "?z = drop_bit n ?z" by (simp only: xor.assoc xor_self_eq xor.right_neutral xor.left_neutral)
  then have "unat ?z = unat ?z div 2 ^ n" by (metis drop_bit_eq_div unat_drop_bit_eq)
  moreover have "unat ?z div 2 ^ n < unat ?z" if "unat ?z \<noteq> 0"
    using that assms(2) one_less_power [of "2 :: nat" n] by (intro div_less_dividend) auto
  ultimately have "?z = 0" by (metis less_irrefl unat_eq_0)
  then show ?thesis by (metis xor.assoc xor.left_neutral xor.right_neutral xor_self_eq)
qed

lemma mult_inj:
  assumes "x * c = y * c" "c * d = 1"
  shows "x = (y :: 'w::len word)"
  by (metis assms mult.assoc mult.right_neutral)

lemma xor_inj: "(x XOR c) = (y XOR c) \<Longrightarrow> x = (y :: 'w::len word)"
  by (metis xor.assoc xor.right_neutral xor_self_eq)

lemma xor_inj2: "(c XOR x) = (c XOR y) \<Longrightarrow> x = (y :: 'w::len word)"
  using xor_inj [of x c y] by (simp add: xor.commute)

lemma rotl32_inj:
  assumes "rotl32 x r = rotl32 y r" "0 < r" "r < 32"
  shows "x = y"
proof (rule bit_word_eqI)
  have b: "bit (rotl32 z r) n = (if n < r then bit z (n + (32 - r)) else bit z (n - r))" if "n < 32" for z n
    using that assms(2,3)
    by (auto simp: rotl32_def bit_or_iff bit_push_bit_iff bit_drop_bit_eq add.commute dest: bit_imp_le_length)
  fix m :: nat
  assume m: "m < LENGTH(32)"
  show "bit x m = bit y m"
  proof (cases "m < 32 - r")
    case True
    then show ?thesis using b [of "m + r" x] b [of "m + r" y] assms by simp
  next
    case False
    then have "m - (32 - r) < r" "m - (32 - r) + (32 - r) = m" "m - (32 - r) < 32"
      using m assms(2,3) by simp_all
    then show ?thesis using b [of "m - (32 - r)" x] b [of "m - (32 - r)" y] assms(1) by metis
  qed
qed

lemma fmix32_inj: "fmix32 x = fmix32 y \<Longrightarrow> x = y"
  unfolding fmix32_def Let_def
  by (drule xorshift_inj, simp, drule mult_inj [where d = "0x7ed1b41d"], simp,
      drule xorshift_inj, simp, drule mult_inj [where d = "0xa5cb9243"], simp,
      drule xorshift_inj, simp, assumption)

lemma mix_x86_32_inj: "mix_x86_32 x = mix_x86_32 y \<Longrightarrow> x = y"
  unfolding mix_x86_32_def
  by (drule mult_inj [where d = "0x56ed309b"], simp, drule rotl32_inj, simp, simp,
      drule mult_inj [where d = "0xdee13bb1"], simp, assumption)

lemma round_outer_inj: "rotl32 a 13 * 5 + c = rotl32 b 13 * 5 + c \<Longrightarrow> a = b"
  by (simp, drule mult_inj [where d = "0xcccccccd"], simp, drule rotl32_inj, simp, simp, assumption)

lemma round_x86_32_inj: "round_x86_32 k x = round_x86_32 k y \<Longrightarrow> x = y"
  unfolding round_x86_32_def by (drule round_outer_inj, drule xor_inj, assumption)

lemma round_x86_32_inj_key: "round_x86_32 k x = round_x86_32 k' x \<Longrightarrow> k = k'"
  unfolding round_x86_32_def
  by (drule round_outer_inj, drule xor_inj2, drule mix_x86_32_inj, assumption)

lemma body_x86_32_inj: "body_x86_32 n p x = body_x86_32 n p y \<Longrightarrow> x = y"
  by (induction n arbitrary: p x y) (auto dest: round_x86_32_inj)

lemma tail_x86_32_inj: "tail_x86_32 t p x = tail_x86_32 t p y \<Longrightarrow> x = y"
  by (auto simp: tail_x86_32_def dest: xor_inj split: if_splits)

lemma body_append:
  "length a = 4 * n \<Longrightarrow> body_x86_32 (n + m) (a @ b) h = body_x86_32 m b (body_x86_32 n a h)"
  by (induction n a h rule: body_x86_32.induct) (simp_all add: getblock32_def)

lemma hash_value_split:
  assumes "length a = 4 * i" "length k = 4"
  shows "hash_value (a @ k @ c) seed =
    fmix32 (tail_x86_32 (length c mod 4) (drop (length c div 4 * 4) c)
      (body_x86_32 (length c div 4) c (round_x86_32 (le_bytes k) (body_x86_32 i a seed)))
      XOR of_nat (4 * i + 4 + length c))"
proof -
  let ?key = "a @ k @ c" and ?m = "length c div 4"
  have l: "length ?key = 4 * i + 4 + length c" using assms by simp
  have q: "length ?key div 4 = i + (1 + ?m)" "length ?key mod 4 = length c mod 4"
    unfolding l by (simp, presburger)
  have d: "drop ((i + (1 + ?m)) * 4) ?key = drop (?m * 4) c" using assms by simp
  have "body_x86_32 (i + (1 + ?m)) ?key seed = body_x86_32 (1 + ?m) (k @ c) (body_x86_32 i a seed)"
    using assms(1) by (rule body_append)
  also have "\<dots> = body_x86_32 ?m c (round_x86_32 (le_bytes k) (body_x86_32 i a seed))"
    using assms(2) by (simp add: getblock32_def)
  finally have b: "body_x86_32 (i + (1 + ?m)) ?key seed = \<dots>" .
  show ?thesis using d b q unfolding hash_value_def l by (simp only:)
qed

text \<open>
  C31. \<open>MurmurHash3_x86_32\<close> on a key shorter than \<open>2 ^ 31\<close> bytes reads nothing outside the key, its
  value is a bijection of the seed, and two keys of the same length that differ in a single
  aligned block of four bytes never collide, whatever the seed.
\<close>

theorem murmur3_x86_32_no_collision:
  assumes "length key < 2 ^ 31" "key = a @ k @ c" "length a = 4 * i" "length k = 4" "length k' = 4" "k \<noteq> k'"
  shows "\<exists>f g. (\<forall>seed junk. MurmurHash3_x86_32 (key @ junk) (of_nat (length key)) seed = Inr (f seed)) \<and>
               (\<forall>seed junk. MurmurHash3_x86_32 ((a @ k' @ c) @ junk) (of_nat (length key)) seed = Inr (g seed)) \<and>
               bij f \<and> (\<forall>seed. f seed \<noteq> g seed)"
proof (intro exI conjI allI)
  let ?key' = "a @ k' @ c" and ?n = "length key" and ?t = "drop (length key div 4 * 4)"
  have len: "length ?key' = length key" using assms by simp
  show "MurmurHash3_x86_32 (key @ junk) (of_nat ?n) seed = Inr (hash_value key seed)" for seed junk
    using MurmurHash3_x86_32_value [OF assms(1)] .
  show "MurmurHash3_x86_32 (?key' @ junk) (of_nat ?n) seed = Inr (hash_value ?key' seed)" for seed junk
    using MurmurHash3_x86_32_value [of ?key' junk seed] assms(1) unfolding len .
  have "inj (hash_value key)"
    by (rule injI) (auto simp: hash_value_def dest!: fmix32_inj xor_inj tail_x86_32_inj body_x86_32_inj)
  then show "bij (hash_value key)" by (simp add: bij_def finite_UNIV_inj_surj)
  show "hash_value key seed \<noteq> hash_value ?key' seed" for seed
  proof
    assume *: "hash_value key seed = hash_value ?key' seed"
    then have "round_x86_32 (le_bytes k) (body_x86_32 i a seed) = round_x86_32 (le_bytes k') (body_x86_32 i a seed)"
      unfolding assms(2) hash_value_split [OF assms(3,4)] hash_value_split [OF assms(3,5)]
      by (rule body_x86_32_inj [OF tail_x86_32_inj [OF xor_inj [OF fmix32_inj]]])
    then have "le_bytes k = (le_bytes k' :: u32)" by (rule round_x86_32_inj_key)
    then show False using le_bytes_inj [of k k', where 'w = 32] assms(4-6) by simp
  qed
qed

theorem murmur3_x86_32_no_collision_witness:
  "\<exists>f g. (\<forall>seed junk. MurmurHash3_x86_32 (lit ''abcdefghi'' @ junk) 9 seed = Inr (f seed)) \<and>
         (\<forall>seed junk. MurmurHash3_x86_32 (lit ''abcdxfghi'' @ junk) 9 seed = Inr (g seed)) \<and>
         bij f \<and> (\<forall>seed. f seed \<noteq> g seed)"
  using murmur3_x86_32_no_collision [of "lit ''abcdefghi''" "lit ''abcd''" "lit ''efgh''" "lit ''i''" 1 "lit ''xfgh''"]
  by (simp add: lit_def)

section \<open>Test vectors\<close>

lemma murmur3_x86_32_vectors:
  "MurmurHash3_x86_32 [] 0 0 = Inr 0"
  "MurmurHash3_x86_32 [] 0 1 = Inr 0x514e28b7"
  "MurmurHash3_x86_32 (lit ''hello'') 5 0 = Inr 0x248bfa47"
  "MurmurHash3_x86_32 (lit ''hello, world'') 12 0 = Inr 0x149bbb7f"
  by code_simp+

lemma murmur3_x64_128_vector:
  "MurmurHash3_x64_128 (lit ''hello'') 5 0 = Inr (0xcbd8a7b341bd9b02, 0x5b1e906a48ae1d19)"
  by code_simp

text \<open>A negative length: a block pointer in front of the key, unless it is above \<open>-4\<close>.\<close>

lemma murmur3_negative: "MurmurHash3_x86_32 (lit ''hello'') (- 8) 0 = Inl Undefined"
  by code_simp

end
