(* ===== verification/FeatureHasher.thy ===== *)
theory FeatureHasher
  imports Murmur3 Floats "HOL-Library.Multiset"
begin

text \<open>
  \<open>featurehasher/src/featurehasher.cpp\<close>, the port of scikit-learn's \<open>FeatureHasher\<close>: hashed
  pairs are collected as a CSR matrix, duplicates are summed, and the dense rows are written to
  the output. Pointers into the output buffer are offsets into the list \<open>mem\<close> of its cells
  (\<open>None\<close> is NULL). A \<open>std::unordered_map\<close> is the list of its entries: the code sorts them
  before it uses their order.
\<close>

section \<open>State\<close>

record csr_result =
  indices :: "u32 list"
  indptr :: "u64 list"
  vals :: "fl list"

record csr_matrix =
  n_rows :: u64
  n_cols :: u64
  x_indptr :: "u64 list"
  x_indices :: "u32 list"
  x_data :: "fl list"

text \<open>\<open>sz\<close> is not initialised before the first \<open>start\<close>; \<open>buf\<close> is never filled.\<close>

record feature_hasher =
  alternateSign :: bool
  fh_output :: "nat option"
  fh_size :: size_t
  buf :: bytes
  seed :: u32
  csr :: csr_result
  multipleSamples :: bool
  sz :: u64

definition csr_empty :: csr_result where
  "csr_empty = \<lparr>indices = [], indptr = [], vals = []\<rparr>"

section \<open>Operations\<close>

definition fh_reset :: "feature_hasher \<Rightarrow> feature_hasher" where
  "fh_reset s = s\<lparr>alternateSign := True, fh_output := None, fh_size := 0, seed := 0, csr := csr_empty,
     multipleSamples := False\<rparr>"

text \<open>The constructor calls \<open>reset\<close>; \<open>junk\<close> is what \<open>sz\<close> holds before the first \<open>start\<close>.\<close>

definition fh_new :: "u64 \<Rightarrow> feature_hasher" where
  "fh_new junk = fh_reset \<lparr>alternateSign = False, fh_output = None, fh_size = 0, buf = [], seed = 0,
     csr = csr_empty, multipleSamples = False, sz = junk\<rparr>"

definition setOutput :: "nat option \<Rightarrow> feature_hasher \<Rightarrow> feature_hasher" where
  "setOutput p s = s\<lparr>fh_output := p\<rparr>"

definition setSize :: "size_t \<Rightarrow> feature_hasher \<Rightarrow> feature_hasher" where
  "setSize n s = s\<lparr>fh_size := n\<rparr>"

definition setAlternateSign :: "bool \<Rightarrow> feature_hasher \<Rightarrow> feature_hasher" where
  "setAlternateSign b s = s\<lparr>alternateSign := b\<rparr>"

definition setSeed :: "u32 \<Rightarrow> feature_hasher \<Rightarrow> feature_hasher" where
  "setSeed n s = s\<lparr>seed := n\<rparr>"

definition setMultipleSamples :: "bool \<Rightarrow> feature_hasher \<Rightarrow> feature_hasher" where
  "setMultipleSamples b s = s\<lparr>multipleSamples := b\<rparr>"

text \<open>\<open>memset(output, 0, size * sizeof(float))\<close>, the product in \<open>size_t\<close>.\<close>

definition fh_start :: "feature_hasher \<Rightarrow> fl list \<Rightarrow> (feature_hasher \<times> fl list) res" where
  "fh_start s mem = (case fh_output s of
     None \<Rightarrow> Inl Exit
   | Some p \<Rightarrow>
       if fh_size s = 0 then Inl Exit
       else bnd (store_list mem p (replicate (unat (fh_size s * 4) div 4) fl_zero)) (\<lambda>mem'.
         Inr (s\<lparr>sz := 0, csr := (csr s)\<lparr>vals := resize 1 fl_zero (vals (csr s)),
                indptr := indptr (csr s) @ [0]\<rparr>\<rparr>, mem')))"

text \<open>The bucket of a hash: the remainder of its absolute value, \<open>INT32_MIN\<close> treated apart.\<close>

definition bucket_of :: "size_t \<Rightarrow> u32 \<Rightarrow> u32" where
  "bucket_of n h =
     (if sint h = - (2 ^ 31) then ucast ((2147483647 - (n - 1)) mod n)
      else ucast ((of_int \<bar>sint h\<bar> :: size_t) mod n))"

definition signed_value :: "bool \<Rightarrow> u32 \<Rightarrow> feature_t \<Rightarrow> feature_t" where
  "signed_value alt h v =
     (if alt then fl_to f32 (fl_mul f64 (fl_to f64 v) (if 0 \<le> sint h then fl_one else fl_neg fl_one))
      else v)"

definition fh_reduce :: "bytes \<Rightarrow> feature_t \<Rightarrow> feature_hasher \<Rightarrow> feature_hasher res" where
  "fh_reduce p1 v s =
     (if fl_eq v fl_zero then Inr s
      else let len = of_nat (length (c_str p1)) :: size_t in
        bnd (MurmurHash3_x86_32 (c_str p1 @ [0]) (ucast len) (seed s)) (\<lambda>h.
          let c = csr s;
              idx = indices c @ [bucket_of (fh_size s) h];
              v = signed_value (alternateSign s) h v;
              vs = (if sz s = of_nat (length (vals c))
                    then resize (2 * length (vals c)) fl_zero (vals c) else vals c)
          in bnd (store vs (unat (sz s)) (fl_to f64 v)) (\<lambda>vs'.
               Inr (s\<lparr>csr := c\<lparr>indices := idx, vals := vs'\<rparr>, sz := sz s + 1\<rparr>))))"

definition fh_reduce1 :: "bytes \<Rightarrow> feature_hasher \<Rightarrow> feature_hasher res" where
  "fh_reduce1 stringValue s = fh_reduce stringValue fl_one s"

definition fh_finalizeSample :: "feature_hasher \<Rightarrow> feature_hasher" where
  "fh_finalizeSample s = s\<lparr>csr := (csr s)\<lparr>indptr := indptr (csr s) @ [sz s]\<rparr>\<rparr>"

text \<open>\<open>rowmap[k] += v\<close>: a new entry starts from zero.\<close>

fun row_add :: "u32 \<Rightarrow> fl \<Rightarrow> (u32 \<times> fl) list \<Rightarrow> (u32 \<times> fl) list" where
  "row_add k v [] = [(k, fl_add f64 fl_zero v)]"
| "row_add k v ((k', w) # m) = (if k = k' then (k', fl_add f64 w v) # m else (k', w) # row_add k v m)"

definition row_range :: "u64 list \<Rightarrow> int \<Rightarrow> int list res" where
  "row_range ptr r = bnd (load_at ptr r) (\<lambda>a. bnd (load_at ptr (r + 1)) (\<lambda>b. Inr [sint a..sint b - 1]))"

definition sum_row :: "csr_matrix \<Rightarrow> int \<Rightarrow> (u32 \<times> fl) list res" where
  "sum_row X r = bnd (row_range (x_indptr X) r) (\<lambda>is.
     map_res (sort_key (sint \<circ> fst))
       (for_each is (\<lambda>i m. bnd (load_at (x_indices X) i) (\<lambda>k. bnd (load_at (x_data X) i) (\<lambda>v.
          Inr (row_add k v m)))) []))"

definition sum_duplicates_and_sort_csr :: "csr_matrix \<Rightarrow> csr_matrix res" where
  "sum_duplicates_and_sort_csr X =
     map_res (\<lambda>(ptr, idx, dat). X\<lparr>x_indptr := ptr, x_indices := idx, x_data := dat\<rparr>)
       (for_each [0..sint (n_rows X) - 1] (\<lambda>r (ptr, idx, dat).
          bnd (sum_row X r) (\<lambda>row.
            let idx' = idx @ map fst row; dat' = dat @ map snd row
            in Inr (ptr @ [of_nat (length idx')], idx', dat')))
          ([0], [], []))"

definition csr_to_dense :: "csr_matrix \<Rightarrow> fl list res" where
  "csr_to_dense X =
     for_each [0..sint (n_rows X) - 1] (\<lambda>r out.
       bnd (row_range (x_indptr X) r) (\<lambda>ks. for_each ks (\<lambda>k out.
         bnd (load_at (x_indices X) k) (\<lambda>c. bnd (load_at (x_data X) k) (\<lambda>v.
           store out (unat (of_int r * n_cols X + scast c)) v))) out))
       (replicate (unat (n_rows X * n_cols X)) fl_zero)"

text \<open>
  \<open>finalize\<close>: the three vectors are moved out of the object, which leaves them empty. With no
  sample at all it only logs.
\<close>

definition fh_finalize :: "feature_hasher \<Rightarrow> fl list \<Rightarrow> (feature_hasher \<times> fl list) res" where
  "fh_finalize s mem =
     (let s = (if multipleSamples s then s else fh_finalizeSample s);
          c = (csr s)\<lparr>vals := resize (unat (sz s)) fl_zero (vals (csr s))\<rparr>;
          n_samples = (word_of_int (int (length (indptr c))) :: u32) - 1
      in if sint n_samples \<le> 0 then Inr (s\<lparr>csr := c, buf := []\<rparr>, mem)
         else let X = \<lparr>n_rows = scast n_samples, n_cols = fh_size s, x_indptr = indptr c,
                       x_indices = indices c, x_data = vals c\<rparr>
              in bnd (sum_duplicates_and_sort_csr X) (\<lambda>X. bnd (csr_to_dense X) (\<lambda>arr.
                   case fh_output s of None \<Rightarrow> Inl Undefined
                   | Some p \<Rightarrow> bnd (store_list mem p (map (fl_to f32) arr)) (\<lambda>mem'.
                       Inr (s\<lparr>csr := csr_empty, buf := []\<rparr>, mem')))))"

section \<open>Loops over slices\<close>

lemma for_each_cong: "(\<And>x s. x \<in> set xs \<Longrightarrow> f x s = g x s) \<Longrightarrow> for_each xs f s = for_each xs g s"
  by (induction xs arbitrary: s) (auto cong: bnd_cong)

lemma upto_nat: "[int a..int b - 1] = map int [a..<b]"
  by (rule nth_equalityI) auto

lemma load_at_nat [simp]: "load_at xs (int i) = load xs i"
  by (simp add: load_at_def)

lemma for_each_load2:
  assumes "b \<le> length L" "f = (\<lambda>i m. bnd (load_at (map g L) i) (\<lambda>k. bnd (load_at (map h L) i) (\<lambda>v. F k v m)))"
  shows "for_each (map int [a..<b]) f m =
    for_each (take (b - a) (drop a L)) (\<lambda>x. F (g x) (h x)) m"
proof -
  have "take (b - a) (drop a L) = map ((!) L) [a..<b]"
    using assms(1) by (intro nth_equalityI) auto
  moreover have "for_each is (f \<circ> int) m = for_each is ((\<lambda>x. F (g x) (h x)) \<circ> (!) L) m"
    if "\<forall>i \<in> set is. i < length L" for "is"
    using that by (induction "is" arbitrary: m) (simp_all add: assms(2) load_def cong: bnd_cong)
  ultimately show ?thesis using assms(1) by (simp add: for_each_map)
qed

lemma slice_concat:
  "r < length D \<Longrightarrow>
   take (length (concat (take (Suc r) D)) - length (concat (take r D))) (drop (length (concat (take r D))) (concat D)) = D ! r"
proof -
  assume r: "r < length D"
  have "concat D = concat (take r D) @ D ! r @ concat (drop (Suc r) D)"
    using r by (metis concat.simps(2) concat_append id_take_nth_drop)
  then show ?thesis using r by (simp add: take_Suc_conv_app_nth)
qed

lemma length_concat_take: "length (concat (take r D)) \<le> length (concat D)"
  by (metis append_take_drop_id concat_append le_add1 length_append)

text \<open>The row pointers of a list of rows.\<close>

definition row_ptrs :: "'a list list \<Rightarrow> u64 list" where
  "row_ptrs D = map (\<lambda>r. of_nat (length (concat (take r D)))) [0..<Suc (length D)]"

lemma row_ptrs_snoc: "row_ptrs (D @ [d]) = row_ptrs D @ [of_nat (length (concat D) + length d)]"
  unfolding row_ptrs_def by (rule nth_equalityI) (auto simp: nth_append less_Suc_eq)

lemma row_ptrs_Nil [simp]: "row_ptrs [] = [0]"
  by (simp add: row_ptrs_def)

lemma length_row_ptrs [simp]: "length (row_ptrs D) = Suc (length D)"
  by (simp add: row_ptrs_def)

lemma row_range_ptrs:
  assumes "r < length D" "length (concat D) < 2 ^ 63"
  shows "row_range (row_ptrs D) (int r) =
    Inr (map int [length (concat (take r D))..<length (concat (take (Suc r) D))])"
proof -
  have s: "sint (of_nat (length (concat (take i D))) :: u64) = int (length (concat (take i D)))" for i
    using assms(2) length_concat_take [of i D]
    by (simp add: signed_of_nat signed_take_bit_int_eq_self)
  have "int r + 1 = int (Suc r)" by simp
  moreover have "row_ptrs D ! i = of_nat (length (concat (take i D)))" if "i < Suc (length D)" for i
    unfolding row_ptrs_def using that by (simp del: upt_Suc)
  ultimately show ?thesis
    using assms(1) by (simp only: row_range_def load_at_nat load_def) (simp add: s upto_nat del: take_Suc)
qed

section \<open>Summing a row\<close>

text \<open>The sum of the values of a key, in order, from zero: what the sparse and the dense row hold.\<close>

definition key_sum :: "(u32 \<times> fl) list \<Rightarrow> u32 \<Rightarrow> fl" where
  "key_sum kvs k = foldl (fl_add f64) fl_zero (map snd (filter (\<lambda>kv. fst kv = k) kvs))"

lemma map_of_row_add:
  "map_of (row_add k v m) j =
   (if j = k then Some (fl_add f64 (case map_of m k of None \<Rightarrow> fl_zero | Some w \<Rightarrow> w) v) else map_of m j)"
  by (induction k v m rule: row_add.induct) auto

lemma fst_row_add: "fst ` set (row_add k v m) = insert k (fst ` set m)"
  by (induction k v m rule: row_add.induct) auto

lemma distinct_row_add: "distinct (map fst m) \<Longrightarrow> distinct (map fst (row_add k v m))"
proof (induction k v m rule: row_add.induct)
  case (2 k v k' w m)
  then show ?case using fst_row_add [of k v m] by auto
qed simp

definition row_of :: "(u32 \<times> fl) list \<Rightarrow> (u32 \<times> fl) list" where
  "row_of kvs = foldl (\<lambda>m (k, v). row_add k v m) [] kvs"

lemma row_of_snoc: "row_of (kvs @ [(k, v)]) = row_add k v (row_of kvs)"
  by (simp add: row_of_def)

lemma row_of_props:
  "distinct (map fst (row_of kvs)) \<and> fst ` set (row_of kvs) = fst ` set kvs \<and>
   map_of (row_of kvs) = (\<lambda>k. if k \<in> fst ` set kvs then Some (key_sum kvs k) else None)"
proof (induction kvs rule: rev_induct)
  case Nil
  show ?case by (simp add: row_of_def)
next
  case (snoc kv kvs)
  obtain k v where kv: "kv = (k, v)" by (cases kv)
  have "key_sum kvs k = fl_zero" if "k \<notin> fst ` set kvs"
  proof -
    have "filter (\<lambda>kv. fst kv = k) kvs = []" using that by (auto simp: filter_empty_conv)
    then show ?thesis by (simp add: key_sum_def)
  qed
  then show ?case using snoc
    by (auto simp: kv row_of_snoc distinct_row_add fst_row_add map_of_row_add key_sum_def fun_eq_iff)
qed

text \<open>Sorting by column does not depend on the order in which the hash map yields its entries.\<close>

lemma sort_row_perm:
  assumes "mset m = mset m'" "distinct (map fst m)"
  shows "sort_key (sint \<circ> fst) m = sort_key (sint \<circ> fst) (m' :: (u32 \<times> fl) list)"
proof (rule sort_key_inj_key_eq)
  show "mset m = mset (sort_key (sint \<circ> fst) m')" using assms(1) by simp
  show "inj_on (sint \<circ> fst) (set m)"
    using assms(2) by (auto simp: inj_on_def distinct_map dest!: signed_word_eqI)
qed simp

section \<open>The collected pairs\<close>

definition item_kv :: "size_t \<Rightarrow> u32 \<Rightarrow> bool \<Rightarrow> bytes \<times> feature_t \<Rightarrow> u32 \<times> fl" where
  "item_kv n sd alt it = (case it of (p, v) \<Rightarrow>
     let h = hash_value (c_str p) sd in (bucket_of n h, fl_to f64 (signed_value alt h v)))"

text \<open>Pairs whose value is zero are dropped.\<close>

definition hashed :: "size_t \<Rightarrow> u32 \<Rightarrow> bool \<Rightarrow> (bytes \<times> feature_t) list \<Rightarrow> (u32 \<times> fl) list" where
  "hashed n sd alt items = map (item_kv n sd alt) (filter (\<lambda>it. \<not> fl_eq (snd it) fl_zero) items)"

lemma hashed_append: "hashed n sd alt (xs @ ys) = hashed n sd alt xs @ hashed n sd alt ys"
  by (simp add: hashed_def)

lemma hashed_Nil [simp]: "hashed n sd alt [] = []"
  by (simp add: hashed_def)

definition fh_conf :: "feature_hasher \<Rightarrow> bool \<times> nat option \<times> size_t \<times> u32 \<times> bool" where
  "fh_conf s = (alternateSign s, fh_output s, fh_size s, seed s, multipleSamples s)"

text \<open>
  \<open>D\<close> are the rows of the finished samples, \<open>cur\<close> the pairs of the current one; the value
  vector is the collected values and its unused capacity.
\<close>

definition fh_holds :: "(u32 \<times> fl) list list \<Rightarrow> (u32 \<times> fl) list \<Rightarrow> feature_hasher \<Rightarrow> bool" where
  "fh_holds D cur s \<longleftrightarrow>
     (let L = concat D @ cur in
        indices (csr s) = map fst L \<and> indptr (csr s) = row_ptrs D \<and>
        take (length L) (vals (csr s)) = map snd L \<and> length L \<le> length (vals (csr s)) \<and>
        0 < length (vals (csr s)) \<and> length (vals (csr s)) \<le> 2 * length L + 1 \<and>
        sz s = of_nat (length L))"

lemma ucast_length: "n < 2 ^ 31 \<Longrightarrow> (ucast (of_nat n :: size_t) :: u32) = of_nat n"
  by (simp add: word_eq_iff_unsigned unsigned_ucast_eq unsigned_of_nat take_bit_nat_eq_self)

lemma store_push:
  assumes "take n vs = xs" "n < length vs"
  shows "\<exists>vs'. store vs n v = Inr vs' \<and> take (Suc n) vs' = xs @ [v] \<and> length vs' = length vs"
  using assms by (auto simp: store_def take_Suc_conv_app_nth)

lemma grow_values:
  fixes z :: 'a
  assumes "take n vs = xs" "n \<le> length vs" "0 < length vs" "length vs \<le> 2 * n + 1"
  defines "ws \<equiv> if n = length vs then resize (2 * length vs) z vs else vs"
  shows "take n ws = xs \<and> n < length ws \<and> length ws \<le> 2 * n + 2"
  using assms by (cases "n = length vs") (simp_all add: resize_def)

lemma fh_reduce_holds:
  assumes h: "fh_holds D cur s" and p: "length (c_str p) < 2 ^ 31" and l: "length (concat D @ cur) < 2 ^ 62"
  shows "\<exists>s'. fh_reduce p v s = Inr s' \<and>
              fh_holds D (cur @ hashed (fh_size s) (seed s) (alternateSign s) [(p, v)]) s' \<and>
              fh_conf s' = fh_conf s"
proof (cases "fl_eq v fl_zero")
  case True
  then show ?thesis using h by (simp add: fh_reduce_def hashed_def)
next
  case False
  let ?h = "hash_value (c_str p) (seed s)" and ?c = "csr s" and ?n = "length (concat D @ cur)"
  define k where "k = bucket_of (fh_size s) ?h"
  define w where "w = fl_to f64 (signed_value (alternateSign s) ?h v)"
  have hash: "MurmurHash3_x86_32 (c_str p @ [0]) (ucast (of_nat (length (c_str p)) :: size_t)) (seed s) = Inr ?h"
    using MurmurHash3_x86_32_value [OF p, of "[0]"] ucast_length [OF p] by simp
  have hh: "indices ?c = map fst (concat D @ cur)" "indptr ?c = row_ptrs D"
    "take ?n (vals ?c) = map snd (concat D @ cur)" "?n \<le> length (vals ?c)" "0 < length (vals ?c)"
    "length (vals ?c) \<le> 2 * ?n + 1" "sz s = of_nat ?n"
    using h by (simp_all add: fh_holds_def Let_def)
  define vs where "vs = (if sz s = of_nat (length (vals ?c)) then resize (2 * length (vals ?c)) fl_zero (vals ?c)
                         else vals ?c)"
  have un: "unat (sz s) = ?n" unfolding hh(7) using l by (intro unat_of_nat_small) simp
  have full: "sz s = of_nat (length (vals ?c)) \<longleftrightarrow> ?n = length (vals ?c)"
    using word_eq_of_nat_iff [of "length (vals ?c)" "sz s"] l hh(6) un by simp
  have vs: "take ?n vs = map snd (concat D @ cur)" "?n < length vs" "length vs \<le> 2 * ?n + 2"
    using grow_values [OF hh(3-6)] unfolding vs_def full by auto
  obtain vs' where vs': "store vs ?n w = Inr vs'" "take (Suc ?n) vs' = map snd (concat D @ cur) @ [w]"
    "length vs' = length vs"
    using store_push [OF vs(1,2)] by blast
  let ?s = "s\<lparr>csr := ?c\<lparr>indices := indices ?c @ [k], vals := vs'\<rparr>, sz := sz s + 1\<rparr>"
  have red: "fh_reduce p v s = Inr ?s"
    using False by (simp add: fh_reduce_def hash Let_def un vs'(1) [unfolded length_append] flip: vs_def w_def k_def)
  have "hashed (fh_size s) (seed s) (alternateSign s) [(p, v)] = [(k, w)]"
    using False by (simp add: hashed_def item_kv_def Let_def k_def w_def)
  moreover have "vs \<noteq> []" using vs(2) by auto
  ultimately have "fh_holds D (cur @ hashed (fh_size s) (seed s) (alternateSign s) [(p, v)]) ?s"
    using hh vs vs' by (simp add: fh_holds_def Let_def)
  then show ?thesis using red by (auto simp: fh_conf_def)
qed

lemma fh_conf_eq: "fh_conf s' = fh_conf s \<Longrightarrow>
  fh_size s' = fh_size s \<and> seed s' = seed s \<and> alternateSign s' = alternateSign s \<and>
  fh_output s' = fh_output s \<and> multipleSamples s' = multipleSamples s"
  by (simp add: fh_conf_def)

definition reduce_all :: "(bytes \<times> feature_t) list \<Rightarrow> feature_hasher \<Rightarrow> feature_hasher res" where
  "reduce_all items = for_each items (\<lambda>(p, v). fh_reduce p v)"

lemma reduce_all_holds:
  assumes "fh_holds D cur s" "\<forall>it \<in> set items. length (c_str (fst it)) < 2 ^ 31"
    "length (concat D @ cur) + length items < 2 ^ 62"
  shows "\<exists>s'. reduce_all items s = Inr s' \<and>
              fh_holds D (cur @ hashed (fh_size s) (seed s) (alternateSign s) items) s' \<and> fh_conf s' = fh_conf s"
  using assms
proof (induction items arbitrary: cur s)
  case (Cons it items)
  obtain p v where it: "it = (p, v)" by (cases it)
  let ?one = "hashed (fh_size s) (seed s) (alternateSign s) [(p, v)]"
  obtain s1 where s1: "fh_reduce p v s = Inr s1" "fh_holds D (cur @ ?one) s1" "fh_conf s1 = fh_conf s"
    using fh_reduce_holds [OF Cons.prems(1), of p v] Cons.prems(2,3) by (auto simp: it)
  have "length ?one \<le> 1" using length_filter_le [of _ "[(p, v)]"] by (simp add: hashed_def)
  then obtain s2 where "reduce_all items s1 = Inr s2" "fh_conf s2 = fh_conf s1"
    "fh_holds D ((cur @ ?one) @ hashed (fh_size s1) (seed s1) (alternateSign s1) items) s2"
    using Cons.IH [OF s1(2)] Cons.prems(2,3) by auto
  then show ?case using s1 fh_conf_eq [OF s1(3)] hashed_append [of _ _ _ "[(p, v)]" items]
    by (simp add: it reduce_all_def)
qed (simp add: reduce_all_def)

section \<open>From the pairs to the dense rows\<close>

definition sorted_row :: "(u32 \<times> fl) list \<Rightarrow> (u32 \<times> fl) list" where
  "sorted_row kvs = sort_key (sint \<circ> fst) (row_of kvs)"

definition csr_holds :: "csr_matrix \<Rightarrow> (u32 \<times> fl) list list \<Rightarrow> bool" where
  "csr_holds X D \<longleftrightarrow> x_indptr X = row_ptrs D \<and> x_indices X = map fst (concat D) \<and>
     x_data X = map snd (concat D) \<and> sint (n_rows X) = int (length D) \<and> length (concat D) < 2 ^ 63"

lemma csr_slice:
  assumes "csr_holds X D" "r < length D"
  shows "bnd (row_range (x_indptr X) (int r)) (\<lambda>is. for_each is (\<lambda>i m.
       bnd (load_at (x_indices X) i) (\<lambda>k. bnd (load_at (x_data X) i) (\<lambda>v. F k v m))) m)
     = for_each (D ! r) (\<lambda>kv. F (fst kv) (snd kv)) m"
proof -
  let ?a = "length (concat (take r D))" and ?b = "length (concat (take (Suc r) D))"
  have X: "x_indptr X = row_ptrs D" "x_indices X = map fst (concat D)" "x_data X = map snd (concat D)"
    "length (concat D) < 2 ^ 63"
    using assms(1) by (simp_all add: csr_holds_def)
  have "for_each (map int [?a..<?b]) (\<lambda>i m. bnd (load_at (x_indices X) i) (\<lambda>k.
        bnd (load_at (x_data X) i) (\<lambda>v. F k v m))) m =
      for_each (take (?b - ?a) (drop ?a (concat D))) (\<lambda>kv. F (fst kv) (snd kv)) m"
    unfolding X(2,3) by (rule for_each_load2 [OF length_concat_take refl])
  then show ?thesis
    unfolding X(1) row_range_ptrs [OF assms(2) X(4)] slice_concat [OF assms(2)] by simp
qed

lemma sum_row_sorted:
  assumes "csr_holds X D" "r < length D"
  shows "sum_row X (int r) = Inr (sorted_row (D ! r))"
proof -
  have "for_each (D ! r) (\<lambda>kv m. Inr (row_add (fst kv) (snd kv) m)) [] = Inr (row_of (D ! r))"
    by (simp add: for_each_pure [of _ _ "\<lambda>m kv. row_add (fst kv) (snd kv) m"] row_of_def case_prod_unfold)
  then show ?thesis
    using csr_slice [OF assms, of "\<lambda>k v m. Inr (row_add k v m)" "[]"]
    by (simp add: sum_row_def sorted_row_def map_res_def bnd_assoc [symmetric])
qed

lemma sum_duplicates_rows:
  assumes "csr_holds X D"
  shows "sum_duplicates_and_sort_csr X = Inr (X\<lparr>x_indptr := row_ptrs (map sorted_row D),
     x_indices := map fst (concat (map sorted_row D)), x_data := map snd (concat (map sorted_row D))\<rparr>)"
proof -
  let ?R = "map sorted_row D"
  define f where "f = (\<lambda>r (ptr, idx, dat). bnd (sum_row X r) (\<lambda>row.
      let idx' = idx @ map fst row; dat' = dat @ map snd row
      in Inr (ptr @ [of_nat (length idx') :: u64], idx', dat')))"
  have "for_each (map int [0..<m]) f ([0], [], []) = Inr (row_ptrs (take m ?R),
      map fst (concat (take m ?R)), map snd (concat (take m ?R)))" if "m \<le> length D" for m
    using that
  proof (induction m)
    case (Suc m)
    then show ?case using sum_row_sorted [OF assms, of m]
      by (simp add: for_each_append f_def Let_def take_Suc_conv_app_nth row_ptrs_snoc)
  qed simp
  from this [of "length D"] show ?thesis
    using assms upto_nat [of 0 "length D"]
    by (simp add: sum_duplicates_and_sort_csr_def csr_holds_def f_def)
qed

lemma length_sorted_row [simp]: "length (sorted_row kvs) \<le> length kvs"
proof -
  have add: "length (row_add k v m) \<le> Suc (length m)" for k v m
    by (induction k v m rule: row_add.induct) auto
  have "length (row_of kvs) \<le> length kvs"
  proof (induction kvs rule: rev_induct)
    case (snoc kv kvs)
    then show ?case using add [of "fst kv" "snd kv" "row_of kvs"]
      by (cases kv) (auto simp: row_of_snoc intro: order_trans)
  qed (simp add: row_of_def)
  then show ?thesis by (simp add: sorted_row_def)
qed

definition dense_row :: "nat \<Rightarrow> (u32 \<times> fl) list \<Rightarrow> fl list" where
  "dense_row n kvs = map (\<lambda>j. key_sum kvs (of_nat j)) [0..<n]"

lemma length_dense_row [simp]: "length (dense_row n kvs) = n"
  by (simp add: dense_row_def)

lemma foldl_updates:
  fixes m :: "(u32 \<times> fl) list"
  assumes "distinct (map fst m)" "\<forall>k \<in> fst ` set m. unat k < length row" "length row < 2 ^ 32" "j < length row"
  shows "foldl (\<lambda>row kv. row[unat (fst kv) := snd kv]) row m ! j =
    (case map_of m (of_nat j) of None \<Rightarrow> row ! j | Some v \<Rightarrow> v)"
  using assms
proof (induction m arbitrary: row)
  case (Cons kv m)
  have "unat (fst kv) = j \<longleftrightarrow> of_nat j = fst kv"
    using word_eq_of_nat_iff [of j "fst kv"] Cons.prems(3,4) by auto
  moreover have "map_of m (fst kv) = None" using Cons.prems(1) by (auto simp: map_of_eq_None_iff)
  ultimately show ?case using Cons by (auto simp: nth_list_update split: option.splits)
qed simp

lemma sorted_row_props:
  "distinct (map fst (sorted_row kvs))" "fst ` set (sorted_row kvs) = fst ` set kvs"
  "map_of (sorted_row kvs) = (\<lambda>k. if k \<in> fst ` set kvs then Some (key_sum kvs k) else None)"
proof -
  have p: "mset (sorted_row kvs) = mset (row_of kvs)" by (simp add: sorted_row_def)
  show d: "distinct (map fst (sorted_row kvs))"
    using row_of_props [of kvs] arg_cong [OF p, of "image_mset fst"] mset_eq_imp_distinct_iff
    by (metis mset_map)
  show "fst ` set (sorted_row kvs) = fst ` set kvs"
    using row_of_props [of kvs] mset_eq_setD [OF p] by simp
  have "map_of (sorted_row kvs) = map_of (row_of kvs)"
    using d row_of_props [of kvs] mset_eq_setD [OF p] map_of_inject_set by blast
  then show "map_of (sorted_row kvs) = (\<lambda>k. if k \<in> fst ` set kvs then Some (key_sum kvs k) else None)"
    using row_of_props [of kvs] by simp
qed

lemma foldl_dense:
  assumes "\<forall>k \<in> fst ` set kvs. unat k < n" "n \<le> 2 ^ 31"
  shows "foldl (\<lambda>row kv. row[unat (fst kv) := snd kv]) (replicate n fl_zero) (sorted_row kvs) = dense_row n kvs"
proof (rule nth_equalityI)
  have len: "length (foldl (\<lambda>row kv. row[unat (fst kv) := snd kv]) row m) = length row" for row and m :: "(u32 \<times> fl) list"
    by (induction m arbitrary: row) auto
  then show "length (foldl (\<lambda>row kv. row[unat (fst kv) := snd kv]) (replicate n fl_zero) (sorted_row kvs)) =
      length (dense_row n kvs)" by simp
  fix j assume "j < length (foldl (\<lambda>row kv. row[unat (fst kv) := snd kv]) (replicate n fl_zero) (sorted_row kvs))"
  then have j: "j < n" by (simp add: len)
  have "key_sum kvs k = fl_zero" if "k \<notin> fst ` set kvs" for k
  proof -
    have "filter (\<lambda>kv. fst kv = k) kvs = []" using that by (auto simp: filter_empty_conv)
    then show ?thesis by (simp add: key_sum_def)
  qed
  then show "foldl (\<lambda>row kv. row[unat (fst kv) := snd kv]) (replicate n fl_zero) (sorted_row kvs) ! j =
      dense_row n kvs ! j"
    using foldl_updates [of "sorted_row kvs" "replicate n fl_zero" j] assms j
    by (auto simp: sorted_row_props dense_row_def)
qed

lemma store_row:
  assumes "length A = r * n" "length row = n" "i < n"
  shows "store (A @ row @ B) (r * n + i) v = Inr (A @ row[i := v] @ B)"
  using assms by (simp add: store_def list_update_append)

lemma store_rows:
  assumes "length A = r * n" "length row = n" "\<forall>k \<in> fst ` set kvs. unat (k :: u32) < n"
  shows "for_each kvs (\<lambda>kv out. store out (r * n + unat (fst kv)) (snd kv)) (A @ row @ B) =
    Inr (A @ foldl (\<lambda>row kv. row[unat (fst kv) := snd kv]) row kvs @ B)"
  using assms(2,3)
  by (induction kvs arbitrary: row) (simp_all add: store_row [OF assms(1)])

lemma dense_index:
  assumes "r * unat n + unat c < 2 ^ 63" "unat c < 2 ^ 31"
  shows "unat (of_int (int r) * (n :: u64) + scast (c :: u32)) = r * unat n + unat c"
proof -
  have u: "uint c = int (unat c)" by (rule uint_nat)
  have "int (unat c) < int (2 ^ 31)" using assms(2) by (simp only: of_nat_less_iff)
  moreover have "- (2 ^ 31) \<le> int (unat c)" by (rule order_trans [of _ 0]) simp_all
  ultimately have sc: "sint c = int (unat c)"
    unfolding sint_uint u by (intro signed_take_bit_int_eq_self) simp_all
  have "(scast c :: u64) = of_nat (unat c)" unfolding scast_eq sc by simp
  then have "of_int (int r) * n + scast c = of_nat (r * unat n + unat c)" by simp
  then show ?thesis using assms(1) by (simp only:) (intro unat_of_nat_small, simp)
qed

lemma csr_to_dense_rows:
  assumes X: "csr_holds X R" and n: "unat (n_cols X) = n" "n \<le> 2 ^ 31" "length R * n < 2 ^ 63"
    and D: "R = map sorted_row D" and k: "\<forall>kvs \<in> set D. \<forall>k \<in> fst ` set kvs. unat k < n"
  shows "csr_to_dense X = Inr (concat (map (dense_row n) D))"
proof -
  let ?f = "\<lambda>r out. bnd (row_range (x_indptr X) r) (\<lambda>ks. for_each ks (\<lambda>k out.
         bnd (load_at (x_indices X) k) (\<lambda>c. bnd (load_at (x_data X) k) (\<lambda>v.
           store out (unat (of_int r * n_cols X + scast c)) v))) out)"
  have step: "?f (int r) (A @ replicate n fl_zero @ B) = Inr (A @ dense_row n (D ! r) @ B)"
    if r: "r < length D" and A: "length A = r * n" for r and A B :: "fl list"
  proof -
    let ?kvs = "sorted_row (D ! r)"
    have keys: "\<forall>k \<in> fst ` set ?kvs. unat k < n" using k nth_mem [OF r] by (auto simp: sorted_row_props)
    have "store out (unat (of_int (int r) * n_cols X + scast (fst kv))) (snd kv) =
          store out (r * n + unat (fst kv)) (snd kv)" if "kv \<in> set ?kvs" for kv :: "u32 \<times> fl" and out
    proof -
      have c: "unat (fst kv) < n" using keys that by auto
      have "Suc r * n \<le> length R * n" using r D by (intro mult_le_mono1) simp
      then have "r * n + unat (fst kv) < 2 ^ 63" using c n(3) by simp
      then show ?thesis using dense_index [of r "n_cols X" "fst kv"] c n by simp
    qed
    then have "for_each ?kvs (\<lambda>kv out. store out (unat (of_int (int r) * n_cols X + scast (fst kv))) (snd kv)) out =
        for_each ?kvs (\<lambda>kv out. store out (r * n + unat (fst kv)) (snd kv)) out" for out
      by (intro for_each_cong) auto
    moreover have "foldl (\<lambda>row kv. row[unat (fst kv) := snd kv]) (replicate n fl_zero) ?kvs = dense_row n (D ! r)"
      using k nth_mem [OF r] n(2) by (intro foldl_dense) auto
    ultimately show ?thesis
      using csr_slice [OF X, of r "\<lambda>c v out. store out (unat (of_int (int r) * n_cols X + scast c)) v"] r D
        store_rows [OF A, of "replicate n fl_zero" ?kvs B] keys
      by simp
  qed
  have "for_each (map int [0..<m]) ?f (replicate (length D * n) fl_zero) =
      Inr (concat (map (dense_row n) (take m D)) @ replicate ((length D - m) * n) fl_zero)"
    if "m \<le> length D" for m
    using that
  proof (induction m)
    case (Suc m)
    have "replicate ((length D - m) * n) fl_zero = replicate n fl_zero @ replicate ((length D - Suc m) * n) fl_zero"
      using Suc.prems by (simp add: replicate_add [symmetric] Suc_diff_le [symmetric] flip: mult_Suc)
    then show ?case
      using Suc step [of m "concat (map (dense_row n) (take m D))" "replicate ((length D - Suc m) * n) fl_zero"]
      by (simp add: for_each_append length_concat o_def take_Suc_conv_app_nth sum_list_triv)
  qed simp
  moreover have "unat (n_rows X * n_cols X) = length D * n"
  proof -
    have sn: "sint (n_rows X) = int (length D)" using X D by (simp add: csr_holds_def)
    have "n_rows X = of_int (sint (n_rows X))" by simp
    then have "n_rows X = of_nat (length D)" unfolding sn of_int_of_nat_eq .
    moreover have "n_cols X = of_nat n" unfolding n(1) [symmetric] by simp
    ultimately have "n_rows X * n_cols X = of_nat (length D * n)" by simp
    then show ?thesis using n(3) D by (simp only:) (intro unat_of_nat_small, simp)
  qed
  ultimately have "for_each (map int [0..<length D]) ?f (replicate (unat (n_rows X * n_cols X)) fl_zero) =
      Inr (concat (map (dense_row n) D))" by simp
  then show ?thesis using X D upto_nat [of 0 "length D"] by (simp add: csr_to_dense_def csr_holds_def)
qed

section \<open>Buckets and signs\<close>

lemma unat_bucket_of:
  assumes "0 < n" "unat n \<le> 2 ^ 31"
  shows "unat (bucket_of n h) = nat \<bar>sint h\<bar> mod unat n"
proof -
  have n: "0 < unat n" using assms(1) by (simp add: unat_gt_0 word_gt_0)
  have small: "unat (ucast (w mod n) :: u32) = unat w mod unat n" for w
  proof -
    have "unat w mod unat n < unat n" using n by simp
    then have "unat w mod unat n < 2 ^ 32" using assms(2) by simp
    then show ?thesis by (simp add: unsigned_ucast_eq unat_mod take_bit_nat_eq_self)
  qed
  show ?thesis
  proof (cases "sint h = - (2 ^ 31)")
    case True
    have pred: "unat (n - 1) = unat n - 1" using assms(1) by (simp add: unat_minus_one word_gt_0)
    then have "n - 1 \<le> 2147483647" using assms(2) by (simp add: word_le_nat_alt)
    then have "unat (2147483647 - (n - 1)) = unat (2147483647 :: size_t) - unat (n - 1)" by (rule unat_sub)
    also have "\<dots> = 2147483648 - unat n" unfolding pred using n by simp
    finally have "unat (2147483647 - (n - 1)) = 2147483648 - unat n" .
    moreover have "(2147483648 - unat n) mod unat n = 2147483648 mod unat n"
      by (rule le_mod_geq [symmetric]) (use assms(2) in simp)
    ultimately show ?thesis using True by (simp add: bucket_of_def small)
  next
    case False
    have "- (2 ^ 31) \<le> sint h" "sint h < 2 ^ 31" using sint_ge [of h] sint_lt [of h] by simp_all
    then have "\<bar>sint h\<bar> < int (2 ^ 64)" by simp
    then have "nat \<bar>sint h\<bar> < 2 ^ 64" by (subst nat_less_iff) simp_all
    then have "unat (of_int \<bar>sint h\<bar> :: size_t) = nat \<bar>sint h\<bar>"
      using unat_of_nat_small [of "nat \<bar>sint h\<bar>", where 'w = 64] by simp
    then show ?thesis using False by (simp add: bucket_of_def small)
  qed
qed

lemma wf_f32_f64: "wf_fl f32 v \<Longrightarrow> wf_fl f64 v"
proof (cases v)
  case (Fin s q)
  assume w: "wf_fl f32 v"
  then obtain m k where mk: "q = of_int m * p2 k" "0 \<le> m" "m < 2 ^ 24" "- 149 \<le> k"
    unfolding Fin by (auto simp: rep_mag_def)
  have "rep_mag f64 q"
    using mk by (intro rep_magI [of q m k]) auto
  moreover have "q < p2 1024" using w p2_less_iff [of 128 1024] by (simp add: Fin)
  ultimately show ?thesis using w by (simp add: Fin)
qed simp_all

lemma wf_fl_neg [simp]: "wf_fl F (fl_neg v) = wf_fl F v"
  by (cases v) simp_all

lemma fl_mul_one: "wf_fl F v \<Longrightarrow> fl_mul F v (Fin t 1) = (if t then fl_neg v else v)"
  by (cases v) (auto simp: fl_round_rep)

lemma signed_value_neg:
  assumes "wf_fl f32 v"
  shows "signed_value alt h v = (if alt \<and> sint h < 0 then fl_neg v else v)"
  using assms fl_to_wf [OF wf_f32_f64 [OF assms]] fl_mul_one [OF wf_f32_f64 [OF assms]]
    fl_to_wf [of f32 v] fl_to_wf [of f32 "fl_neg v"]
  by (auto simp: signed_value_def fl_one_def)

section \<open>A whole run\<close>

text \<open>The object as its users set it up, with the output at offset \<open>p\<close>.\<close>

definition fh_config :: "size_t \<Rightarrow> nat \<Rightarrow> bool \<Rightarrow> u32 \<Rightarrow> bool \<Rightarrow> feature_hasher \<Rightarrow> feature_hasher" where
  "fh_config n p alt sd multi s =
     setMultipleSamples multi (setSeed sd (setAlternateSign alt (setOutput (Some p) (setSize n (fh_reset s)))))"

definition hash_samples ::
  "feature_hasher \<Rightarrow> (bytes \<times> feature_t) list list \<Rightarrow> fl list \<Rightarrow> (feature_hasher \<times> fl list) res" where
  "hash_samples s samples mem = bnd (fh_start s mem) (\<lambda>(s, mem).
     bnd (for_each samples (\<lambda>items s. map_res fh_finalizeSample (reduce_all items s)) s) (\<lambda>s.
       fh_finalize s mem))"

definition hash_items ::
  "feature_hasher \<Rightarrow> (bytes \<times> feature_t) list \<Rightarrow> fl list \<Rightarrow> (feature_hasher \<times> fl list) res" where
  "hash_items s items mem = bnd (fh_start s mem) (\<lambda>(s, mem).
     bnd (reduce_all items s) (\<lambda>s. fh_finalize s mem))"

text \<open>
  The specification of a cell: the values of the pairs whose hash is \<open>j\<close> modulo the size, each
  negated when the sign alternates and its hash is negative, summed in order in double
  precision from zero, then converted to \<open>float\<close>.
\<close>

definition hash_cell :: "nat \<Rightarrow> u32 \<Rightarrow> bool \<Rightarrow> (bytes \<times> feature_t) list \<Rightarrow> nat \<Rightarrow> feature_t" where
  "hash_cell n sd alt items j = fl_to f32 (foldl (fl_add f64) fl_zero
     (map (\<lambda>(p, v). if alt \<and> sint (hash_value (c_str p) sd) < 0 then fl_neg v else v)
       (filter (\<lambda>(p, v). \<not> fl_eq v fl_zero \<and> nat \<bar>sint (hash_value (c_str p) sd)\<bar> mod n = j) items)))"

definition hash_row :: "nat \<Rightarrow> u32 \<Rightarrow> bool \<Rightarrow> (bytes \<times> feature_t) list \<Rightarrow> feature_t list" where
  "hash_row n sd alt items = map (hash_cell n sd alt items) [0..<n]"

lemma length_hash_row [simp]: "length (hash_row n sd alt items) = n"
  by (simp add: hash_row_def)

definition item_ok :: "bytes \<times> feature_t \<Rightarrow> bool" where
  "item_ok it \<longleftrightarrow> length (c_str (fst it)) < 2 ^ 31 \<and> wf_fl f32 (snd it)"

lemma hashed_keys:
  assumes "0 < n" "unat n \<le> 2 ^ 31" "k \<in> fst ` set (hashed n sd alt items)"
  shows "unat k < unat n"
  using assms by (auto simp: hashed_def item_kv_def Let_def unat_bucket_of unat_gt_0 word_gt_0 split: prod.splits)

lemma dense_hash_row:
  assumes n: "0 < n" "unat n \<le> 2 ^ 31" and ok: "\<forall>it \<in> set items. item_ok it"
  shows "map (fl_to f32) (dense_row (unat n) (hashed n sd alt items)) = hash_row (unat n) sd alt items"
proof -
  have "map snd (filter (\<lambda>kv. fst kv = of_nat j) (hashed n sd alt items)) =
      map (\<lambda>(p, v). if alt \<and> sint (hash_value (c_str p) sd) < 0 then fl_neg v else v)
       (filter (\<lambda>(p, v). \<not> fl_eq v fl_zero \<and> nat \<bar>sint (hash_value (c_str p) sd)\<bar> mod unat n = j) items)"
    if j: "j < unat n" for j
    using ok
  proof (induction items)
    case (Cons it items)
    obtain p v where it: "it = (p, v)" by (cases it)
    let ?h = "hash_value (c_str p) sd"
    have "bucket_of n ?h = of_nat j \<longleftrightarrow> nat \<bar>sint ?h\<bar> mod unat n = j"
      using word_eq_of_nat_iff [of j "bucket_of n ?h"] j n by (simp add: unat_bucket_of)
    moreover have "wf_fl f32 v" using Cons.prems by (simp add: it item_ok_def)
    then have "fl_to f64 (signed_value alt ?h v) = (if alt \<and> sint ?h < 0 then fl_neg v else v)"
      using wf_f32_f64 by (simp add: signed_value_neg fl_to_wf)
    ultimately show ?case using Cons
      by (simp add: it hashed_def item_kv_def Let_def)
  qed simp
  then show ?thesis by (simp add: dense_row_def hash_row_def hash_cell_def key_sum_def)
qed

lemma fh_start_config:
  assumes n: "0 < n" "p + unat n \<le> length mem" "length mem < 2 ^ 61"
  shows "\<exists>s'. fh_start (fh_config n p alt sd multi s) mem = Inr (s', blit mem p (replicate (unat n) fl_zero)) \<and>
    fh_holds [] [] s' \<and> fh_conf s' = (alt, Some p, n, sd, multi)"
proof -
  have "unat n * 4 < 2 ^ 64" using n by simp
  then have "unat (n * 4) div 4 = unat n" by (simp add: unat_word_ariths)
  then show ?thesis using n
    by (auto simp: fh_start_def fh_config_def setMultipleSamples_def setSeed_def setAlternateSign_def
        setOutput_def setSize_def fh_reset_def csr_empty_def store_list_def fh_holds_def fh_conf_def resize_def)
qed

lemma finalizeSample_holds:
  "fh_holds D cur s \<Longrightarrow> fh_holds (D @ [cur]) [] (fh_finalizeSample s) \<and> fh_conf (fh_finalizeSample s) = fh_conf s"
  by (simp add: fh_holds_def fh_finalizeSample_def fh_conf_def row_ptrs_snoc Let_def)

lemma fh_finalize_holds:
  assumes h: "fh_holds D cur s" and multi: "if multipleSamples s then cur = [] \<and> E = D else E = D @ [cur]"
    and c: "fh_output s = Some p" "fh_size s = n" "0 < n" "unat n \<le> 2 ^ 31"
    and k: "\<forall>kvs \<in> set E. \<forall>k \<in> fst ` set kvs. unat k < unat n"
    and l: "length (concat E) < 2 ^ 63" "E \<noteq> []" "length E < 2 ^ 31"
      "p + length E * unat n \<le> length mem" "length mem < 2 ^ 61"
  shows "\<exists>s'. fh_finalize s mem = Inr (s', blit mem p (map (fl_to f32) (concat (map (dense_row (unat n)) E))))"
proof -
  define t where "t = (if multipleSamples s then s else fh_finalizeSample s)"
  have t: "fh_holds E [] t" "fh_conf t = fh_conf s"
    using h multi finalizeSample_holds [OF h] by (auto simp: t_def split: if_splits)
  define v where "v = resize (unat (sz t)) fl_zero (vals (csr t))"
  have hh: "indices (csr t) = map fst (concat E)" "indptr (csr t) = row_ptrs E" "v = map snd (concat E)"
    using t(1) l(1) by (auto simp: fh_holds_def Let_def v_def resize_def unat_of_nat_small)
  have nm: "(word_of_int (int (length (row_ptrs E))) :: u32) - 1 = of_nat (length E)" by simp
  have sn: "sint (of_nat (length E) :: u32) = int (length E)" using l(3) by (rule sint_of_nat_len)
  let ?X = "\<lparr>n_rows = scast (of_nat (length E) :: u32), n_cols = n, x_indptr = row_ptrs E,
              x_indices = map fst (concat E), x_data = map snd (concat E)\<rparr>"
  have rows: "sint (n_rows ?X) = int (length E)"
  proof -
    have "n_rows ?X = of_nat (length E)" by (simp add: scast_eq sn)
    then show ?thesis using l(3) by (simp add: signed_of_nat signed_take_bit_int_eq_self)
  qed
  then have X: "csr_holds ?X E" using l(1) by (simp add: csr_holds_def)
  let ?Y = "?X\<lparr>x_indptr := row_ptrs (map sorted_row E), x_indices := map fst (concat (map sorted_row E)),
      x_data := map snd (concat (map sorted_row E))\<rparr>"
  have "length (concat (map sorted_row E)) \<le> length (concat E)"
    by (simp add: length_concat o_def sum_list_mono)
  then have Y: "csr_holds ?Y (map sorted_row E)"
    using rows l(1) by (simp add: csr_holds_def)
  have "csr_to_dense ?Y = Inr (concat (map (dense_row (unat n)) E))"
    using csr_to_dense_rows [OF Y, of "unat n" E] k c(4) l by simp
  moreover have "length (concat (map (dense_row (unat n)) E)) = length E * unat n"
    by (simp add: length_concat o_def sum_list_triv)
  moreover have "sum_duplicates_and_sort_csr ?X = Inr ?Y" by (rule sum_duplicates_rows [OF X])
  moreover have "fh_output t = Some p" "fh_size t = n" using t(2) c(1,2) by (simp_all add: fh_conf_def)
  moreover have "\<not> sint (of_nat (length E) :: u32) \<le> 0" using l(2) sn by simp
  ultimately show ?thesis
    using l(4) by (simp add: fh_finalize_def Let_def hh nm store_list_def flip: t_def v_def)
qed

lemma blit_blit: "length ws \<le> length vs \<Longrightarrow> p + length ws \<le> length xs \<Longrightarrow> blit (blit xs p ws) p vs = blit xs p vs"
  by (simp add: blit_def add.commute)

lemma reduce_samples_holds:
  assumes "fh_holds D [] s" "\<forall>items \<in> set samples. \<forall>it \<in> set items. item_ok it"
    "length (concat D) + length (concat samples) < 2 ^ 62"
  shows "\<exists>s'. for_each samples (\<lambda>items s. map_res fh_finalizeSample (reduce_all items s)) s = Inr s' \<and>
    fh_holds (D @ map (hashed (fh_size s) (seed s) (alternateSign s)) samples) [] s' \<and> fh_conf s' = fh_conf s"
  using assms
proof (induction samples arbitrary: D s)
  case (Cons items samples)
  let ?h = "hashed (fh_size s) (seed s) (alternateSign s)"
  obtain s1 where s1: "reduce_all items s = Inr s1" "fh_holds D ([] @ ?h items) s1" "fh_conf s1 = fh_conf s"
    using reduce_all_holds [OF Cons.prems(1), of items] Cons.prems(2,3) by (auto simp: item_ok_def)
  let ?s2 = "fh_finalizeSample s1"
  have s2: "fh_holds (D @ [?h items]) [] ?s2" "fh_conf ?s2 = fh_conf s"
    using finalizeSample_holds [OF s1(2)] s1(3) by simp_all
  have "length (?h items) \<le> length items" by (simp add: hashed_def)
  then obtain s3 where "for_each samples (\<lambda>items s. map_res fh_finalizeSample (reduce_all items s)) ?s2 = Inr s3"
    "fh_holds ((D @ [?h items]) @ map (hashed (fh_size ?s2) (seed ?s2) (alternateSign ?s2)) samples) [] s3"
    "fh_conf s3 = fh_conf ?s2"
    using Cons.IH [OF s2(1)] Cons.prems(2,3) by auto
  then show ?case using s1(1) s2(2) fh_conf_eq [OF s2(2)] by simp
qed simp

lemma hash_samples_rows:
  assumes n: "0 < n" "unat n \<le> 2 ^ 31"
    and mem: "p + length samples * unat n \<le> length mem" "length mem < 2 ^ 61"
    and sm: "samples \<noteq> []" "length samples < 2 ^ 31" "\<forall>items \<in> set samples. \<forall>it \<in> set items. item_ok it"
      "length (concat samples) < 2 ^ 62"
  shows "\<exists>s'. hash_samples (fh_config n p alt sd True s) samples mem =
    Inr (s', blit mem p (concat (map (hash_row (unat n) sd alt) samples)))"
proof -
  have "1 * unat n \<le> length samples * unat n" using sm(1) by (intro mult_le_mono1) (simp add: Suc_le_eq)
  then have one: "p + unat n \<le> length mem" using mem(1) by linarith
  obtain s1 where s1: "fh_start (fh_config n p alt sd True s) mem = Inr (s1, blit mem p (replicate (unat n) fl_zero))"
    "fh_holds [] [] s1" "fh_conf s1 = (alt, Some p, n, sd, True)"
    using fh_start_config [OF n(1) one mem(2)] by blast
  have c: "fh_size s1 = n" "seed s1 = sd" "alternateSign s1 = alt" "multipleSamples s1 = True"
    using s1(3) by (simp_all add: fh_conf_def)
  let ?E = "map (hashed n sd alt) samples"
  obtain s2 where s2: "for_each samples (\<lambda>items s. map_res fh_finalizeSample (reduce_all items s)) s1 = Inr s2"
    "fh_holds ?E [] s2" "fh_conf s2 = fh_conf s1"
    using reduce_samples_holds [OF s1(2) sm(3)] sm(4) c by auto
  have "length (concat ?E) \<le> length (concat samples)"
    by (simp add: length_concat o_def hashed_def sum_list_mono)
  moreover have "concat (map (hash_row (unat n) sd alt) samples) =
      map (fl_to f32) (concat (map (dense_row (unat n)) ?E))"
    using dense_hash_row [OF n] sm(3) by (simp add: map_concat o_def cong: map_cong)
  moreover have "length (concat (map (hash_row (unat n) sd alt) samples)) = length samples * unat n"
    by (simp add: length_concat o_def sum_list_triv)
  moreover have "multipleSamples s2" "fh_output s2 = Some p" "fh_size s2 = n"
    using s2(3) s1(3) by (simp_all add: fh_conf_def)
  moreover have "\<forall>kvs \<in> set ?E. \<forall>k \<in> fst ` set kvs. unat k < unat n"
  proof (intro ballI)
    fix kvs k assume "kvs \<in> set ?E" "k \<in> fst ` set kvs"
    moreover from this obtain items where "kvs = hashed n sd alt items" by auto
    ultimately show "unat k < unat n" using hashed_keys [OF n] by blast
  qed
  ultimately obtain s3 where "fh_finalize s2 (blit mem p (replicate (unat n) fl_zero)) =
      Inr (s3, blit (blit mem p (replicate (unat n) fl_zero)) p (concat (map (hash_row (unat n) sd alt) samples)))"
    using fh_finalize_holds [OF s2(2), where E = ?E and p = p and n = n and
        mem = "blit mem p (replicate (unat n) fl_zero)"] n mem sm one by (simp only: length_map) fastforce
  moreover have "blit (blit mem p (replicate (unat n) fl_zero)) p (concat (map (hash_row (unat n) sd alt) samples)) =
      blit mem p (concat (map (hash_row (unat n) sd alt) samples))"
    using \<open>1 * unat n \<le> length samples * unat n\<close> one
    by (intro blit_blit) (simp_all add: length_concat o_def sum_list_triv)
  ultimately show ?thesis using s1(1) s2(1) by (simp add: hash_samples_def)
qed

lemma hash_items_row:
  assumes n: "0 < n" "unat n \<le> 2 ^ 31" and mem: "p + unat n \<le> length mem" "length mem < 2 ^ 61"
    and it: "\<forall>it \<in> set items. item_ok it" "length items < 2 ^ 62"
  shows "\<exists>s'. hash_items (fh_config n p alt sd False s) items mem = Inr (s', blit mem p (hash_row (unat n) sd alt items))"
proof -
  obtain s1 where s1: "fh_start (fh_config n p alt sd False s) mem = Inr (s1, blit mem p (replicate (unat n) fl_zero))"
    "fh_holds [] [] s1" "fh_conf s1 = (alt, Some p, n, sd, False)"
    using fh_start_config [OF n(1) mem] by blast
  have c: "fh_size s1 = n" "seed s1 = sd" "alternateSign s1 = alt"
    using s1(3) by (simp_all add: fh_conf_def)
  let ?h = "hashed n sd alt items"
  obtain s2 where s2: "reduce_all items s1 = Inr s2" "fh_holds [] ?h s2" "fh_conf s2 = fh_conf s1"
    using reduce_all_holds [OF s1(2), of items] it c by (auto simp: item_ok_def)
  have "length ?h \<le> length items" by (simp add: hashed_def)
  moreover have "\<not> multipleSamples s2" "fh_output s2 = Some p" "fh_size s2 = n"
    using s2(3) s1(3) by (simp_all add: fh_conf_def)
  moreover have "map (fl_to f32) (concat (map (dense_row (unat n)) [?h])) = hash_row (unat n) sd alt items"
    using dense_hash_row [OF n it(1)] by simp
  ultimately obtain s3 where "fh_finalize s2 (blit mem p (replicate (unat n) fl_zero)) =
      Inr (s3, blit (blit mem p (replicate (unat n) fl_zero)) p (hash_row (unat n) sd alt items))"
    using fh_finalize_holds [OF s2(2), of "[?h]" p n "blit mem p (replicate (unat n) fl_zero)"] n mem it
      hashed_keys [OF n] by auto
  then show ?thesis using s1(1) s2(1) mem by (simp add: hash_items_def blit_blit)
qed

text \<open>The inputs of the unit tests.\<close>

definition fl_nat :: "nat \<Rightarrow> fl" where "fl_nat k = Fin False (of_nat k)"

lemma wf_fl_nat: "k < 2 ^ 24 \<Longrightarrow> wf_fl f32 (fl_nat k)"
  using wf_fl_of_nat [of f32 k] fl_of_nat_exact [of f32 k] by (simp add: fl_nat_def)

definition test_1a :: "(bytes \<times> feature_t) list list" where
  "test_1a = [[(lit ''dog'', fl_nat 1), (lit ''cat'', fl_nat 2), (lit ''elephant'', fl_nat 4)],
              [(lit ''dog'', fl_nat 2), (lit ''run'', fl_nat 5)]]"

lemma test_1a_ok: "\<forall>items \<in> set test_1a. \<forall>it \<in> set items. item_ok it"
proof -
  have "length (c_str x) < 2 ^ 31" if "length x < 100" for x
    using that length_takeWhile_le [of "\<lambda>b. b \<noteq> 0" x] by (simp add: c_str_def)
  then show ?thesis by (simp add: test_1a_def item_ok_def wf_fl_nat lit_def)
qed

lemma test_hashes:
  "sint (hash_value (c_str (lit ''dog'')) 0) = - 1312749093" 
  "sint (hash_value (c_str (lit ''cat'')) 0) = 1751422759"
  "sint (hash_value (c_str (lit ''elephant'')) 0) = - 1063169582"
  "sint (hash_value (c_str (lit ''run'')) 0) = - 243905464"
  by code_simp+

lemma test_rows:
  "hash_row 10 0 True (test_1a ! 0) =
     [fl_zero, fl_zero, fl_neg (fl_nat 4), fl_neg (fl_nat 1), fl_zero, fl_zero, fl_zero, fl_zero, fl_zero, fl_nat 2]"
  "hash_row 10 0 True (test_1a ! 1) =
     [fl_zero, fl_zero, fl_zero, fl_neg (fl_nat 2), fl_neg (fl_nat 5), fl_zero, fl_zero, fl_zero, fl_zero, fl_zero]"
proof -
  have u: "[0..<10] = [0, 1, 2, 3, 4, 5, 6, 7, 8, 9 :: nat]" by (simp add: upt_rec)
  show "hash_row 10 0 True (test_1a ! 0) =
     [fl_zero, fl_zero, fl_neg (fl_nat 4), fl_neg (fl_nat 1), fl_zero, fl_zero, fl_zero, fl_zero, fl_zero, fl_nat 2]"
    by (simp add: hash_row_def u hash_cell_def test_1a_def test_hashes fl_nat_def fl_zero_def fl_eval)
  show "hash_row 10 0 True (test_1a ! 1) =
     [fl_zero, fl_zero, fl_zero, fl_neg (fl_nat 2), fl_neg (fl_nat 5), fl_zero, fl_zero, fl_zero, fl_zero, fl_zero]"
    by (simp add: hash_row_def u hash_cell_def test_1a_def test_hashes fl_nat_def fl_zero_def fl_eval)
qed

text \<open>
  C8. For every size up to \<open>2 ^ 31\<close>, offset and buffer the row fits in, whatever the object held
  before: a run over one sample never fails and never leaves the buffer, and writes exactly its
  row, where cell \<open>j\<close> is the sum, in order, of the signed values of the strings whose hash is
  \<open>j\<close> modulo the size (\<open>hash_cell\<close>); the other cells of the buffer stay as they were. The
  sparse matrix, the hash map and the sort in between leave no trace in the result.
\<close>

theorem feature_hasher_row:
  assumes "0 < n" "unat n \<le> 2 ^ 31" "p + unat n \<le> length mem" "length mem < 2 ^ 61"
    "\<forall>it \<in> set items. item_ok it" "length items < 2 ^ 62"
  shows "map_res snd (hash_items (fh_config n p alt sd False s) items mem) =
    Inr (take p mem @ map (hash_cell (unat n) sd alt items) [0..<unat n] @ drop (p + unat n) mem)"
  using hash_items_row [OF assms, where alt = alt and sd = sd and s = s] by (auto simp: hash_row_def blit_def)

theorem feature_hasher_row_witness:
  "map_res snd (hash_items (fh_config 10 1 True 0 False (fh_new 0)) (test_1a ! 0) (replicate 12 NaN)) =
   Inr ([NaN, fl_zero, fl_zero, fl_neg (fl_nat 4), fl_neg (fl_nat 1), fl_zero, fl_zero, fl_zero, fl_zero,
         fl_zero, fl_nat 2, NaN])"
proof -
  have "\<forall>it \<in> set (test_1a ! 0). item_ok it" "length (test_1a ! 0) < 2 ^ 62"
    using test_1a_ok by (simp_all add: test_1a_def)
  then show ?thesis
    using feature_hasher_row [of 10 1 "replicate 12 NaN" "test_1a ! 0" True 0 "fh_new 0", folded hash_row_def] test_rows(1)
    by simp
qed

text \<open>
  C30. With several samples the rows follow each other in the output, one per sample; a buffer
  that holds all of them is all that is needed, although \<open>start\<close> clears only the first row.
\<close>

theorem feature_hasher_samples:
  assumes "0 < n" "unat n \<le> 2 ^ 31" "p + length samples * unat n \<le> length mem" "length mem < 2 ^ 61"
    "samples \<noteq> []" "length samples < 2 ^ 31" "\<forall>items \<in> set samples. \<forall>it \<in> set items. item_ok it"
    "length (concat samples) < 2 ^ 62"
  shows "map_res snd (hash_samples (fh_config n p alt sd True s) samples mem) =
    Inr (blit mem p (concat (map (hash_row (unat n) sd alt) samples)))"
  using hash_samples_rows [OF assms, where alt = alt and sd = sd and s = s] by auto

theorem feature_hasher_samples_witness:
  "map_res snd (hash_samples (fh_config 10 0 True 0 True (fh_new 0)) test_1a (replicate 20 NaN)) =
   Inr [fl_zero, fl_zero, fl_neg (fl_nat 4), fl_neg (fl_nat 1), fl_zero, fl_zero, fl_zero, fl_zero, fl_zero, fl_nat 2,
        fl_zero, fl_zero, fl_zero, fl_neg (fl_nat 2), fl_neg (fl_nat 5), fl_zero, fl_zero, fl_zero, fl_zero, fl_zero]"
proof -
  have t: "test_1a = [test_1a ! 0, test_1a ! 1]" by (simp add: test_1a_def)
  have "concat (map (hash_row 10 0 True) test_1a) = hash_row 10 0 True (test_1a ! 0) @ hash_row 10 0 True (test_1a ! 1)"
    by (subst t) simp
  moreover have "length test_1a = 2" "length (concat test_1a) = 5" "test_1a \<noteq> []" by (simp_all add: test_1a_def)
  ultimately show ?thesis
    using feature_hasher_samples [of 10 0 test_1a "replicate 20 NaN" True 0 "fh_new 0"] test_1a_ok test_rows
    by (simp add: blit_def)
qed

end
