(* ===== verification/HashingFast.thy ===== *)
theory HashingFast
  imports FeatureHasher "HOL-Library.Signed_Division"
begin

text \<open>
  \<open>featurehasher/include/efe/featurehasher/hashing_fast.h\<close>: the reference version of the feature
  hasher, a translation of the one of scikit-learn that the repository keeps for comparison, and
  its equivalence with the class that the engine uses.
\<close>

section \<open>The reference version\<close>

record feature_value =
  fv_feature :: bytes
  fv_is_string_value :: bool
  fv_string_value :: bytes
  fv_numeric_value :: fl

text \<open>\<open>idx\<close>, in signed 64-bit arithmetic; a division by zero or an overflow is undefined.\<close>

definition fast_index :: "u64 \<Rightarrow> u32 \<Rightarrow> u32 res" where
  "fast_index n_features h =
     (let n = sint n_features
      in if n = 0 \<or> n \<le> 2147483648 - 2 ^ 63 then Inl Undefined
         else if sint h = - (2 ^ 31) then Inr (word_of_int ((2147483647 - (n - 1)) smod n))
         else Inr (word_of_int (\<bar>sint h\<bar> smod n)))"

definition transform_value ::
  "u64 \<Rightarrow> bool \<Rightarrow> u32 \<Rightarrow> feature_value \<Rightarrow> csr_result \<times> u64 \<Rightarrow> (csr_result \<times> u64) res" where
  "transform_value n_features alternate_sign sd fv st = (case st of (out, n) \<Rightarrow>
     let f = (if fv_is_string_value fv then fv_feature fv @ lit ''='' @ fv_string_value fv else fv_feature fv);
         value = (if fv_is_string_value fv then fl_one else fv_numeric_value fv)
     in if fl_eq value fl_zero then Inr (out, n)
        else bnd (MurmurHash3_x86_32 (f @ [0]) (ucast (of_nat (length f) :: size_t)) sd) (\<lambda>h.
          bnd (fast_index n_features h) (\<lambda>idx.
          let value = (if alternate_sign then fl_mul f64 value (if 0 \<le> sint h then fl_one else fl_neg fl_one) else value);
              vs = (if n = of_nat (length (vals out)) then resize (2 * length (vals out)) fl_zero (vals out) else vals out)
          in bnd (store vs (unat n) value) (\<lambda>vs.
             Inr (out\<lparr>indices := indices out @ [idx], vals := vs\<rparr>, n + 1)))))"

definition transform ::
  "feature_value list list \<Rightarrow> u64 \<Rightarrow> bool \<Rightarrow> u32 \<Rightarrow> csr_result res" where
  "transform raw_X n_features alternate_sign sd =
     map_res (\<lambda>(out, n). out\<lparr>vals := resize (unat n) fl_zero (vals out)\<rparr>)
       (for_each raw_X (\<lambda>sample st.
          map_res (\<lambda>(out, n). (out\<lparr>indptr := indptr out @ [n]\<rparr>, n))
            (for_each sample (transform_value n_features alternate_sign sd) st))
          (\<lparr>indices = [], indptr = [0], vals = replicate 8192 fl_zero\<rparr>, 0))"

section \<open>Equivalence\<close>

text \<open>What the class is given for a value of the reference version.\<close>

definition item_of :: "feature_value \<Rightarrow> bytes \<times> feature_t" where
  "item_of fv = (if fv_is_string_value fv then (fv_feature fv @ lit ''='' @ fv_string_value fv, fl_one)
     else (fv_feature fv, fv_numeric_value fv))"

definition value_ok :: "feature_value \<Rightarrow> bool" where
  "value_ok fv \<longleftrightarrow> 0 \<notin> set (fst (item_of fv)) \<and> item_ok (item_of fv)"

lemma fast_index_bucket:
  assumes "0 < n" "unat n \<le> 2 ^ 31"
  shows "fast_index n h = Inr (bucket_of n h)"
proof -
  let ?N = "int (unat n)"
  have "sint (of_nat m :: u64) = int m" if "m < 2 ^ 63" for m
    using that by (simp add: signed_of_nat signed_take_bit_int_eq_self)
  from this [of "unat n"] have N: "sint n = ?N" using assms(2) by simp
  have pos: "0 < unat n" using assms(1) by (simp add: unat_gt_0 word_gt_0)
  then have posi: "0 < ?N" by (simp only: of_nat_0_less_iff)
  have "unat n \<le> 2147483648" using assms(2) by simp
  then have big: "?N \<le> 2147483648" by linarith
  have smod: "a smod ?N = a mod ?N" if "0 \<le> a" for a
    using that pos by (cases "a = 0") (simp_all add: signed_modulo_int_def)
  have b: "bucket_of n h = word_of_int (\<bar>sint h\<bar> mod ?N)"
  proof -
    have "uint (bucket_of n h) = int (nat \<bar>sint h\<bar> mod unat n)" by (simp only: uint_nat unat_bucket_of [OF assms])
    also have "\<dots> = \<bar>sint h\<bar> mod ?N" by (simp add: zmod_int)
    finally show ?thesis by (metis word_of_int_uint)
  qed
  have min: "(2147483647 - (?N - 1)) mod ?N = 2147483648 mod ?N"
  proof -
    have "(2147483647 - (?N - 1)) = 2147483648 - ?N" by simp
    then show ?thesis by simp
  qed
  show ?thesis
  proof (cases "sint h = - (2 ^ 31)")
    case True
    have "0 \<le> 2147483647 - (?N - 1)" using big by simp
    then have "(2147483647 - (?N - 1)) smod ?N = 2147483648 mod ?N" using smod [of "2147483647 - (?N - 1)"] min by simp
    then show ?thesis using True N posi b by (simp add: fast_index_def Let_def)
  next
    case False
    then show ?thesis using N posi smod [of "\<bar>sint h\<bar>"] b by (simp add: fast_index_def Let_def)
  qed
qed

text \<open>The reference state holds the pairs \<open>D\<close> of the finished samples and \<open>cur\<close> of the current one.\<close>

definition tr_holds :: "(u32 \<times> fl) list list \<Rightarrow> (u32 \<times> fl) list \<Rightarrow> csr_result \<times> u64 \<Rightarrow> bool" where
  "tr_holds D cur st \<longleftrightarrow> (case st of (out, n) \<Rightarrow>
     let L = concat D @ cur in
        indices out = map fst L \<and> indptr out = row_ptrs D \<and> take (length L) (vals out) = map snd L \<and>
        length L \<le> length (vals out) \<and> 0 < length (vals out) \<and> length (vals out) \<le> 2 * length L + 8192 \<and>
        n = of_nat (length L))"

lemma grow_values_any:
  fixes z :: 'a
  assumes "take n vs = xs" "n \<le> length vs" "0 < length vs" "length vs \<le> 2 * n + c"
  defines "ws \<equiv> if n = length vs then resize (2 * length vs) z vs else vs"
  shows "take n ws = xs \<and> n < length ws \<and> length ws \<le> 2 * n + c"
  using assms by (cases "n = length vs") (simp_all add: resize_def)

lemma transform_value_holds:
  assumes h: "tr_holds D cur st" and ok: "value_ok fv" and n: "0 < n" "unat n \<le> 2 ^ 31"
    and l: "length (concat D @ cur) < 2 ^ 62"
  shows "\<exists>st'. transform_value n alt sd fv st = Inr st' \<and> tr_holds D (cur @ hashed n sd alt [item_of fv]) st'"
proof -
  obtain out k where st: "st = (out, k)" by (cases st)
  obtain p v where it: "item_of fv = (p, v)" by (cases "item_of fv")
  have p: "c_str p = p" "length p < 2 ^ 31" "wf_fl f32 v" using ok it by (auto simp: value_ok_def item_ok_def)
  have pv: "p = (if fv_is_string_value fv then fv_feature fv @ lit ''='' @ fv_string_value fv else fv_feature fv)"
    "v = (if fv_is_string_value fv then fl_one else fv_numeric_value fv)" using it by (simp_all add: item_of_def split: if_splits)
  show ?thesis
  proof (cases "fl_eq v fl_zero")
    case True
    then have "transform_value n alt sd fv st = Inr st" by (simp add: transform_value_def st flip: pv)
    moreover have "hashed n sd alt [item_of fv] = []" using True it by (simp add: hashed_def)
    ultimately show ?thesis using h by simp
  next
    case False
    let ?h = "hash_value p sd" and ?m = "length (concat D @ cur)"
    define w where "w = (if alt then fl_mul f64 v (if 0 \<le> sint ?h then fl_one else fl_neg fl_one) else v)"
    have w: "w = fl_to f64 (signed_value alt ?h v)"
      using signed_value_neg [OF p(3), of alt ?h] fl_to_wf [OF wf_f32_f64 [OF p(3)]] fl_mul_one [OF wf_f32_f64 [OF p(3)]]
        wf_f32_f64 [of "fl_neg v"] p(3) by (auto simp: w_def fl_one_def fl_to_wf)
    have hash: "MurmurHash3_x86_32 (p @ [0]) (ucast (of_nat (length p) :: size_t)) sd = Inr ?h"
      using MurmurHash3_x86_32_value [OF p(2), of "[0]"] ucast_length [OF p(2)] by simp
    have hh: "indices out = map fst (concat D @ cur)" "indptr out = row_ptrs D" "take ?m (vals out) = map snd (concat D @ cur)"
      "?m \<le> length (vals out)" "0 < length (vals out)" "length (vals out) \<le> 2 * ?m + 8192" "k = of_nat ?m"
      using h by (simp_all add: tr_holds_def Let_def st)
    have un: "unat k = ?m" unfolding hh(7) using l by (intro unat_of_nat_small) simp
    have full: "k = of_nat (length (vals out)) \<longleftrightarrow> ?m = length (vals out)"
      using word_eq_of_nat_iff [of "length (vals out)" k] l hh(6) un by simp
    define vs where "vs = (if k = of_nat (length (vals out)) then resize (2 * length (vals out)) fl_zero (vals out) else vals out)"
    have vs: "take ?m vs = map snd (concat D @ cur)" "?m < length vs" "length vs \<le> 2 * ?m + 8192"
      using grow_values_any [OF hh(3-6)] unfolding vs_def full by auto
    obtain vs' where vs': "store vs ?m w = Inr vs'" "take (Suc ?m) vs' = map snd (concat D @ cur) @ [w]" "length vs' = length vs"
      using store_push [OF vs(1,2)] by blast
    let ?st = "(out\<lparr>indices := indices out @ [bucket_of n ?h], vals := vs'\<rparr>, k + 1)"
    have "transform_value n alt sd fv st = Inr ?st"
      using False vs'(1) by (simp add: transform_value_def st hash fast_index_bucket [OF n] un Let_def flip: pv vs_def w_def)
    moreover have "hashed n sd alt [item_of fv] = [(bucket_of n ?h, w)]"
      using False p(1) w by (simp add: hashed_def item_kv_def Let_def it)
    moreover have "vs \<noteq> []" using vs(2) by auto
    ultimately show ?thesis using hh vs vs' by (auto simp: tr_holds_def Let_def)
  qed
qed

lemma transform_sample_holds:
  assumes "tr_holds D cur st" "\<forall>fv \<in> set sample. value_ok fv" "0 < n" "unat n \<le> 2 ^ 31"
    "length (concat D @ cur) + length sample < 2 ^ 62"
  shows "\<exists>st'. for_each sample (transform_value n alt sd) st = Inr st' \<and>
    tr_holds D (cur @ hashed n sd alt (map item_of sample)) st'"
  using assms
proof (induction sample arbitrary: cur st)
  case (Cons fv sample)
  let ?one = "hashed n sd alt [item_of fv]"
  obtain st1 where st1: "transform_value n alt sd fv st = Inr st1" "tr_holds D (cur @ ?one) st1"
    using transform_value_holds [OF Cons.prems(1), of fv n alt sd] Cons.prems(2-5) by auto
  have "length ?one \<le> 1" using length_filter_le [of _ "[item_of fv]"] by (simp add: hashed_def)
  then show ?case
    using Cons.IH [OF st1(2)] Cons.prems(2-5) st1(1) hashed_append [of n sd alt "[item_of fv]" "map item_of sample"] by simp
qed simp

lemma transform_holds:
  assumes "tr_holds D [] st" "\<forall>sample \<in> set samples. \<forall>fv \<in> set sample. value_ok fv" "0 < n" "unat n \<le> 2 ^ 31"
    "length (concat D) + length (concat samples) < 2 ^ 62"
  shows "\<exists>st'. for_each samples (\<lambda>sample st.
      map_res (\<lambda>(out, n). (out\<lparr>indptr := indptr out @ [n]\<rparr>, n)) (for_each sample (transform_value n alt sd) st)) st = Inr st' \<and>
    tr_holds (D @ map (hashed n sd alt) (map (map item_of) samples)) [] st'"
  using assms
proof (induction samples arbitrary: D st)
  case (Cons sample samples)
  let ?row = "hashed n sd alt (map item_of sample)"
  obtain out k where st1: "for_each sample (transform_value n alt sd) st = Inr (out, k)" "tr_holds D ([] @ ?row) (out, k)"
    using transform_sample_holds [OF Cons.prems(1), of sample n alt sd] Cons.prems(2-5) by auto
  have "tr_holds (D @ [?row]) [] (out\<lparr>indptr := indptr out @ [k]\<rparr>, k)"
    using st1(2) by (simp add: tr_holds_def Let_def row_ptrs_snoc)
  moreover have "length ?row \<le> length sample" using length_filter_le [of _ "map item_of sample"] by (simp add: hashed_def)
  ultimately show ?case using Cons.IH [of "D @ [?row]"] Cons.prems(2-5) st1(1) by simp
qed simp

text \<open>
  C24. The class and the reference version agree. For any samples of named numbers of single
  precision and of categorical values, a number of buckets up to \<open>2 ^ 31\<close>, either sign mode and any
  seed, the class after \<open>start\<close> and one \<open>finalizeSample\<close> per sample has collected exactly the indices,
  row bounds and values that \<open>transform\<close> returns, although the one grows its vector of values from
  one element and rounds each value to \<open>float\<close>, and the other grows from 8192 in double precision.
\<close>

theorem hashing_fast_equivalent:
  assumes "0 < n" "unat n \<le> 2 ^ 31" "p + unat n \<le> length mem" "length mem < 2 ^ 61"
    and "\<forall>sample \<in> set samples. \<forall>fv \<in> set sample. value_ok fv" "length (concat samples) < 2 ^ 62"
  shows "\<exists>s1 mem' s2. fh_start (fh_config n p alt sd True s) mem = Inr (s1, mem') \<and>
    for_each (map (map item_of) samples) (\<lambda>items s. map_res fh_finalizeSample (reduce_all items s)) s1 = Inr s2 \<and>
    transform samples n alt sd = Inr ((csr s2)\<lparr>vals := resize (unat (sz s2)) fl_zero (vals (csr s2))\<rparr>)"
proof -
  let ?D = "map (hashed n sd alt) (map (map item_of) samples)"
  obtain s1 where s1: "fh_start (fh_config n p alt sd True s) mem = Inr (s1, blit mem p (replicate (unat n) fl_zero))"
    "fh_holds [] [] s1" "fh_conf s1 = (alt, Some p, n, sd, True)"
    using fh_start_config [OF assms(1,3,4), of alt sd True s] by blast
  have conf: "fh_size s1 = n" "seed s1 = sd" "alternateSign s1 = alt" using s1(3) by (simp_all add: fh_conf_def)
  have ok: "\<forall>items \<in> set (map (map item_of) samples). \<forall>it \<in> set items. item_ok it"
    using assms(5) by (auto simp: value_ok_def)
  have len: "length (concat (map (map item_of) samples)) = length (concat samples)"
    by (simp flip: map_concat)
  obtain s2 where s2: "for_each (map (map item_of) samples) (\<lambda>items s. map_res fh_finalizeSample (reduce_all items s)) s1 = Inr s2"
    "fh_holds ?D [] s2"
    using reduce_samples_holds [OF s1(2) ok] assms(6) len unfolding conf by auto
  let ?st0 = "(\<lparr>indices = [], indptr = [0], vals = replicate 8192 fl_zero\<rparr>, 0) :: csr_result \<times> u64"
  have h0: "tr_holds [] [] ?st0" by (simp add: tr_holds_def)
  have l0: "length (concat ([] :: (u32 \<times> fl) list list)) + length (concat samples) < 2 ^ 62" using assms(6) by simp
  obtain st where st: "for_each samples (\<lambda>sample st.
      map_res (\<lambda>(out, n). (out\<lparr>indptr := indptr out @ [n]\<rparr>, n)) (for_each sample (transform_value n alt sd) st)) ?st0 = Inr st"
    "tr_holds ([] @ ?D) [] st"
    using transform_holds [OF h0 assms(5,1,2) l0] by blast
  obtain out k where "st = (out, k)" by (cases st)
  then have t: "for_each samples (\<lambda>sample st.
      map_res (\<lambda>(out, n). (out\<lparr>indptr := indptr out @ [n]\<rparr>, n)) (for_each sample (transform_value n alt sd) st)) ?st0 = Inr (out, k)"
    "tr_holds ?D [] (out, k)" using st by simp_all
  have "length (concat ?D) \<le> length (concat samples)"
  proof (induction samples)
    case (Cons x xs)
    have "length (hashed n sd alt (map item_of x)) \<le> length x"
      using length_filter_le [of _ "map item_of x"] by (simp add: hashed_def)
    then show ?case using Cons by simp
  qed simp
  then have l: "unat (of_nat (length (concat ?D)) :: u64) = length (concat ?D)"
    using assms(6) by (intro unat_of_nat_small) simp
  have cut: "resize m fl_zero xs = take m xs" if "m \<le> length xs" for m and xs :: "fl list"
    using that by (simp add: resize_def)
  have "out\<lparr>vals := resize (unat k) fl_zero (vals out)\<rparr> = (csr s2)\<lparr>vals := resize (unat (sz s2)) fl_zero (vals (csr s2))\<rparr>"
    using t(2) s2(2) l by (cases out; cases "csr s2") (simp add: tr_holds_def fh_holds_def Let_def cut)
  then show ?thesis using s1(1) s2(1) t(1) by (auto simp: transform_def)
qed

definition example_values :: "feature_value list list" where
  "example_values = [[\<lparr>fv_feature = [0x61], fv_is_string_value = False, fv_string_value = [], fv_numeric_value = fl_one\<rparr>,
     \<lparr>fv_feature = [0x62], fv_is_string_value = True, fv_string_value = [0x63], fv_numeric_value = fl_zero\<rparr>], []]"

theorem hashing_fast_equivalent_witness:
  "\<exists>s1 mem' s2. fh_start (fh_config 10 0 True 0 True (fh_new 0)) (replicate 10 fl_zero) = Inr (s1, mem') \<and>
    for_each (map (map item_of) example_values) (\<lambda>items s. map_res fh_finalizeSample (reduce_all items s)) s1 = Inr s2 \<and>
    transform example_values 10 True 0 = Inr ((csr s2)\<lparr>vals := resize (unat (sz s2)) fl_zero (vals (csr s2))\<rparr>)"
proof -
  have one: "wf_fl f32 fl_one" using wf_fl_nat [of 1] by (simp add: fl_nat_def fl_one_def)
  have "\<forall>sample \<in> set example_values. \<forall>fv \<in> set sample. value_ok fv"
    using one by (auto simp: example_values_def value_ok_def item_of_def item_ok_def lit_def c_str_def)
  moreover have "length (concat example_values) < 2 ^ 62" by (simp add: example_values_def)
  ultimately show ?thesis
    using hashing_fast_equivalent [of 10 0 "replicate 10 fl_zero" example_values True 0 "fh_new 0"] by simp
qed

end
