(* ===== verification/PETypes.thy ===== *)
theory PETypes
  imports Floats
begin

text \<open>
  The data of \<open>pefile/\<close>: the declaration tables, and the structures that are filled from a parsed
  file. LIEF itself is not part of the repository: the record \<open>binary\<close> holds what the code reads
  from a \<open>LIEF::PE::Binary\<close>, one field per accessor.
\<close>

section \<open>Declaration tables\<close>

text \<open>\<open>machine_types_declarations.h\<close>.\<close>

definition machine_types :: "(u16 \<times> string) list" where
  "machine_types = [
     (0x0000, ''IMAGE_FILE_MACHINE_UNKNOWN''), (0x014C, ''IMAGE_FILE_MACHINE_I386''),
     (0x0162, ''IMAGE_FILE_MACHINE_R3000''),
     (0x0166, ''IMAGE_FILE_MACHINE_R4000''),
     (0x0168, ''IMAGE_FILE_MACHINE_R10000''),
     (0x0169, ''IMAGE_FILE_MACHINE_WCEMIPSV2''),
     (0x0184, ''IMAGE_FILE_MACHINE_ALPHA''),
     (0x01A2, ''IMAGE_FILE_MACHINE_SH3''),
     (0x01A3, ''IMAGE_FILE_MACHINE_SH3DSP''),
     (0x01A4, ''IMAGE_FILE_MACHINE_SH3E''),
     (0x01A6, ''IMAGE_FILE_MACHINE_SH4''),
     (0x01A8, ''IMAGE_FILE_MACHINE_SH5''),
     (0x01C0, ''IMAGE_FILE_MACHINE_ARM''),
     (0x01C2, ''IMAGE_FILE_MACHINE_THUMB''),
     (0x01C4, ''IMAGE_FILE_MACHINE_ARMNT''),
     (0x01D3, ''IMAGE_FILE_MACHINE_AM33''),
     (0x01F0, ''IMAGE_FILE_MACHINE_POWERPC''),
     (0x01F1, ''IMAGE_FILE_MACHINE_POWERPCFP''),
     (0x0200, ''IMAGE_FILE_MACHINE_IA64''),
     (0x0266, ''IMAGE_FILE_MACHINE_MIPS16''),
     (0x0284, ''IMAGE_FILE_MACHINE_ALPHA64''),
     (0x0366, ''IMAGE_FILE_MACHINE_MIPSFPU''),
     (0x0466, ''IMAGE_FILE_MACHINE_MIPSFPU16''),
     (0x0520, ''IMAGE_FILE_MACHINE_TRICORE''),
     (0x0CEF, ''IMAGE_FILE_MACHINE_CEF''),
     (0x0EBC, ''IMAGE_FILE_MACHINE_EBC''),
     (0x5032, ''IMAGE_FILE_MACHINE_RISCV32''),
     (0x5064, ''IMAGE_FILE_MACHINE_RISCV64''),
     (0x5128, ''IMAGE_FILE_MACHINE_RISCV128''),
     (0x6232, ''IMAGE_FILE_MACHINE_LOONGARCH32''),
     (0x6264, ''IMAGE_FILE_MACHINE_LOONGARCH64''),
     (0x8664, ''IMAGE_FILE_MACHINE_AMD64''),
     (0x9041, ''IMAGE_FILE_MACHINE_M32R''),
     (0xAA64, ''IMAGE_FILE_MACHINE_ARM64''),
     (0xC0EE, ''IMAGE_FILE_MACHINE_CEE'')]"

text \<open>\<open>section_characteristics_declarations.h\<close>.\<close>

definition section_characteristics :: "(u32 \<times> string) list" where
  "section_characteristics = [
     (0x00000000, ''TYPE_REG''),
     (0x00000001, ''TYPE_DSECT''),
     (0x00000002, ''TYPE_NOLOAD''),
     (0x00000004, ''TYPE_GROUP''),
     (0x00000008, ''TYPE_NO_PAD''),
     (0x00000010, ''TYPE_COPY''),
     (0x00000020, ''CNT_CODE''),
     (0x00000040, ''CNT_INITIALIZED_DATA''),
     (0x00000080, ''CNT_UNINITIALIZED_DATA''),
     (0x00000100, ''LNK_OTHER''),
     (0x00000200, ''LNK_INFO''),
     (0x00000400, ''LNK_OVER''),
     (0x00000800, ''LNK_REMOVE''),
     (0x00001000, ''LNK_COMDAT''),
     (0x00004000, ''MEM_PROTECTED''),
     (0x00004000, ''NO_DEFER_SPEC_EXC''),
     (0x00008000, ''GPREL''),
     (0x00008000, ''MEM_FARDATA''),
     (0x00010000, ''MEM_SYSHEAP''),
     (0x00020000, ''MEM_PURGEABLE''),
     (0x00020000, ''MEM_16BIT''),
     (0x00040000, ''MEM_LOCKED''),
     (0x00080000, ''MEM_PRELOAD''),
     (0x00100000, ''ALIGN_1BYTES''),
     (0x00200000, ''ALIGN_2BYTES''),
     (0x00300000, ''ALIGN_4BYTES''),
     (0x00400000, ''ALIGN_8BYTES''),
     (0x00500000, ''ALIGN_16BYTES''),
     (0x00600000, ''ALIGN_32BYTES''),
     (0x00700000, ''ALIGN_64BYTES''),
     (0x00800000, ''ALIGN_128BYTES''),
     (0x00900000, ''ALIGN_256BYTES''),
     (0x00A00000, ''ALIGN_512BYTES''),
     (0x00B00000, ''ALIGN_1024BYTES''),
     (0x00C00000, ''ALIGN_2048BYTES''),
     (0x00D00000, ''ALIGN_4096BYTES''),
     (0x00E00000, ''ALIGN_8192BYTES''),
     (0x00F00000, ''ALIGN_MASK''),
     (0x01000000, ''LNK_NRELOC_OVFL''),
     (0x02000000, ''MEM_DISCARDABLE''),
     (0x04000000, ''MEM_NOT_CACHED''),
     (0x08000000, ''MEM_NOT_PAGED''),
     (0x10000000, ''MEM_SHARED''),
     (0x20000000, ''MEM_EXECUTE''),
     (0x40000000, ''MEM_READ''),
     (0x80000000, ''MEM_WRITE'')]"

text \<open>\<open>coff_characteristics_declarations.h\<close>.\<close>

definition coff_characteristics :: "(u16 \<times> string) list" where
  "coff_characteristics = [
     (0x0001, ''IMAGE_FILE_RELOCS_STRIPPED''),
     (0x0002, ''IMAGE_FILE_EXECUTABLE_IMAGE''),
     (0x0004, ''IMAGE_FILE_LINE_NUMS_STRIPPED''),
     (0x0008, ''IMAGE_FILE_LOCAL_SYMS_STRIPPED''),
     (0x0010, ''IMAGE_FILE_AGGRESIVE_WS_TRIM''),
     (0x0020, ''IMAGE_FILE_LARGE_ADDRESS_AWARE''),
     (0x0040, ''IMAGE_FILE_16BIT_MACHINE''),
     (0x0080, ''IMAGE_FILE_BYTES_REVERSED_LO''),
     (0x0100, ''IMAGE_FILE_32BIT_MACHINE''),
     (0x0200, ''IMAGE_FILE_DEBUG_STRIPPED''),
     (0x0400, ''IMAGE_FILE_REMOVABLE_RUN_FROM_SWAP''),
     (0x0800, ''IMAGE_FILE_NET_RUN_FROM_SWAP''),
     (0x1000, ''IMAGE_FILE_SYSTEM''),
     (0x2000, ''IMAGE_FILE_DLL''),
     (0x4000, ''IMAGE_FILE_UP_SYSTEM_ONLY''),
     (0x8000, ''IMAGE_FILE_BYTES_REVERSED_HI'')]"

text \<open>\<open>dll_characteristics_declarations.h\<close>.\<close>

definition dll_characteristics :: "(u16 \<times> string) list" where
  "dll_characteristics = [
     (0x0001, ''IMAGE_LIBRARY_PROCESS_INIT''),
     (0x0002, ''IMAGE_LIBRARY_PROCESS_TERM''),
     (0x0004, ''IMAGE_LIBRARY_THREAD_INIT''),
     (0x0008, ''IMAGE_LIBRARY_THREAD_TERM''),
     (0x0020, ''IMAGE_DLLCHARACTERISTICS_HIGH_ENTROPY_VA''),
     (0x0040, ''IMAGE_DLLCHARACTERISTICS_DYNAMIC_BASE''),
     (0x0080, ''IMAGE_DLLCHARACTERISTICS_FORCE_INTEGRITY''),
     (0x0100, ''IMAGE_DLLCHARACTERISTICS_NX_COMPAT''),
     (0x0200, ''IMAGE_DLLCHARACTERISTICS_NO_ISOLATION''),
     (0x0400, ''IMAGE_DLLCHARACTERISTICS_NO_SEH''),
     (0x0800, ''IMAGE_DLLCHARACTERISTICS_NO_BIND''),
     (0x1000, ''IMAGE_DLLCHARACTERISTICS_APPCONTAINER''),
     (0x2000, ''IMAGE_DLLCHARACTERISTICS_WDM_DRIVER''),
     (0x4000, ''IMAGE_DLLCHARACTERISTICS_GUARD_CF''),
     (0x8000, ''IMAGE_DLLCHARACTERISTICS_TERMINAL_SERVER_AWARE'')]"

text \<open>\<open>subsystem_types_declarations.h\<close>.\<close>

definition subsystem_types :: "(u16 \<times> string) list" where
  "subsystem_types = [
     (0, ''IMAGE_SUBSYSTEM_UNKNOWN''),
     (1, ''IMAGE_SUBSYSTEM_NATIVE''),
     (2, ''IMAGE_SUBSYSTEM_WINDOWS_GUI''),
     (3, ''IMAGE_SUBSYSTEM_WINDOWS_CUI''),
     (5, ''IMAGE_SUBSYSTEM_OS2_CUI''),
     (7, ''IMAGE_SUBSYSTEM_POSIX_CUI''),
     (8, ''IMAGE_SUBSYSTEM_NATIVE_WINDOWS''),
     (9, ''IMAGE_SUBSYSTEM_WINDOWS_CE_GUI''),
     (10, ''IMAGE_SUBSYSTEM_EFI_APPLICATION''),
     (11, ''IMAGE_SUBSYSTEM_EFI_BOOT_SERVICE_DRIVER''),
     (12, ''IMAGE_SUBSYSTEM_EFI_RUNTIME_DRIVER''),
     (13, ''IMAGE_SUBSYSTEM_EFI_ROM''),
     (14, ''IMAGE_SUBSYSTEM_XBOX''),
     (16, ''IMAGE_SUBSYSTEM_WINDOWS_BOOT_APPLICATION'')]"

text \<open>\<open>MachineType::getNameByValue\<close>: a \<open>switch\<close>, so the declared values are distinct.\<close>

definition getNameByValue :: "u16 \<Rightarrow> string" where
  "getNameByValue v = (case map_of machine_types v of
     Some name \<Rightarrow> name | None \<Rightarrow> ''IMAGE_FILE_MACHINE_UNKNOWN'')"

text \<open>\<open>SectionCharacteristic::getNamesByValue\<close>: one \<open>if\<close> per declaration, in order.\<close>

fun getNamesByValue_loop :: "u32 \<Rightarrow> (u32 \<times> string) list \<Rightarrow> string list" where
  "getNamesByValue_loop s [] = []"
| "getNamesByValue_loop s ((v, name) # ds) =
     (if (s AND v) \<noteq> 0 then name # getNamesByValue_loop s ds else getNamesByValue_loop s ds)"

definition getNamesByValue :: "u32 \<Rightarrow> string list" where
  "getNamesByValue s = getNamesByValue_loop s section_characteristics"

section \<open>What the code reads from LIEF\<close>

record lief_section =
  ls_name :: bytes
  ls_sizeof_raw_data :: u32
  ls_virtual_size :: u32
  ls_virtual_address :: u64
  ls_entropy :: fl
  ls_characteristics :: u32

record lief_import_entry =
  li_is_ordinal :: bool
  li_ordinal :: u16
  li_name :: bytes

record lief_import =
  lm_name :: bytes
  lm_entries :: "lief_import_entry list"

record lief_export_entry =
  le_name :: bytes
  le_ordinal :: u16

record lief_header =
  lh_machine :: u16
  lh_numberof_sections :: u16
  lh_time_date_stamp :: u32
  lh_pointerto_symbol_table :: u32
  lh_numberof_symbols :: u32
  lh_sizeof_optional_header :: u16
  lh_characteristics :: u32

record lief_optional_header =
  lo_magic :: u16
  lo_major_linker_version :: u8
  lo_minor_linker_version :: u8
  lo_sizeof_code :: u32
  lo_sizeof_initialized_data :: u32
  lo_sizeof_uninitialized_data :: u32
  lo_addressof_entrypoint :: u32
  lo_baseof_code :: u32
  lo_imagebase :: u64
  lo_section_alignment :: u32
  lo_sizeof_image :: u32
  lo_sizeof_headers :: u32
  lo_checksum :: u32
  lo_subsystem :: u16
  lo_dll_characteristics :: u32
  lo_major_operating_system_version :: u16
  lo_minor_operating_system_version :: u16
  lo_major_image_version :: u16
  lo_minor_image_version :: u16
  lo_major_subsystem_version :: u16
  lo_minor_subsystem_version :: u16
  lo_sizeof_stack_reserve :: u64
  lo_sizeof_stack_commit :: u64
  lo_sizeof_heap_reserve :: u64
  lo_sizeof_heap_commit :: u64
  lo_numberof_rva_and_size :: u32

record lief_data_directory =
  ld_RVA :: u32
  ld_size :: u32

section \<open>Sections\<close>

record pe_section =
  sec_name :: bytes
  sizeRaw :: u32
  vsize :: u32
  vaddr :: u64
  sec_entropy :: fl
  sizeRatio :: fl
  vsizeRatio :: fl
  characteristics :: u32

text \<open>The end of the section is computed in 64 bits and may wrap around.\<close>

definition containsRVA :: "pe_section \<Rightarrow> u64 \<Rightarrow> bool" where
  "containsRVA s rva = (let end = vaddr s + max (ucast (vsize s)) (ucast (sizeRaw s))
                        in vaddr s \<le> rva \<and> rva < end)"

definition hasCharacteristic :: "pe_section \<Rightarrow> u32 \<Rightarrow> bool" where
  "hasCharacteristic s chr \<longleftrightarrow> (characteristics s AND chr) \<noteq> 0"

text \<open>\<open>::tolower\<close> in the C locale: the ASCII capitals, every other byte is kept.\<close>

definition tolower :: "u8 \<Rightarrow> u8" where
  "tolower b = (if 65 \<le> b \<and> b \<le> 90 then b + 32 else b)"

definition section_of :: "size_t \<Rightarrow> lief_section \<Rightarrow> pe_section" where
  "section_of fileSize s =
     \<lparr>sec_name = map tolower (takeWhile (\<lambda>b. b \<noteq> 0) (ls_name s)),
      sizeRaw = ls_sizeof_raw_data s, vsize = ls_virtual_size s, vaddr = ls_virtual_address s,
      sec_entropy = ls_entropy s,
      sizeRatio = (if fileSize \<noteq> 0
                   then fl_div f64 (fl_of_word f64 (ls_sizeof_raw_data s)) (fl_of_word f64 fileSize)
                   else fl_zero),
      vsizeRatio = (if ls_virtual_size s \<noteq> 0
                    then fl_div f64 (fl_of_word f64 (ls_sizeof_raw_data s))
                           (fl_of_word f64 (max (ls_virtual_size s) 1))
                    else fl_zero),
      characteristics = ls_characteristics s\<rparr>"

definition sections_listFromPEFile :: "lief_section list \<Rightarrow> size_t \<Rightarrow> pe_section list" where
  "sections_listFromPEFile ss fileSize = map (section_of fileSize) ss"

section \<open>Imports and exports\<close>

record import_function =
  if_name :: bytes
  if_ordinal :: u16

record import_library =
  dllName :: bytes
  lib_functions :: "import_function list"

definition import_of :: "lief_import_entry \<Rightarrow> import_function" where
  "import_of e = (if li_is_ordinal e then \<lparr>if_name = [], if_ordinal = li_ordinal e\<rparr>
                  else \<lparr>if_name = li_name e, if_ordinal = 0\<rparr>)"

definition library_of :: "lief_import \<Rightarrow> import_library" where
  "library_of m = \<lparr>dllName = map tolower (lm_name m), lib_functions = map import_of (lm_entries m)\<rparr>"

definition imports_listFromPEFile :: "lief_import list \<Rightarrow> import_library list" where
  "imports_listFromPEFile ms = map library_of ms"

record export_function =
  ef_name :: bytes
  ef_ordinal :: u16

definition export_of :: "lief_export_entry \<Rightarrow> export_function" where
  "export_of e = \<lparr>ef_name = le_name e, ef_ordinal = le_ordinal e\<rparr>"

definition exports_listFromPEFile :: "lief_export_entry list option \<Rightarrow> export_function list" where
  "exports_listFromPEFile ex = (case ex of None \<Rightarrow> [] | Some es \<Rightarrow> map export_of es)"

section \<open>Data directories\<close>

datatype data_directory_name = EXPORT | IMPORT | RESOURCE | EXCEPTION | SECURITY | BASERELOC | DEBUG
  | COPYRIGHT | GLOBALPTR | TLS | LOAD_CONFIG | BOUND_IMPORT | IAT | DELAY_IMPORT | COM_DESCRIPTOR | RESERVED

text \<open>The enumerators in order; \<open>NUM_DIRECTORY_NAMES\<close> is their number.\<close>

definition directory_names :: "data_directory_name list" where
  "directory_names = [EXPORT, IMPORT, RESOURCE, EXCEPTION, SECURITY, BASERELOC, DEBUG, COPYRIGHT,
     GLOBALPTR, TLS, LOAD_CONFIG, BOUND_IMPORT, IAT, DELAY_IMPORT, COM_DESCRIPTOR, RESERVED]"

record data_directory =
  dd_index :: data_directory_name
  virtualAddress :: u32
  dd_size :: u32

definition directories_listFromPEFile :: "lief_data_directory list \<Rightarrow> data_directory list" where
  "directories_listFromPEFile ds =
     (let N = min (length ds) (length directory_names)
      in map (\<lambda>i. \<lparr>dd_index = directory_names ! i, virtualAddress = ld_RVA (ds ! i), dd_size = ld_size (ds ! i)\<rparr>)
           [0..<N])"

section \<open>The DOS header\<close>

record dos_header =
  e_magic :: u16
  e_cblp :: u16
  e_cp :: u16
  e_crlc :: u16
  e_cparhdr :: u16
  e_minalloc :: u16
  e_maxalloc :: u16
  e_ss :: u16
  e_sp :: u16
  e_csum :: u16
  e_ip :: u16
  e_cs :: u16
  e_lfarlc :: u16
  e_ovno :: u16
  e_res :: "u16 list"
  e_oemid :: u16
  e_oeminfo :: u16
  e_res2 :: "u16 list"
  e_lfanew :: u32

definition field16 :: "bytes \<Rightarrow> nat \<Rightarrow> u16" where
  "field16 b i = le_bytes (take 2 (drop i b))"

text \<open>The 64 bytes of the packed structure, read as its fields.\<close>

definition dos_of_bytes :: "bytes \<Rightarrow> dos_header" where
  "dos_of_bytes b =
     \<lparr>e_magic = field16 b 0, e_cblp = field16 b 2, e_cp = field16 b 4, e_crlc = field16 b 6,
      e_cparhdr = field16 b 8, e_minalloc = field16 b 10, e_maxalloc = field16 b 12, e_ss = field16 b 14,
      e_sp = field16 b 16, e_csum = field16 b 18, e_ip = field16 b 20, e_cs = field16 b 22,
      e_lfarlc = field16 b 24, e_ovno = field16 b 26, e_res = map (\<lambda>i. field16 b (28 + 2 * i)) [0..<4],
      e_oemid = field16 b 36, e_oeminfo = field16 b 38, e_res2 = map (\<lambda>i. field16 b (40 + 2 * i)) [0..<10],
      e_lfanew = le_bytes (take 4 (drop 60 b))\<rparr>"

definition dos_zero :: dos_header where
  "dos_zero = dos_of_bytes (replicate 64 0)"

definition DOS_HEADER_SIZE :: size_t where "DOS_HEADER_SIZE = 64"
definition IMAGE_DOS_SIGNATURE :: u16 where "IMAGE_DOS_SIGNATURE = 0x5A4D"
definition IMAGE_DOSZM_SIGNATURE :: u16 where "IMAGE_DOSZM_SIGNATURE = 0x4D5A"

definition dos_fromPEFile :: "bytes \<Rightarrow> size_t \<Rightarrow> dos_header res" where
  "dos_fromPEFile fileContent fileSize =
     (if fileSize < DOS_HEADER_SIZE then Inr dos_zero
      else bnd (load_list fileContent 0 64) (\<lambda>b.
        let dh = dos_of_bytes b
        in if e_magic dh = IMAGE_DOSZM_SIGNATURE then Inr dos_zero
           else if e_magic dh \<noteq> IMAGE_DOS_SIGNATURE then Inr dos_zero
           else if fileSize < ucast (e_lfanew dh) then Inr dos_zero
           else Inr dh))"

section \<open>The COFF and the optional header\<close>

record coff_header =
  Machine :: u16
  NumberOfSections :: u16
  TimeDateStamp :: u32
  PointerToSymbolTable :: u32
  NumberOfSymbols :: u32
  SizeOfOptionalHeader :: u16
  Characteristics :: u16

definition coff_zero :: coff_header where
  "coff_zero = \<lparr>Machine = 0, NumberOfSections = 0, TimeDateStamp = 0, PointerToSymbolTable = 0,
     NumberOfSymbols = 0, SizeOfOptionalHeader = 0, Characteristics = 0\<rparr>"

definition coff_fromPEFile :: "lief_header \<Rightarrow> coff_header" where
  "coff_fromPEFile h =
     \<lparr>Machine = lh_machine h, NumberOfSections = lh_numberof_sections h,
      TimeDateStamp = lh_time_date_stamp h, PointerToSymbolTable = lh_pointerto_symbol_table h,
      NumberOfSymbols = lh_numberof_symbols h, SizeOfOptionalHeader = lh_sizeof_optional_header h,
      Characteristics = ucast (lh_characteristics h)\<rparr>"

record optional_header =
  Magic :: u16
  MajorLinkerVersion :: u8
  MinorLinkerVersion :: u8
  SizeOfCode :: u32
  SizeOfInitializedData :: u32
  SizeOfUninitializedData :: u32
  AddressOfEntryPoint :: u32
  BaseOfCode :: u32
  ImageBase :: u64
  SectionAlignment :: u32
  SizeOfImage :: u32
  SizeOfHeaders :: u32
  CheckSum :: u32
  Subsystem :: u16
  DllCharacteristics :: u16
  MajorOperatingSystemVersion :: u16
  MinorOperatingSystemVersion :: u16
  MajorImageVersion :: u16
  MinorImageVersion :: u16
  MajorSubsystemVersion :: u16
  MinorSubsystemVersion :: u16
  SizeOfStackReserve :: u32
  SizeOfStackCommit :: u32
  SizeOfHeapReserve :: u32
  SizeOfHeapCommit :: u32
  NumberOfRvaAndSizes :: u32

definition optional_zero :: optional_header where
  "optional_zero =
     \<lparr>Magic = 0, MajorLinkerVersion = 0, MinorLinkerVersion = 0, SizeOfCode = 0, SizeOfInitializedData = 0,
      SizeOfUninitializedData = 0, AddressOfEntryPoint = 0, BaseOfCode = 0, ImageBase = 0,
      SectionAlignment = 0, SizeOfImage = 0, SizeOfHeaders = 0, CheckSum = 0, Subsystem = 0,
      DllCharacteristics = 0, MajorOperatingSystemVersion = 0, MinorOperatingSystemVersion = 0,
      MajorImageVersion = 0, MinorImageVersion = 0, MajorSubsystemVersion = 0, MinorSubsystemVersion = 0,
      SizeOfStackReserve = 0, SizeOfStackCommit = 0, SizeOfHeapReserve = 0, SizeOfHeapCommit = 0,
      NumberOfRvaAndSizes = 0\<rparr>"

text \<open>The reserve and commit sizes of a 64-bit image are cut to 32 bits.\<close>

definition optional_fromPEFile :: "lief_optional_header \<Rightarrow> optional_header" where
  "optional_fromPEFile o' =
     \<lparr>Magic = lo_magic o', MajorLinkerVersion = lo_major_linker_version o',
      MinorLinkerVersion = lo_minor_linker_version o', SizeOfCode = lo_sizeof_code o',
      SizeOfInitializedData = lo_sizeof_initialized_data o',
      SizeOfUninitializedData = lo_sizeof_uninitialized_data o',
      AddressOfEntryPoint = lo_addressof_entrypoint o', BaseOfCode = lo_baseof_code o',
      ImageBase = lo_imagebase o', SectionAlignment = lo_section_alignment o',
      SizeOfImage = lo_sizeof_image o', SizeOfHeaders = lo_sizeof_headers o', CheckSum = lo_checksum o',
      Subsystem = lo_subsystem o', DllCharacteristics = ucast (lo_dll_characteristics o'),
      MajorOperatingSystemVersion = lo_major_operating_system_version o',
      MinorOperatingSystemVersion = lo_minor_operating_system_version o',
      MajorImageVersion = lo_major_image_version o', MinorImageVersion = lo_minor_image_version o',
      MajorSubsystemVersion = lo_major_subsystem_version o',
      MinorSubsystemVersion = lo_minor_subsystem_version o',
      SizeOfStackReserve = ucast (lo_sizeof_stack_reserve o'),
      SizeOfStackCommit = ucast (lo_sizeof_stack_commit o'),
      SizeOfHeapReserve = ucast (lo_sizeof_heap_reserve o'),
      SizeOfHeapCommit = ucast (lo_sizeof_heap_commit o'),
      NumberOfRvaAndSizes = lo_numberof_rva_and_size o'\<rparr>"

section \<open>Properties\<close>

text \<open>
  A section contains exactly the addresses from its virtual address up to the larger of its
  two sizes, as long as that end fits into 64 bits; a section whose end wraps around contains
  no address at all.
\<close>

theorem containsRVA_interval:
  "containsRVA s rva \<longleftrightarrow>
     unat (vaddr s) + max (unat (vsize s)) (unat (sizeRaw s)) < 2 ^ 64 \<and>
     unat (vaddr s) \<le> unat rva \<and> unat rva < unat (vaddr s) + max (unat (vsize s)) (unat (sizeRaw s))"
proof -
  let ?m = "max (ucast (vsize s)) (ucast (sizeRaw s)) :: u64"
  have small: "unat (vsize s) < 2 ^ 32" "unat (sizeRaw s) < 2 ^ 32"
    using unat_bound [of "vsize s"] unat_bound [of "sizeRaw s"] by simp_all
  have m: "unat ?m = max (unat (vsize s)) (unat (sizeRaw s))"
    by (simp add: max_def word_le_nat_alt unat_ucast_up)
  have a: "unat (vaddr s) < 2 ^ 64" using unat_bound [of "vaddr s"] by simp
  show ?thesis
  proof (cases "unat (vaddr s) + unat ?m < 2 ^ 64")
    case True
    then have "unat (vaddr s + ?m) = unat (vaddr s) + unat ?m" by (simp add: unat_word_ariths)
    then show ?thesis using True m
      by (simp add: containsRVA_def Let_def word_le_nat_alt word_less_nat_alt)
  next
    case False
    have "unat ?m < 2 ^ 32" using m small by (simp add: max_def)
    then have big: "unat ?m \<le> 2 ^ 64" by simp
    have "unat (vaddr s + ?m) = (unat (vaddr s) + unat ?m) mod 2 ^ 64" by (simp add: unat_word_ariths)
    moreover have "(unat (vaddr s) + unat ?m) mod 2 ^ 64 = unat (vaddr s) + unat ?m - 2 ^ 64"
      using False a \<open>unat ?m < 2 ^ 32\<close> by (subst le_mod_geq) simp_all
    ultimately have "unat (vaddr s + ?m) \<le> unat (vaddr s)"
      using big by linarith
    then show ?thesis using False m
      by (auto simp: containsRVA_def Let_def word_le_nat_alt word_less_nat_alt)
  qed
qed

text \<open>
  C36. Reading the DOS header never leaves the file. Its fields are the little-endian words at
  their offsets (\<open>e_lfanew\<close> at 60) exactly when the file has 64 bytes, starts with \<open>MZ\<close> and
  points inside itself; in every other case, \<open>ZM\<close> files included, all fields are zero.
\<close>

theorem dos_header_accepts:
  assumes "length f < 2 ^ 64"
  shows "dos_fromPEFile f (of_nat (length f)) =
    Inr (if 64 \<le> length f \<and> take 2 f = lit ''MZ'' \<and> unat (le_bytes (take 4 (drop 60 f)) :: u32) \<le> length f
         then dos_of_bytes (take 64 f) else dos_zero)"
proof -
  have size: "unat (of_nat (length f) :: size_t) = length f" using assms by (intro unat_of_nat_small) simp
  have lt: "(of_nat (length f) :: size_t) < DOS_HEADER_SIZE \<longleftrightarrow> length f < 64"
    by (simp add: DOS_HEADER_SIZE_def word_less_nat_alt size)
  have magic: "field16 (take 64 f) 0 = IMAGE_DOS_SIGNATURE \<longleftrightarrow> take 2 f = lit ''MZ''" if "64 \<le> length f"
  proof -
    have "IMAGE_DOS_SIGNATURE = le_bytes (lit ''MZ'')" by code_simp
    moreover have "length (take 2 f) = length (lit ''MZ'')" "8 * length (take 2 f) \<le> LENGTH(16)"
      using that by (simp_all add: lit_def)
    moreover have "field16 (take 64 f) 0 = le_bytes (take 2 f)" by (simp add: field16_def)
    ultimately show ?thesis using le_bytes_inj [of "take 2 f" "lit ''MZ''", where 'w = 16] by metis
  qed
  have lfanew: "(of_nat (length f) :: size_t) < ucast (w :: u32) \<longleftrightarrow> length f < unat w" for w
    by (simp add: word_less_nat_alt size unat_ucast_up)
  have "e_magic (dos_of_bytes b) = field16 b 0" "e_lfanew (dos_of_bytes b) = le_bytes (take 4 (drop 60 b))" for b
    by (simp_all add: dos_of_bytes_def)
  moreover have "IMAGE_DOS_SIGNATURE \<noteq> IMAGE_DOSZM_SIGNATURE"
    by (simp add: IMAGE_DOS_SIGNATURE_def IMAGE_DOSZM_SIGNATURE_def)
  moreover have "take 4 (drop 60 (take 64 f)) = take 4 (drop 60 f)" by (simp add: take_drop)
  moreover have "load_list f 0 64 = Inr (take 64 f)" if "64 \<le> length f" using that by (simp add: load_list_def)
  ultimately show ?thesis
    using magic by (cases "64 \<le> length f"; cases "field16 (take 64 f) 0 = IMAGE_DOS_SIGNATURE")
      (simp_all add: dos_fromPEFile_def lt Let_def lfanew not_less)
qed

theorem dos_header_accepts_witness:
  "dos_fromPEFile (lit ''MZ'' @ replicate 58 0 @ [64, 0, 0, 0]) 64 =
   Inr (dos_of_bytes (lit ''MZ'' @ replicate 58 0 @ [64, 0, 0, 0]))"
  using dos_header_accepts [of "lit ''MZ'' @ replicate 58 0 @ [64, 0, 0, 0]"] by (simp add: lit_def)

text \<open>
  Every declared machine type has its own value, so the \<open>switch\<close> of \<open>getNameByValue\<close> is a
  function of the table; and \<open>getNamesByValue\<close> lists, in the order of the declarations and
  without loss, exactly the declared characteristics that share a bit with the value.
\<close>

theorem names_by_value:
  "distinct (map fst machine_types) \<and>
   (\<forall>(v, n) \<in> set machine_types. getNameByValue v = n) \<and>
   getNamesByValue s = map snd (filter (\<lambda>(v, n). (s AND v) \<noteq> 0) section_characteristics)"
proof (intro conjI)
  show d: "distinct (map fst machine_types)" by code_simp
  show "\<forall>(v, n) \<in> set machine_types. getNameByValue v = n"
    using d by (auto simp: getNameByValue_def)
  have "getNamesByValue_loop s ds = map snd (filter (\<lambda>(v, n). (s AND v) \<noteq> 0) ds)" for ds
    by (induction ds) auto
  then show "getNamesByValue s = map snd (filter (\<lambda>(v, n). (s AND v) \<noteq> 0) section_characteristics)"
    by (simp add: getNamesByValue_def)
qed

theorem names_by_value_witness:
  "getNameByValue 0x8664 = ''IMAGE_FILE_MACHINE_AMD64'' \<and> getNamesByValue 0x60000000 = [''MEM_EXECUTE'', ''MEM_READ'']"
proof -
  have "(0x8664, ''IMAGE_FILE_MACHINE_AMD64'') \<in> set machine_types" by (simp add: machine_types_def)
  moreover have "map snd (filter (\<lambda>(v, n). (0x60000000 AND v) \<noteq> 0) section_characteristics) =
      [''MEM_EXECUTE'', ''MEM_READ'']"
    by code_simp
  ultimately show ?thesis using names_by_value [of "0x60000000"] by auto
qed

lemma fl64_of_nat:
  assumes "0 < n" "n \<le> 2 ^ 64"
  shows "\<exists>q. fl_of_nat f64 n = Fin False q \<and> 1 \<le> q"
proof -
  have "(of_nat n :: rat) \<le> of_nat (2 ^ 64)" using assms(2) by (simp only: of_nat_le_iff)
  then have "(of_nat n :: rat) \<le> p2 64" by (simp add: p2_def)
  then have "round_mag f64 (of_nat n) \<le> p2 64" by (intro round_le_rep rep_mag_p2) auto
  moreover have "p2 64 < p2 (emax f64 + 1)" by (simp add: p2_less_iff)
  moreover have "round_mag f64 1 \<le> round_mag f64 (of_nat n)" using assms(1) by (intro round_mono) auto
  moreover have "round_mag f64 1 = 1" using rep_mag_of_int [of f64 1] by (intro round_rep) simp
  ultimately show ?thesis by (auto simp: fl_of_nat_def fl_round_def Let_def)
qed

lemma fl_div_ratio:
  fixes a :: u32
  assumes "0 < n" "n \<le> 2 ^ 64"
  shows "\<exists>q. fl_div f64 (fl_of_word f64 a) (fl_of_nat f64 n) = Fin False q \<and> 0 \<le> q \<and> q \<le> p2 32 \<and>
             (unat a \<le> n \<longrightarrow> q \<le> 1)"
proof -
  have "unat a < 2 ^ 32" using unat_bound [of a] by simp
  then have a: "fl_of_word f64 a = Fin False (of_nat (unat a))"
    unfolding fl_of_word_def by (intro fl_of_nat_exact) simp_all
  obtain d where d: "fl_of_nat f64 n = Fin False d" "1 \<le> d" using fl64_of_nat [OF assms] by blast
  define k where "k = unat a"
  have "(of_nat k :: rat) \<le> of_nat (2 ^ 32)" using \<open>unat a < 2 ^ 32\<close> by (simp only: of_nat_le_iff k_def)
  then have k: "(of_nat k :: rat) \<le> p2 32" "0 \<le> (of_nat k :: rat)" by (simp_all add: p2_def)
  have "of_nat k / d \<le> p2 32 / 1" using k d(2) by (intro frac_le) auto
  then have q: "0 \<le> of_nat k / d" "of_nat k / d \<le> p2 32" using k d(2) by simp_all
  then have r: "0 \<le> round_mag f64 (of_nat k / d)" "round_mag f64 (of_nat k / d) \<le> p2 32"
    using round_le_rep [OF wf_fmt_f64 q] rep_mag_p2 [of f64 32] by (simp_all add: round_nonneg)
  moreover have "p2 32 < p2 (emax f64 + 1)" by (simp add: p2_less_iff)
  ultimately have div: "fl_div f64 (Fin False (of_nat k)) (Fin False d) = Fin False (round_mag f64 (of_nat k / d))"
    using d(2) by (simp add: fl_round_def Let_def)
  have "round_mag f64 (of_nat k / d) \<le> 1" if "k \<le> n"
  proof -
    have "\<exists>p. fl_of_nat f64 k = Fin False p \<and> 0 \<le> p \<and> p \<le> d" by (rule fl_of_nat_mono [OF _ that d(1)]) simp
    moreover have "fl_of_nat f64 k = Fin False (of_nat k)" using a by (simp add: fl_of_word_def k_def)
    ultimately have "of_nat k \<le> d" by auto
    then show ?thesis using d(2) k(2) by (intro round_le_one) simp_all
  qed
  then show ?thesis using div r unfolding a d(1) by (simp flip: k_def)
qed

lemma tolower_range:
  assumes "b \<noteq> 0"
  shows "tolower b \<noteq> 0 \<and> \<not> (65 \<le> tolower b \<and> tolower b \<le> 90)"
proof (cases "65 \<le> b \<and> b \<le> 90")
  case True
  then have u: "65 \<le> unat b" "unat b \<le> 90" by (simp_all add: word_le_nat_alt)
  then have "unat (b + 32) = unat b + 32" by (simp add: unat_word_ariths)
  then have "90 < unat (tolower b)" using True u by (simp add: tolower_def)
  then show ?thesis by (auto simp: word_le_nat_alt)
qed (use assms in \<open>auto simp: tolower_def\<close>)

text \<open>
  What \<open>PESection::listFromPEFile\<close> computes for any parsed section and any file size is
  finite: both ratios are between zero and \<open>2 ^ 32\<close> (a size of zero does not divide), the size
  ratio is at most one when the section fits into the file, and the name holds no zero byte and
  no capital letter.
\<close>

theorem section_of_wf:
  "\<exists>q r. sizeRatio (section_of n s) = Fin False q \<and> vsizeRatio (section_of n s) = Fin False r \<and>
     0 \<le> q \<and> q \<le> p2 32 \<and> 0 \<le> r \<and> r \<le> p2 32 \<and>
     (unat (ls_sizeof_raw_data s) \<le> unat n \<longrightarrow> q \<le> 1) \<and>
     (\<forall>b \<in> set (sec_name (section_of n s)). b \<noteq> 0 \<and> \<not> (65 \<le> b \<and> b \<le> 90))"
proof -
  have "\<exists>q. sizeRatio (section_of n s) = Fin False q \<and> 0 \<le> q \<and> q \<le> p2 32 \<and>
      (unat (ls_sizeof_raw_data s) \<le> unat n \<longrightarrow> q \<le> 1)"
    using fl_div_ratio [of "unat n" "ls_sizeof_raw_data s"] unat_bound [of n]
    by (auto simp: section_of_def fl_of_word_def [of _ n] unat_gt_0 fl_zero_def)
  moreover have "\<exists>r. vsizeRatio (section_of n s) = Fin False r \<and> 0 \<le> r \<and> r \<le> p2 32"
  proof (cases "ls_virtual_size s = 0")
    case False
    then have "1 \<le> ls_virtual_size s" by (simp add: word_le_nat_alt unat_gt_0 Suc_le_eq)
    then have "max (ls_virtual_size s) 1 = ls_virtual_size s" by (rule max_absorb1)
    then show ?thesis
      using False fl_div_ratio [of "unat (ls_virtual_size s)" "ls_sizeof_raw_data s"]
        unat_bound [of "ls_virtual_size s"]
      by (auto simp: section_of_def fl_of_word_def [of _ "ls_virtual_size s"] unat_gt_0)
  qed (simp add: section_of_def fl_zero_def)
  moreover have "\<forall>b \<in> set (sec_name (section_of n s)). b \<noteq> 0 \<and> \<not> (65 \<le> b \<and> b \<le> 90)"
  proof
    fix b assume "b \<in> set (sec_name (section_of n s))"
    then obtain c where "b = tolower c" "c \<in> set (takeWhile (\<lambda>b. b \<noteq> 0) (ls_name s))"
      by (auto simp: section_of_def)
    then show "b \<noteq> 0 \<and> \<not> (65 \<le> b \<and> b \<le> 90)" using tolower_range [of c] by (auto dest: set_takeWhileD)
  qed
  ultimately show ?thesis by blast
qed

theorem section_of_wf_witness:
  "unat (ls_sizeof_raw_data \<lparr>ls_name = lit ''.TEXT'', ls_sizeof_raw_data = 512, ls_virtual_size = 0,
     ls_virtual_address = 4096, ls_entropy = fl_zero, ls_characteristics = 0x60000020\<rparr>) \<le> unat (1024 :: size_t) \<and>
   (\<exists>q. sizeRatio (section_of 1024 \<lparr>ls_name = lit ''.TEXT'', ls_sizeof_raw_data = 512, ls_virtual_size = 0,
     ls_virtual_address = 4096, ls_entropy = fl_zero, ls_characteristics = 0x60000020\<rparr>) = Fin False q \<and> q \<le> 1)"
  using section_of_wf [of 1024 "\<lparr>ls_name = lit ''.TEXT'', ls_sizeof_raw_data = 512, ls_virtual_size = 0,
     ls_virtual_address = 4096, ls_entropy = fl_zero, ls_characteristics = 0x60000020\<rparr>"] by auto

end
