(* ===== verification/Authenticode.thy ===== *)
theory Authenticode
  imports PETypes Timestamps
begin

text \<open>
  \<open>pefile/src/authenticode_signature.cpp\<close>. The parsed signatures come from LIEF and from
  \<open>authenticode-parser\<close>; the datatypes below hold what the code reads from them. An attribute
  carries the result of its \<open>cast\<close> (\<open>None\<close> for the null pointer), and the signers nested inside
  attributes make the structure a tree.
\<close>

section \<open>What the code reads from the parsers\<close>

datatype attribute =
    Opus "bytes option"
  | SigningTime "time_array_t option"
  | CounterSig "signer option"
  | MsCounter "signer list option"
  | Nested "signer list option"
  | OtherAttribute
and signer = Signer (authenticated_attributes: "attribute list") (unauthenticated_attributes: "attribute list")

record lief_signature =
  sig_check_ok :: bool
  sig_signers :: "signer list"
  sig_certificates :: "(bytes \<times> bytes) list"

text \<open>
  The result of \<open>parse_authenticode\<close>: per signature its counter-signatures, by their signing
  time; a null pointer at each level is \<open>None\<close>.
\<close>

type_synonym avast_result = "u64 list option option list option"

section \<open>Program name and signing time\<close>

fun find_opus :: "attribute list \<Rightarrow> bytes option option" where
  "find_opus [] = None"
| "find_opus (Opus x # as) = Some x"
| "find_opus (a # as) = find_opus as"

fun signers_program_name :: "signer list \<Rightarrow> bytes" where
  "signers_program_name [] = []"
| "signers_program_name (s # ss) =
     (case find_opus (authenticated_attributes s) of
        None \<Rightarrow> signers_program_name ss
      | Some None \<Rightarrow> signers_program_name ss
      | Some (Some name) \<Rightarrow> if name = [] then signers_program_name ss else name)"

definition getSignatureProgramName :: "lief_signature \<Rightarrow> bytes" where
  "getSignatureProgramName sig = signers_program_name (sig_signers sig)"

fun find_signing_time :: "attribute list \<Rightarrow> time_array_t option option" where
  "find_signing_time [] = None"
| "find_signing_time (SigningTime x # as) = Some x"
| "find_signing_time (a # as) = find_signing_time as"

text \<open>\<open>get_attribute\<close> looks through the authenticated attributes first.\<close>

definition getSigningTimeFromSigner :: "signer \<Rightarrow> u64 res" where
  "getSigningTimeFromSigner s =
     (case find_signing_time (authenticated_attributes s @ unauthenticated_attributes s) of
        None \<Rightarrow> Inr 0
      | Some None \<Rightarrow> Inr 0
      | Some (Some t) \<Rightarrow> to_timestamp_utc t)"

section \<open>Counter-signatures\<close>

record counter_signature_info =
  hasCounterSigner :: bool
  signingTime :: u64

definition no_counter_signature :: counter_signature_info where
  "no_counter_signature = \<lparr>hasCounterSigner = False, signingTime = 0\<rparr>"

text \<open>
  The loop over nested signers: the first with a signing time ends the search, the others are
  queued. The result says whether the search ended.
\<close>

type_synonym search = "bool \<times> signer list \<times> counter_signature_info"

fun inspect_signers :: "signer list \<Rightarrow> signer list \<Rightarrow> counter_signature_info \<Rightarrow> search res" where
  "inspect_signers [] q info = Inr (False, q, info)"
| "inspect_signers (s # ss) q info = bnd (getSigningTimeFromSigner s) (\<lambda>t.
     if t \<noteq> 0 then Inr (True, q, \<lparr>hasCounterSigner = True, signingTime = t\<rparr>)
     else inspect_signers ss (q @ [s]) info)"

text \<open>A counter-signature attribute whose cast fails is dereferenced all the same.\<close>

fun inspectAttribute :: "attribute \<Rightarrow> signer list \<Rightarrow> counter_signature_info \<Rightarrow> search res" where
  "inspectAttribute (CounterSig None) q info = Inl Undefined"
| "inspectAttribute (CounterSig (Some s)) q info = inspect_signers [s] q info"
| "inspectAttribute (MsCounter (Some ss)) q info = inspect_signers ss q info"
| "inspectAttribute (Nested (Some ss)) q info = inspect_signers ss q info"
| "inspectAttribute a q info = Inr (False, q, info)"

fun inspect_all :: "attribute list \<Rightarrow> signer list \<Rightarrow> counter_signature_info \<Rightarrow> search res" where
  "inspect_all [] q info = Inr (False, q, info)"
| "inspect_all (a # as) q info = bnd (inspectAttribute a q info) (\<lambda>(found, q, info).
     if found then Inr (True, q, info) else inspect_all as q info)"

partial_function (option) counter_loop ::
  "signer list \<Rightarrow> counter_signature_info \<Rightarrow> counter_signature_info res option" where
  [code]: "counter_loop queue info = (case queue of
     [] \<Rightarrow> Some (Inr info)
   | s # q \<Rightarrow> (case inspect_all (authenticated_attributes s @ unauthenticated_attributes s) q info of
        Inl e \<Rightarrow> Some (Inl e)
      | Inr (found, q', info') \<Rightarrow> if found then Some (Inr info') else counter_loop q' info'))"

definition getCounterSignatureInfo :: "lief_signature \<Rightarrow> counter_signature_info res option" where
  "getCounterSignatureInfo sig = counter_loop (sig_signers sig) no_counter_signature"

text \<open>The version in use: the first positive signing time that \<open>authenticode-parser\<close> found.\<close>

definition avast_times :: "avast_result \<Rightarrow> u64 list" where
  "avast_times auth = (case auth of None \<Rightarrow> [] | Some sigs \<Rightarrow>
     concat (map (\<lambda>s. case s of Some (Some ts) \<Rightarrow> ts | _ \<Rightarrow> []) sigs))"

fun first_positive :: "u64 list \<Rightarrow> counter_signature_info" where
  "first_positive [] = no_counter_signature"
| "first_positive (t # ts) =
     (if 0 < sint t then \<lparr>hasCounterSigner = True, signingTime = t\<rparr> else first_positive ts)"

definition getCounterSignatureInfo_Avast :: "(bytes \<Rightarrow> avast_result) \<Rightarrow> bytes \<Rightarrow> counter_signature_info" where
  "getCounterSignatureInfo_Avast parse_authenticode data = first_positive (avast_times (parse_authenticode data))"

section \<open>The extracted information\<close>

record authenticode_info =
  numSignatures :: size_t
  numSelfSignedCerts :: size_t
  emptyProgramName :: bool
  noCounterSigner :: bool
  parseErrors :: size_t
  chainMaxDepth :: size_t
  latestSigningTime :: u64
  signingTimeDiff :: u64

definition authenticode_zero :: authenticode_info where
  "authenticode_zero = \<lparr>numSignatures = 0, numSelfSignedCerts = 0, emptyProgramName = False,
     noCounterSigner = False, parseErrors = 0, chainMaxDepth = 0, latestSigningTime = 0, signingTimeDiff = 0\<rparr>"

text \<open>One signature; the last certificate of the chain is skipped when looking for self-signed ones
  (\<open>int maxIndex\<close>, so a chain of up to \<open>2 ^ 31 - 1\<close> certificates).\<close>

definition self_signed :: "(bytes \<times> bytes) list \<Rightarrow> nat" where
  "self_signed certs =
     (let maxIndex = sint (of_nat (length certs) :: u32) - 1
      in length (filter (\<lambda>(issuer, subject). issuer = subject) (take (nat maxIndex) certs)))"

definition extract_signature :: "authenticode_info \<Rightarrow> lief_signature \<Rightarrow> authenticode_info" where
  "extract_signature info sig = info\<lparr>
     parseErrors := (if sig_check_ok sig then parseErrors info else parseErrors info + 1),
     emptyProgramName := (emptyProgramName info \<or> getSignatureProgramName sig = []),
     chainMaxDepth := max (chainMaxDepth info) (of_nat (length (sig_certificates sig))),
     numSelfSignedCerts := numSelfSignedCerts info + of_nat (self_signed (sig_certificates sig))\<rparr>"

text \<open>The subtraction of two \<open>int64_t\<close>: an overflow is undefined behaviour.\<close>

definition int64_sub :: "u64 \<Rightarrow> u64 \<Rightarrow> u64 res" where
  "int64_sub a b = (let d = sint a - sint b
                    in if - (2 ^ 63) \<le> d \<and> d < 2 ^ 63 then Inr (of_int d) else Inl Undefined)"

definition extractFromPEFile ::
  "(bytes \<Rightarrow> avast_result) \<Rightarrow> lief_signature list \<Rightarrow> u32 \<Rightarrow> bytes \<Rightarrow> authenticode_info res" where
  "extractFromPEFile parse_authenticode sigs time_date_stamp fileData =
     (if sigs = [] then Inr authenticode_zero
      else let info = foldl extract_signature (authenticode_zero\<lparr>numSignatures := of_nat (length sigs)\<rparr>) sigs;
               counter = getCounterSignatureInfo_Avast parse_authenticode fileData
           in if hasCounterSigner counter
              then bnd (int64_sub (signingTime counter) (ucast time_date_stamp)) (\<lambda>diff.
                Inr (info\<lparr>noCounterSigner := False,
                          latestSigningTime := max (latestSigningTime info) (signingTime counter),
                          signingTimeDiff := diff\<rparr>))
              else Inr (info\<lparr>noCounterSigner := True\<rparr>))"

section \<open>Counter-signers\<close>

text \<open>
  The signers that an attribute holds, the direct counter-signers of a signer, and all those
  nested below it at any depth.
\<close>

fun held_signers :: "attribute \<Rightarrow> signer list" where
  "held_signers (CounterSig (Some s)) = [s]"
| "held_signers (MsCounter (Some ss)) = ss"
| "held_signers (Nested (Some ss)) = ss"
| "held_signers a = []"

definition attributes_of :: "signer \<Rightarrow> attribute list" where
  "attributes_of s = authenticated_attributes s @ unauthenticated_attributes s"

definition direct_counter_signers :: "signer \<Rightarrow> signer list" where
  "direct_counter_signers s = concat (map held_signers (attributes_of s))"

inductive counter_signer :: "signer \<Rightarrow> signer \<Rightarrow> bool" for s where
  direct: "t \<in> set (direct_counter_signers s) \<Longrightarrow> counter_signer s t"
| deeper: "counter_signer s t \<Longrightarrow> u \<in> set (direct_counter_signers t) \<Longrightarrow> counter_signer s u"

lemma counter_signer_first:
  "counter_signer s u \<longleftrightarrow>
     u \<in> set (direct_counter_signers s) \<or> (\<exists>t \<in> set (direct_counter_signers s). counter_signer t u)"
proof
  show "counter_signer s u \<Longrightarrow>
      u \<in> set (direct_counter_signers s) \<or> (\<exists>t \<in> set (direct_counter_signers s). counter_signer t u)"
    by (induction rule: counter_signer.induct) (auto intro: counter_signer.intros)
  have "counter_signer t u \<Longrightarrow> t \<in> set (direct_counter_signers s) \<Longrightarrow> counter_signer s u" for t
    by (induction rule: counter_signer.induct) (auto intro: counter_signer.intros)
  then show "u \<in> set (direct_counter_signers s) \<or> (\<exists>t \<in> set (direct_counter_signers s). counter_signer t u) \<Longrightarrow>
      counter_signer s u"
    by (auto intro: counter_signer.intros)
qed

text \<open>All attributes of one signer are inspected as one list of signers.\<close>

lemma inspect_signers_append:
  "inspect_signers (ss @ ts) q info = bnd (inspect_signers ss q info) (\<lambda>(found, q, info).
     if found then Inr (True, q, info) else inspect_signers ts q info)"
  by (induction ss arbitrary: q) (auto simp: bnd_assoc intro!: bnd_cong)

lemma inspectAttribute_signers:
  "a \<noteq> CounterSig None \<Longrightarrow> inspectAttribute a q info = inspect_signers (held_signers a) q info"
  by (cases "(a, q, info)" rule: inspectAttribute.cases) auto

lemma inspect_all_signers:
  "CounterSig None \<notin> set as \<Longrightarrow>
   inspect_all as q info = inspect_signers (concat (map held_signers as)) q info"
  by (induction as arbitrary: q info)
    (auto simp: inspect_signers_append inspectAttribute_signers intro!: bnd_cong)

lemma inspect_signers_Inr:
  assumes "inspect_signers ss q info = Inr (found, q', info')"
  shows "(found \<longrightarrow> hasCounterSigner info' \<and> signingTime info' \<noteq> 0 \<and>
            (\<exists>t \<in> set ss. getSigningTimeFromSigner t = Inr (signingTime info'))) \<and>
         (\<not> found \<longrightarrow> q' = q @ ss \<and> info' = info \<and> (\<forall>t \<in> set ss. getSigningTimeFromSigner t = Inr 0))"
  using assms by (induction ss arbitrary: q) (fastforce simp: bnd_Inr_iff split: if_splits)+

lemma inspect_signers_total:
  "\<forall>t \<in> set ss. \<exists>x. getSigningTimeFromSigner t = Inr x \<Longrightarrow> \<exists>r. inspect_signers ss q info = Inr r"
  by (induction ss arbitrary: q) auto

text \<open>The measure of the search: the size of the trees in the queue.\<close>

definition queue_size :: "signer list \<Rightarrow> nat" where
  "queue_size q = sum_list (map size q)"

lemma held_signers_size: "queue_size (held_signers a) \<le> size a"
proof -
  have "sum_list (map size ss) \<le> size_list size ss" for ss :: "signer list"
    by (induction ss) auto
  then show ?thesis
    by (cases a rule: held_signers.cases) (auto simp: queue_size_def intro: le_SucI order_trans)
qed

lemma direct_counter_signers_size: "queue_size (direct_counter_signers s) < size s"
proof -
  have "queue_size (concat (map held_signers as)) \<le> size_list size as" for as
    using held_signers_size by (induction as) (auto simp: queue_size_def intro: add_mono le_SucI)
  from this [of "authenticated_attributes s"] this [of "unauthenticated_attributes s"] show ?thesis
    by (cases s) (simp add: direct_counter_signers_def attributes_of_def queue_size_def)
qed

text \<open>
  What the search may rely on: in every signer it reaches, the casts of the counter-signature
  attributes succeed and the signing time does not overflow.
\<close>

definition sound_signer :: "signer \<Rightarrow> bool" where
  "sound_signer s \<longleftrightarrow> CounterSig None \<notin> set (attributes_of s) \<and>
     (\<forall>t \<in> set (direct_counter_signers s). \<exists>x. getSigningTimeFromSigner t = Inr x)"

definition below :: "signer list \<Rightarrow> signer \<Rightarrow> bool" where
  "below q t \<longleftrightarrow> (\<exists>s \<in> set q. counter_signer s t)"

lemma below_unfold:
  "below (s # q) t \<longleftrightarrow> t \<in> set (direct_counter_signers s) \<or> below (q @ direct_counter_signers s) t"
  by (auto simp: below_def counter_signer_first [of s])

definition search_result :: "signer list \<Rightarrow> counter_signature_info \<Rightarrow> bool" where
  "search_result q info \<longleftrightarrow>
     (if hasCounterSigner info
      then signingTime info \<noteq> 0 \<and> (\<exists>t. below q t \<and> getSigningTimeFromSigner t = Inr (signingTime info))
      else signingTime info = 0 \<and> (\<forall>t. below q t \<longrightarrow> getSigningTimeFromSigner t = Inr 0))"

lemma counter_loop_result:
  assumes "\<forall>s \<in> set q. sound_signer s" "\<forall>s. below q s \<longrightarrow> sound_signer s"
  shows "\<exists>info. counter_loop q no_counter_signature = Some (Inr info) \<and> search_result q info"
  using assms
proof (induction "queue_size q" arbitrary: q rule: less_induct)
  case less
  show ?case
  proof (cases q)
    case Nil
    then show ?thesis
      by (auto simp: counter_loop.simps no_counter_signature_def search_result_def below_def)
  next
    case (Cons s rest)
    let ?ds = "direct_counter_signers s"
    have sound: "CounterSig None \<notin> set (attributes_of s)" "\<forall>t \<in> set ?ds. \<exists>x. getSigningTimeFromSigner t = Inr x"
      using less.prems(1) by (simp_all add: Cons sound_signer_def)
    obtain found q' i where ins: "inspect_signers ?ds rest no_counter_signature = Inr (found, q', i)"
      using inspect_signers_total [OF sound(2), of rest no_counter_signature] by auto
    have all: "inspect_all (authenticated_attributes s @ unauthenticated_attributes s) rest no_counter_signature
        = Inr (found, q', i)"
      using inspect_all_signers [OF sound(1)] ins by (simp add: direct_counter_signers_def attributes_of_def)
    show ?thesis
    proof (cases found)
      case True
      then show ?thesis
        using all inspect_signers_Inr [OF ins]
        by (auto simp: Cons counter_loop.simps search_result_def below_unfold [of s rest])
    next
      case False
      then have q': "q' = rest @ ?ds" "i = no_counter_signature" "\<forall>t \<in> set ?ds. getSigningTimeFromSigner t = Inr 0"
        using inspect_signers_Inr [OF ins] by auto
      have "queue_size (rest @ ?ds) < queue_size q"
        using direct_counter_signers_size [of s] by (simp add: Cons queue_size_def)
      moreover have "\<forall>t \<in> set (rest @ ?ds). sound_signer t" "\<forall>t. below (rest @ ?ds) t \<longrightarrow> sound_signer t"
        using less.prems by (auto simp: Cons below_unfold [of s rest])
      ultimately obtain info where "counter_loop (rest @ ?ds) no_counter_signature = Some (Inr info)"
          "search_result (rest @ ?ds) info"
        using less.hyps by blast
      then show ?thesis
        using False all q' by (auto simp: Cons counter_loop.simps search_result_def below_unfold [of s rest])
    qed
  qed
qed

text \<open>
  C34. The breadth-first search for a counter-signature returns, however the signers are nested.
  It reports a counter-signer exactly when some signer below the top level has a signing time,
  and then the time is that of such a signer and not zero. It relies on the casts of the
  counter-signature attributes: the null pointer of a failed cast would be dereferenced.
\<close>

theorem counter_signature_search:
  assumes "\<forall>s \<in> set (sig_signers sig). sound_signer s" "\<forall>s. below (sig_signers sig) s \<longrightarrow> sound_signer s"
  shows "\<exists>info. getCounterSignatureInfo sig = Some (Inr info) \<and>
    (hasCounterSigner info \<longleftrightarrow> (\<exists>t. below (sig_signers sig) t \<and> getSigningTimeFromSigner t \<noteq> Inr 0)) \<and>
    (if hasCounterSigner info
     then \<exists>t. below (sig_signers sig) t \<and> getSigningTimeFromSigner t = Inr (signingTime info) \<and> signingTime info \<noteq> 0
     else signingTime info = 0)"
proof -
  obtain info where "getCounterSignatureInfo sig = Some (Inr info)" "search_result (sig_signers sig) info"
    using counter_loop_result [OF assms] by (auto simp: getCounterSignatureInfo_def)
  then show ?thesis
    by (intro exI [of _ info]) (auto simp: search_result_def split: if_splits)
qed

definition example_signer :: signer where
  "example_signer = Signer [] [CounterSig (Some (Signer [SigningTime (Some (1970, 1, 1, 0, 0, 7))] []))]"

theorem counter_signature_search_witness:
  "\<exists>info. getCounterSignatureInfo \<lparr>sig_check_ok = True, sig_signers = [example_signer], sig_certificates = []\<rparr>
     = Some (Inr info)"
proof -
  let ?c = "Signer [SigningTime (Some (1970, 1, 1, 0, 0, 7))] []"
  have d: "direct_counter_signers example_signer = [?c]" "direct_counter_signers ?c = []"
    by (simp_all add: direct_counter_signers_def attributes_of_def example_signer_def)
  have t: "\<exists>x. getSigningTimeFromSigner ?c = Inr x"
  proof -
    have "getSigningTimeFromSigner ?c = Inr 7" by code_simp
    then show ?thesis by blast
  qed
  have s: "sound_signer example_signer" "sound_signer ?c"
    using t by (simp_all add: sound_signer_def d) (simp_all add: attributes_of_def example_signer_def)
  have "counter_signer ?c u \<longleftrightarrow> False" for u by (subst counter_signer_first) (simp add: d)
  then have "counter_signer example_signer u \<longleftrightarrow> u = ?c" for u
    by (subst counter_signer_first) (simp add: d)
  then show ?thesis
    using counter_signature_search [of "\<lparr>sig_check_ok = True, sig_signers = [example_signer], sig_certificates = []\<rparr>"] s
    by (auto simp: below_def)
qed

section \<open>The extracted summary\<close>

lemma first_positive_find:
  "first_positive ts = (case find (\<lambda>t. 0 < sint t) ts of
     None \<Rightarrow> no_counter_signature
   | Some t \<Rightarrow> \<lparr>hasCounterSigner = True, signingTime = t\<rparr>)"
  by (induction ts) auto

text \<open>A positive time minus a 32-bit time stamp stays within \<open>int64_t\<close>.\<close>

lemma int64_sub_stamp:
  fixes stamp :: u32
  assumes "0 < sint t"
  shows "\<exists>d. int64_sub t (ucast stamp) = Inr d \<and> sint d = sint t - int (unat stamp)"
proof -
  define n where "n = unat stamp"
  have n: "n < 2 ^ 32" using unat_bound [of stamp] by (simp add: n_def)
  have "uint (ucast stamp :: u64) = int n"
    by (simp only: uint_nat unat_ucast_up [where 'a = 32 and 'b = 64] len_bit0 len_num1 n_def)
  then have s: "sint (ucast stamp :: u64) = int n"
    unfolding sint_uint using n by (simp add: signed_take_bit_int_eq_self)
  have t: "sint t < 2 ^ 63" using sint_lt [of t] by simp
  have "sint (word_of_int (sint t - int n) :: u64) = sint t - int n"
    unfolding signed_of_int of_int_eq_id id_apply using assms t n by (intro signed_take_bit_int_eq_self) simp_all
  then show ?thesis
    using assms t n by (auto simp: int64_sub_def s Let_def simp flip: n_def)
qed

definition signatures_summary :: "lief_signature list \<Rightarrow> authenticode_info \<Rightarrow> bool" where
  "signatures_summary sigs info \<longleftrightarrow>
     parseErrors info = of_nat (length (filter (\<lambda>s. \<not> sig_check_ok s) sigs)) \<and>
     emptyProgramName info = (\<exists>s \<in> set sigs. getSignatureProgramName s = []) \<and>
     chainMaxDepth info = fold (\<lambda>s. max (of_nat (length (sig_certificates s)))) sigs 0 \<and>
     numSelfSignedCerts info = of_nat (sum_list (map (self_signed \<circ> sig_certificates) sigs))"

lemma extract_signature_frame:
  "numSignatures (foldl extract_signature info sigs) = numSignatures info \<and>
   noCounterSigner (foldl extract_signature info sigs) = noCounterSigner info \<and>
   latestSigningTime (foldl extract_signature info sigs) = latestSigningTime info \<and>
   signingTimeDiff (foldl extract_signature info sigs) = signingTimeDiff info"
  by (induction sigs arbitrary: info) (simp_all add: extract_signature_def)

lemma extract_signature_summary:
  assumes "info = authenticode_zero\<lparr>numSignatures := n\<rparr>"
  shows "signatures_summary sigs (foldl extract_signature info sigs)"
  using assms
  by (induction sigs rule: rev_induct)
    (auto simp: signatures_summary_def extract_signature_def authenticode_zero_def max.commute add.commute)

lemma extractFromPEFile_summary:
  "\<exists>info. extractFromPEFile parse_authenticode sigs stamp f = Inr info \<and>
    (if sigs = [] then info = authenticode_zero
     else numSignatures info = of_nat (length sigs) \<and> signatures_summary sigs info \<and>
       (case find (\<lambda>t. 0 < sint t) (avast_times (parse_authenticode f)) of
          None \<Rightarrow> noCounterSigner info \<and> latestSigningTime info = 0 \<and> signingTimeDiff info = 0
        | Some t \<Rightarrow> \<not> noCounterSigner info \<and> latestSigningTime info = t \<and>
                    sint (signingTimeDiff info) = sint t - int (unat stamp)))"
proof (cases "sigs = []")
  case False
  let ?info = "foldl extract_signature (authenticode_zero\<lparr>numSignatures := of_nat (length sigs)\<rparr>) sigs"
  have fr: "numSignatures ?info = of_nat (length sigs)" "latestSigningTime ?info = 0" "signingTimeDiff ?info = 0"
    using extract_signature_frame [of "authenticode_zero\<lparr>numSignatures := of_nat (length sigs)\<rparr>" sigs]
    by (simp_all add: authenticode_zero_def)
  have sm: "signatures_summary sigs ?info" by (rule extract_signature_summary) simp
  show ?thesis
  proof (cases "find (\<lambda>t. 0 < sint t) (avast_times (parse_authenticode f))")
    case None
    then show ?thesis using False fr sm
      by (simp add: extractFromPEFile_def getCounterSignatureInfo_Avast_def first_positive_find Let_def
          no_counter_signature_def signatures_summary_def)
  next
    case (Some t)
    then have "0 < sint t" by (auto simp: find_Some_iff)
    then obtain d where "int64_sub t (ucast stamp) = Inr d" "sint d = sint t - int (unat stamp)"
      using int64_sub_stamp by blast
    then show ?thesis using False fr sm Some
      by (simp add: extractFromPEFile_def getCounterSignatureInfo_Avast_def first_positive_find Let_def
          signatures_summary_def)
  qed
qed (simp add: extractFromPEFile_def)

text \<open>
  C35. The extraction never fails. Without signatures everything is zero. Otherwise the counts
  and the depth are those of the signature list, and the counter-signer is the first positive
  signing time of the second parser: it is the latest signing time, its distance to the time
  stamp of the file is the exact difference (negative for a stamp in the future), and exactly
  when there is none \<open>noCounterSigner\<close> is set and both times stay zero.
\<close>

theorem authenticode_summary:
  "\<exists>info. extractFromPEFile parse_authenticode sigs stamp f = Inr info \<and>
    (if sigs = [] then info = authenticode_zero
     else numSignatures info = of_nat (length sigs) \<and> signatures_summary sigs info \<and>
       (case find (\<lambda>t. 0 < sint t) (avast_times (parse_authenticode f)) of
          None \<Rightarrow> noCounterSigner info \<and> latestSigningTime info = 0 \<and> signingTimeDiff info = 0
        | Some t \<Rightarrow> \<not> noCounterSigner info \<and> latestSigningTime info = t \<and>
                    sint (signingTimeDiff info) = sint t - int (unat stamp)))"
  by (rule extractFromPEFile_summary)

end
