(* ===== verification/PEFile.thy ===== *)
theory PEFile
  imports Authenticode
begin

text \<open>
  \<open>pefile/src/pefile.cpp\<close>: the parsed file with everything the feature types ask of it. The
  record \<open>binary\<close> holds what the code reads from a \<open>LIEF::PE::Binary\<close>; the parser itself and
  \<open>authenticode-parser\<close> are arguments.
\<close>

section \<open>What the code reads from the parser\<close>

record binary =
  b_sections :: "lief_section list"
  b_imports :: "lief_import list"
  b_export :: "lief_export_entry list option"
  b_header :: lief_header
  b_optional_header :: lief_optional_header
  b_data_directories :: "lief_data_directory list"
  b_rich_header :: "(bytes \<times> u32) option"
  b_overlay :: bytes
  b_overlay_offset :: u64
  b_has_relocations :: bool
  b_has_configuration :: bool
  b_load_configuration :: "bool option"
  b_signatures :: "lief_signature list"

text \<open>
  \<open>b_rich_header\<close>: the raw bytes and the key, \<open>None\<close> when \<open>has_rich_header\<close> is false;
  \<open>b_load_configuration\<close>: \<open>None\<close> for the null pointer, otherwise whether there are dynamic
  relocations. The parser may throw, return a null pointer or a binary.
\<close>

datatype parse_result = Thrown | Null | Parsed binary

section \<open>The class\<close>

record pe_file =
  pe :: "binary option"
  fileSize :: size_t
  sections :: "pe_section list"
  pe_imports :: "import_library list"
  exportedFunctions :: "export_function list"
  dosHeader :: dos_header
  coffHeader :: coff_header
  optionalHeader :: optional_header
  dataDirectories :: "data_directory list"
  richHeaderRaw :: bytes
  entrypointRVA :: size_t
  authenticodeSignatureInfo :: authenticode_info

definition pe_file_init :: "size_t \<Rightarrow> pe_file" where
  "pe_file_init n = \<lparr>pe = None, fileSize = n, sections = [], pe_imports = [], exportedFunctions = [],
     dosHeader = dos_zero, coffHeader = coff_zero, optionalHeader = optional_zero, dataDirectories = [],
     richHeaderRaw = [], entrypointRVA = 0, authenticodeSignatureInfo = authenticode_zero\<rparr>"

text \<open>The four bytes at 0x68 are read whenever the file is longer than 0x68 bytes.\<close>

definition read_entrypoint :: "bytes \<Rightarrow> size_t \<Rightarrow> size_t res" where
  "read_entrypoint fileContent n =
     (if 0x68 < n then map_res (\<lambda>b. ucast (le_bytes b :: u32)) (load_list fileContent 0x68 4) else Inr 0)"

definition new_PEFile ::
  "(bytes \<Rightarrow> parse_result) \<Rightarrow> (bytes \<Rightarrow> avast_result) \<Rightarrow> bytes \<Rightarrow> size_t \<Rightarrow> pe_file res" where
  "new_PEFile parse parse_authenticode fileContent bufSize =
     (let this = pe_file_init bufSize
      in case parse fileContent of
        Thrown \<Rightarrow> Inr this
      | Null \<Rightarrow> Inr this
      | Parsed b \<Rightarrow>
          bnd (read_entrypoint fileContent bufSize) (\<lambda>rva.
          bnd (dos_fromPEFile fileContent bufSize) (\<lambda>dos.
          bnd (extractFromPEFile parse_authenticode (b_signatures b) (lh_time_date_stamp (b_header b)) fileContent) (\<lambda>auth.
            Inr (this\<lparr>pe := Some b, entrypointRVA := rva,
              sections := sections_listFromPEFile (b_sections b) bufSize,
              pe_imports := imports_listFromPEFile (b_imports b),
              exportedFunctions := exports_listFromPEFile (b_export b),
              dosHeader := dos,
              coffHeader := coff_fromPEFile (b_header b),
              optionalHeader := optional_fromPEFile (b_optional_header b),
              dataDirectories := directories_listFromPEFile (b_data_directories b),
              richHeaderRaw := (case b_rich_header b of None \<Rightarrow> [] | Some (raw, key) \<Rightarrow> raw),
              authenticodeSignatureInfo := auth\<rparr>)))))"

definition isPEFile :: "pe_file \<Rightarrow> bool" where
  "isPEFile f \<longleftrightarrow> pe f \<noteq> None"

text \<open>\<open>PE_DEFAULT\<close>: the value returned when the file was not parsed.\<close>

definition pe_default :: "pe_file \<Rightarrow> 'a \<Rightarrow> (binary \<Rightarrow> 'a) \<Rightarrow> 'a" where
  "pe_default f d g = (case pe f of None \<Rightarrow> d | Some b \<Rightarrow> g b)"

definition getFileSize :: "pe_file \<Rightarrow> size_t" where
  "getFileSize f = fileSize f"

definition getEntrypointRVA :: "pe_file \<Rightarrow> u64" where
  "getEntrypointRVA f = pe_default f 0 (\<lambda>b. entrypointRVA f)"

definition getSections :: "pe_file \<Rightarrow> pe_section list" where
  "getSections f = pe_default f (sections f) (\<lambda>b. sections f)"

text \<open>
  The callers pass the addresses of two locals, so the null checks of the arguments do not
  apply; the null pointer with size zero is the empty list.
\<close>

definition getOverlayBytes :: "pe_file \<Rightarrow> bytes" where
  "getOverlayBytes f = pe_default f [] b_overlay"

definition getOverlayOffset :: "pe_file \<Rightarrow> size_t" where
  "getOverlayOffset f = pe_default f 0 b_overlay_offset"

definition hasImportDirectory :: "pe_file \<Rightarrow> bool" where
  "hasImportDirectory f = pe_default f False (\<lambda>b. pe_imports f \<noteq> [])"

definition getImportLibraries :: "pe_file \<Rightarrow> import_library list" where
  "getImportLibraries f = pe_default f (pe_imports f) (\<lambda>b. pe_imports f)"

definition hasExportDirectory :: "pe_file \<Rightarrow> bool" where
  "hasExportDirectory f = pe_default f False (\<lambda>b. exportedFunctions f \<noteq> [])"

definition getExportedFunctions :: "pe_file \<Rightarrow> export_function list" where
  "getExportedFunctions f = pe_default f (exportedFunctions f) (\<lambda>b. exportedFunctions f)"

definition hasRelocs :: "pe_file \<Rightarrow> bool" where
  "hasRelocs f = pe_default f False b_has_relocations"

definition hasDynamicRelocs :: "pe_file \<Rightarrow> bool" where
  "hasDynamicRelocs f = pe_default f False (\<lambda>b.
     if \<not> b_has_configuration b then False
     else case b_load_configuration b of None \<Rightarrow> False | Some dynamic \<Rightarrow> dynamic)"

definition hasRichHeader :: "pe_file \<Rightarrow> bool" where
  "hasRichHeader f = pe_default f False (\<lambda>b. b_rich_header b \<noteq> None \<and> 0 < length (richHeaderRaw f))"

definition getRichHeaderBytes :: "pe_file \<Rightarrow> bytes" where
  "getRichHeaderBytes f = (if pe f = None \<or> \<not> hasRichHeader f then [] else richHeaderRaw f)"

definition getRichHeaderKey :: "pe_file \<Rightarrow> u32" where
  "getRichHeaderKey f = pe_default f 0 (\<lambda>b. case b_rich_header b of None \<Rightarrow> 0 | Some (raw, key) \<Rightarrow> key)"

definition getAuthenticodeSignatureInfo :: "pe_file \<Rightarrow> authenticode_info" where
  "getAuthenticodeSignatureInfo f = pe_default f authenticode_zero (\<lambda>b. authenticodeSignatureInfo f)"

section \<open>Properties\<close>

lemma extract_total: "\<exists>info. extractFromPEFile pa sigs stamp f = Inr info"
proof (cases "find (\<lambda>t. 0 < sint t) (avast_times (pa f))")
  case (Some t)
  then have "0 < sint t" by (auto simp: find_Some_iff)
  then obtain d where "int64_sub t (ucast stamp) = Inr d" using int64_sub_stamp by blast
  then show ?thesis using Some
    by (simp add: extractFromPEFile_def getCounterSignatureInfo_Avast_def first_positive_find Let_def)
qed (simp add: extractFromPEFile_def getCounterSignatureInfo_Avast_def first_positive_find Let_def
      no_counter_signature_def)

lemma dos_total:
  assumes "length f < 2 ^ 64"
  shows "\<exists>d. dos_fromPEFile f (of_nat (length f)) = Inr d"
proof -
  have "unat (of_nat (length f) :: size_t) = length f" using assms by (intro unat_of_nat_small) simp
  then have "\<not> (of_nat (length f) :: size_t) < DOS_HEADER_SIZE \<longleftrightarrow> 64 \<le> length f"
    by (simp add: DOS_HEADER_SIZE_def word_less_nat_alt not_less)
  then show ?thesis by (auto simp: dos_fromPEFile_def load_list_def Let_def)
qed

lemma read_entrypoint_value:
  assumes "length f < 2 ^ 64"
  shows "read_entrypoint f (of_nat (length f)) =
    (if length f \<le> 0x68 then Inr 0
     else if length f < 0x6c then Inl OutOfBounds
     else Inr (ucast (le_bytes (take 4 (drop 0x68 f)) :: u32)))"
proof -
  have "unat (of_nat (length f) :: size_t) = length f" using assms by (intro unat_of_nat_small) simp
  then have "(0x68 :: size_t) < of_nat (length f) \<longleftrightarrow> 0x68 < length f" by (simp add: word_less_nat_alt)
  then show ?thesis by (auto simp: read_entrypoint_def load_list_def)
qed

text \<open>What the constructor makes of a parsed file, when it succeeds.\<close>

lemma new_PEFile_parsed:
  assumes "parse f = Parsed b" "new_PEFile parse pa f n = Inr t"
  obtains rva dos auth where
    "t = (pe_file_init n)\<lparr>pe := Some b, entrypointRVA := rva,
        sections := sections_listFromPEFile (b_sections b) n, pe_imports := imports_listFromPEFile (b_imports b),
        exportedFunctions := exports_listFromPEFile (b_export b), dosHeader := dos,
        coffHeader := coff_fromPEFile (b_header b), optionalHeader := optional_fromPEFile (b_optional_header b),
        dataDirectories := directories_listFromPEFile (b_data_directories b),
        richHeaderRaw := (case b_rich_header b of None \<Rightarrow> [] | Some (raw, key) \<Rightarrow> raw),
        authenticodeSignatureInfo := auth\<rparr>"
  using assms by (auto simp: new_PEFile_def Let_def bnd_Inr_iff)

text \<open>
  C6. Building the \<open>PEFile\<close> object never fails, except in one case: for a file of 0x69 to 0x6b
  bytes that the parser accepts, the read of the entry point leaves the buffer. A file that is
  not parsed, also one whose parsing throws, gives an object that answers every question with
  its default.
\<close>

theorem new_PEFile_total:
  fixes parse parse_authenticode and f :: bytes
  assumes "length f < 2 ^ 64"
  defines "r \<equiv> new_PEFile parse parse_authenticode f (of_nat (length f))"
  shows "(if (\<exists>b. parse f = Parsed b) \<and> 0x68 < length f \<and> length f < 0x6c then r = Inl OutOfBounds
          else \<exists>t. r = Inr t \<and> (isPEFile t \<longleftrightarrow> (\<exists>b. parse f = Parsed b)) \<and> fileSize t = of_nat (length f) \<and>
            (\<not> isPEFile t \<longrightarrow> getEntrypointRVA t = 0 \<and> getSections t = [] \<and> getOverlayBytes t = [] \<and>
               getImportLibraries t = [] \<and> getExportedFunctions t = [] \<and> \<not> hasRelocs t \<and>
               \<not> hasDynamicRelocs t \<and> getRichHeaderBytes t = [] \<and> getRichHeaderKey t = 0 \<and>
               getAuthenticodeSignatureInfo t = authenticode_zero))"
proof (cases "parse f")
  case (Parsed b)
  obtain info where info: "extractFromPEFile parse_authenticode (b_signatures b) (lh_time_date_stamp (b_header b)) f = Inr info"
    using extract_total by blast
  obtain d where d: "dos_fromPEFile f (of_nat (length f)) = Inr d" using dos_total [OF assms(1)] by blast
  show ?thesis
    using Parsed info d
    by (simp add: r_def new_PEFile_def read_entrypoint_value [OF assms(1)] isPEFile_def pe_file_init_def)
qed (simp_all add: r_def new_PEFile_def pe_file_init_def isPEFile_def pe_default_def getEntrypointRVA_def
      getSections_def getOverlayBytes_def getImportLibraries_def getExportedFunctions_def hasRelocs_def
      hasDynamicRelocs_def getRichHeaderBytes_def getRichHeaderKey_def getAuthenticodeSignatureInfo_def)

theorem new_PEFile_total_witness:
  "\<exists>t. new_PEFile (\<lambda>_. Thrown) (\<lambda>_. None) (lit ''MZ'') 2 = Inr t \<and> \<not> isPEFile t \<and> getSections t = []"
  using new_PEFile_total [of "lit ''MZ''" "\<lambda>_. Thrown" "\<lambda>_. None"] by (auto simp: lit_def)

text \<open>
  For a parsed file of at least 0x6c bytes the entry point is the little-endian word at
  0x68 of the file, wherever its header is, and a rich header is reported exactly when the
  parser found one that is not empty; then its bytes are the parser's.
\<close>

theorem parsed_file_fields:
  assumes "length f < 2 ^ 64" "0x6c \<le> length f" "parse f = Parsed b"
  shows "\<exists>t. new_PEFile parse parse_authenticode f (of_nat (length f)) = Inr t \<and> isPEFile t \<and>
    getEntrypointRVA t = ucast (le_bytes (take 4 (drop 0x68 f)) :: u32) \<and>
    length (getSections t) = length (b_sections b) \<and>
    getOverlayBytes t = b_overlay b \<and>
    (hasImportDirectory t \<longleftrightarrow> b_imports b \<noteq> []) \<and>
    (hasExportDirectory t \<longleftrightarrow> (\<exists>e es. b_export b = Some (e # es))) \<and>
    (hasRichHeader t \<longleftrightarrow> (\<exists>c cs key. b_rich_header b = Some (c # cs, key))) \<and>
    (hasRichHeader t \<longrightarrow> b_rich_header b = Some (getRichHeaderBytes t, getRichHeaderKey t)) \<and>
    (hasDynamicRelocs t \<longleftrightarrow> b_has_configuration b \<and> b_load_configuration b = Some True)"
proof -
  obtain info where info: "extractFromPEFile parse_authenticode (b_signatures b) (lh_time_date_stamp (b_header b)) f = Inr info"
    using extract_total by blast
  obtain d where d: "dos_fromPEFile f (of_nat (length f)) = Inr d" using dos_total [OF assms(1)] by blast
  note defs = isPEFile_def pe_default_def getEntrypointRVA_def getSections_def getOverlayBytes_def
    hasImportDirectory_def hasExportDirectory_def hasDynamicRelocs_def
  obtain t where t: "new_PEFile parse parse_authenticode f (of_nat (length f)) = Inr t"
    "entrypointRVA t = ucast (le_bytes (take 4 (drop 0x68 f)) :: u32)" "pe t = Some b"
    "sections t = sections_listFromPEFile (b_sections b) (of_nat (length f))"
    "pe_imports t = imports_listFromPEFile (b_imports b)" "exportedFunctions t = exports_listFromPEFile (b_export b)"
    "richHeaderRaw t = (case b_rich_header b of None \<Rightarrow> [] | Some (raw, key) \<Rightarrow> raw)"
    using assms(2,3) info d by (simp add: new_PEFile_def read_entrypoint_value [OF assms(1)])
  have rich: "(hasRichHeader t \<longleftrightarrow> (\<exists>c cs key. b_rich_header b = Some (c # cs, key))) \<and>
      (hasRichHeader t \<longrightarrow> b_rich_header b = Some (getRichHeaderBytes t, getRichHeaderKey t))"
    using t(3,7) by (cases "b_rich_header b")
      (auto simp: hasRichHeader_def getRichHeaderBytes_def getRichHeaderKey_def pe_default_def neq_Nil_conv)
  have ex: "exports_listFromPEFile x \<noteq> [] \<longleftrightarrow> (\<exists>e es. x = Some (e # es))" for x
    by (cases x) (auto simp: exports_listFromPEFile_def neq_Nil_conv)
  show ?thesis
    using t rich ex [of "b_export b"]
    by (intro exI [of _ t])
      (simp add: defs sections_listFromPEFile_def imports_listFromPEFile_def split: option.split)
qed

theorem parsed_file_fields_witness:
  "\<forall>b. \<exists>t. new_PEFile (\<lambda>_. Parsed b) (\<lambda>_. None) (replicate 0x68 0 @ [0x10, 0x20, 0, 0]) 0x6c = Inr t \<and>
     getEntrypointRVA t = 0x2010 \<and> getOverlayBytes t = b_overlay b"
proof
  fix b
  let ?f = "replicate 0x68 0 @ [0x10, 0x20, 0, 0] :: bytes"
  have w: "(le_bytes [0x10, 0x20, 0, 0] :: u32) = 0x2010" by code_simp
  have l: "length ?f = 0x6c" "take 4 (drop 0x68 ?f) = [0x10, 0x20, 0, 0]" by simp_all
  then show "\<exists>t. new_PEFile (\<lambda>_. Parsed b) (\<lambda>_. None) ?f 0x6c = Inr t \<and>
      getEntrypointRVA t = 0x2010 \<and> getOverlayBytes t = b_overlay b"
    using parsed_file_fields [of ?f "\<lambda>_. Parsed b" b "\<lambda>_. None", unfolded l w] by auto
qed

end
