(* ===== verification/FeatureType.thy ===== *)
theory FeatureType
  imports PEFile FeatureHasher ByteTools
begin

text \<open>
  \<open>core/include/efe/core/f_base.h\<close>: the interface of the feature types. An object owns a fixed
  number of cells of the feature vector; \<open>reset\<close>, \<open>start\<close>, one \<open>reduce\<close> per block of the file and
  \<open>finalize\<close> are called with the pointer to its first cell. The vector is the list \<open>mem\<close> of its
  cells and the pointer an offset into it; the operations work on the pair of the object and
  the vector.
\<close>

section \<open>Segments of the feature vector\<close>

definition fits :: "nat \<Rightarrow> nat \<Rightarrow> 'a list \<Rightarrow> bool" where
  "fits p n mem \<longleftrightarrow> p + n \<le> length mem \<and> length mem < 2 ^ 61"

lemma fitsD: "fits p n mem \<Longrightarrow> p + n \<le> length mem" "fits p n mem \<Longrightarrow> length mem < 2 ^ 61"
  by (simp_all add: fits_def)

lemma fits_blit [simp]: "p + length vs \<le> length mem \<Longrightarrow> fits q n (blit mem p vs) = fits q n mem"
  by (simp add: fits_def)

lemma blit_self: "p + n \<le> length xs \<Longrightarrow> blit xs p (take n (drop p xs)) = xs"
  by (simp add: blit_def) (metis add.commute append_take_drop_id drop_drop)

named_theorems segment \<open>stores into a segment of the feature vector\<close>

lemma blit_blit_same [segment]:
  "length ws = length vs \<Longrightarrow> p + length vs \<le> length xs \<Longrightarrow> blit (blit xs p ws) p vs = blit xs p vs"
  by (simp add: blit_def)

lemma blit_blit_sub [segment]:
  "j + length ws \<le> length vs \<Longrightarrow> p + length vs \<le> length xs \<Longrightarrow>
   blit (blit xs p vs) (p + j) ws = blit xs p (blit vs j ws)"
  by (rule nth_equalityI) (auto simp: nth_blit)

lemma store_blit [segment]:
  "j < length vs \<Longrightarrow> p + length vs \<le> length xs \<Longrightarrow>
   store (blit xs p vs) (p + j) v = Inr (blit xs p (vs[j := v]))"
  by (auto simp: store_def intro!: nth_equalityI simp: nth_blit nth_list_update)

lemma store_list_blit [segment]:
  "j + length ws \<le> length vs \<Longrightarrow> p + length vs \<le> length xs \<Longrightarrow>
   store_list (blit xs p vs) (p + j) ws = Inr (blit xs p (blit vs j ws))"
  by (simp add: store_list_def blit_blit_sub)

lemma load_blit [segment]:
  "j < length vs \<Longrightarrow> p + length vs \<le> length xs \<Longrightarrow> load (blit xs p vs) (p + j) = Inr (vs ! j)"
  by (simp add: load_def nth_blit)

lemma load_list_blit [segment]:
  "p + length vs \<le> length xs \<Longrightarrow> n = length vs \<Longrightarrow> load_list (blit xs p vs) p n = Inr vs"
  by (simp add: load_list_def) (simp add: blit_def)

lemma blit_split:
  "p + length (vs @ ws) \<le> length xs \<Longrightarrow>
   blit xs p (vs @ ws) = blit (blit xs (p + length vs) ws) p vs"
  by (rule nth_equalityI) (auto simp: nth_blit nth_append)

lemma blit_split2:
  "p + length (vs @ ws) \<le> length xs \<Longrightarrow>
   blit xs p (vs @ ws) = blit (blit xs p vs) (p + length vs) ws"
  by (rule nth_equalityI) (auto simp: nth_blit nth_append)

text \<open>\<open>std::memset(output, 0, n * sizeof(feature_t))\<close>: all bits zero is the float zero.\<close>

definition memset0 :: "nat \<Rightarrow> nat \<Rightarrow> fl list \<Rightarrow> fl list res" where
  "memset0 p n mem = store_list mem p (replicate n fl_zero)"

lemma memset0_fits: "fits p n mem \<Longrightarrow> memset0 p n mem = Inr (blit mem p (replicate n fl_zero))"
  by (simp add: memset0_def store_list_def fits_def)

text \<open>A sequence of assignments \<open>output[j] = v\<close>.\<close>

definition assign :: "nat \<Rightarrow> (nat \<times> feature_t) list \<Rightarrow> fl list \<Rightarrow> fl list res" where
  "assign p as = for_each as (\<lambda>(j, v) mem. store mem (p + j) v)"

definition assigned :: "(nat \<times> feature_t) list \<Rightarrow> fl list \<Rightarrow> fl list" where
  "assigned as vs = foldl (\<lambda>vs (j, v). vs[j := v]) vs as"

lemma length_assigned [simp]: "length (assigned as vs) = length vs"
  unfolding assigned_def by (induction as arbitrary: vs) auto

lemma assign_segment [segment]:
  "\<forall>a \<in> set as. fst a < length vs \<Longrightarrow> p + length vs \<le> length xs \<Longrightarrow>
   assign p as (blit xs p vs) = Inr (blit xs p (assigned as vs))"
  by (induction as arbitrary: vs) (auto simp: assign_def assigned_def segment)

lemma assigned_other: "j \<notin> fst ` set as \<Longrightarrow> assigned as vs ! j = vs ! j"
  unfolding assigned_def by (induction as arbitrary: vs) auto

lemma assigned_append: "assigned (as @ bs) vs = assigned bs (assigned as vs)"
  by (simp add: assigned_def)

lemma assigned_nth:
  "distinct (map fst as) \<Longrightarrow> (j, v) \<in> set as \<Longrightarrow> j < length vs \<Longrightarrow> assigned as vs ! j = v"
proof (induction as arbitrary: vs)
  case (Cons a as)
  have "assigned (a # as) vs = assigned as (vs[fst a := snd a])" by (cases a) (simp add: assigned_def)
  then show ?case using Cons assigned_other [of j as] by (cases "(j, v) = a") auto
qed simp

lemma assign_append: "assign p (as @ bs) mem = bnd (assign p as mem) (assign p bs)"
  by (simp add: assign_def for_each_append)

section \<open>A feature hasher inside a segment\<close>

text \<open>
  The hasher that has been set up for the \<open>n\<close> cells at \<open>p\<close>, started, and fed \<open>items\<close>. Its users
  never set a seed and hash one sample.
\<close>

definition hasher_on :: "size_t \<Rightarrow> nat \<Rightarrow> bool \<Rightarrow> (bytes \<times> feature_t) list \<Rightarrow> feature_hasher \<Rightarrow> bool" where
  "hasher_on n p alt items s \<longleftrightarrow>
     fh_holds [] (hashed n 0 alt items) s \<and> fh_conf s = (alt, Some p, n, 0, False) \<and>
     (\<forall>it \<in> set items. item_ok it) \<and> 0 < n \<and> unat n \<le> 2 ^ 31"

lemma hasher_setup:
  "setSize n (setOutput (Some p) (fh_reset s)) = fh_config n p True 0 False s"
  "setOutput (Some p) (setSize n (fh_reset s)) = fh_config n p True 0 False s"
  "setAlternateSign alt (setSize n (setOutput (Some p) (fh_reset s))) = fh_config n p alt 0 False s"
  by (simp_all add: fh_config_def setSize_def setOutput_def setAlternateSign_def setSeed_def
      setMultipleSamples_def fh_reset_def)

lemma hasher_start:
  assumes "0 < n" "unat n \<le> 2 ^ 31" "j + unat n \<le> length vs" "p + length vs \<le> length xs" "length xs < 2 ^ 61"
  shows "\<exists>s'. fh_start (fh_config n (p + j) alt 0 False s) (blit xs p vs) =
      Inr (s', blit xs p (blit vs j (replicate (unat n) fl_zero))) \<and> hasher_on n (p + j) alt [] s'"
  using fh_start_config [of n "p + j" "blit xs p vs" alt 0 False s] assms
  by (auto simp: hasher_on_def segment)

lemma hasher_reduce:
  assumes h: "hasher_on n p alt items s" and it: "item_ok (k, v)" and l: "length items < 2 ^ 61"
  shows "\<exists>s'. fh_reduce k v s = Inr s' \<and> hasher_on n p alt (items @ [(k, v)]) s'"
proof -
  have c: "fh_size s = n" "seed s = 0" "alternateSign s = alt"
    using h by (simp_all add: hasher_on_def fh_conf_def)
  have "length (hashed n 0 alt items) \<le> length items" by (simp add: hashed_def)
  then obtain s' where "fh_reduce k v s = Inr s'" "fh_holds [] (hashed n 0 alt items @ hashed n 0 alt [(k, v)]) s'"
    "fh_conf s' = fh_conf s"
    using fh_reduce_holds [of "[]" "hashed n 0 alt items" s k v] h it l c by (auto simp: hasher_on_def item_ok_def)
  then show ?thesis using h it by (auto simp: hasher_on_def hashed_append [of _ _ _ items])
qed

lemma hasher_reduce_all:
  assumes "hasher_on n p alt items s" "\<forall>it \<in> set new. item_ok it" "length items + length new < 2 ^ 61"
  shows "\<exists>s'. reduce_all new s = Inr s' \<and> hasher_on n p alt (items @ new) s'"
  using assms
proof (induction new arbitrary: items s)
  case (Cons it new)
  obtain k v where it: "it = (k, v)" by (cases it)
  obtain s1 where s1: "fh_reduce k v s = Inr s1" "hasher_on n p alt (items @ [(k, v)]) s1"
    using hasher_reduce [OF Cons.prems(1), of k v] Cons.prems(2,3) it by auto
  show ?case using Cons.IH [OF s1(2)] Cons.prems(2,3) s1(1) by (simp add: it reduce_all_def)
qed (simp add: reduce_all_def)

lemma hasher_finalize:
  assumes h: "hasher_on n (p + j) alt items s" and l: "length items < 2 ^ 61"
    and m: "j + unat n \<le> length vs" "p + length vs \<le> length xs" "length xs < 2 ^ 61"
  shows "\<exists>s'. fh_finalize s (blit xs p vs) = Inr (s', blit xs p (blit vs j (hash_row (unat n) 0 alt items)))"
proof -
  let ?h = "hashed n 0 alt items"
  have n: "0 < n" "unat n \<le> 2 ^ 31" and ok: "\<forall>it \<in> set items. item_ok it"
    and s: "fh_holds [] ?h s" "\<not> multipleSamples s" "fh_output s = Some (p + j)" "fh_size s = n"
    using h by (simp_all add: hasher_on_def fh_conf_def)
  have "length ?h \<le> length items" by (simp add: hashed_def)
  moreover have "map (fl_to f32) (concat (map (dense_row (unat n)) [?h])) = hash_row (unat n) 0 alt items"
    using dense_hash_row [OF n ok] by simp
  ultimately have "\<exists>s'. fh_finalize s (blit xs p vs) = Inr (s', blit (blit xs p vs) (p + j) (hash_row (unat n) 0 alt items))"
    using fh_finalize_holds [OF s(1), of "[?h]" "p + j" n "blit xs p vs"] s n l m hashed_keys [OF n] by auto
  then show ?thesis using m by (simp add: segment)
qed

text \<open>\<open>std::to_string\<close> of an unsigned number.\<close>

fun to_string :: "nat \<Rightarrow> bytes" where
  "to_string n = (if n < 10 then [of_nat (48 + n)] else to_string (n div 10) @ [of_nat (48 + n mod 10)])"

declare to_string.simps [simp del]

lemma length_to_string: "n < 10 ^ k \<Longrightarrow> 0 < k \<Longrightarrow> length (to_string n) \<le> k"
proof (induction n arbitrary: k rule: to_string.induct)
  case (1 n)
  show ?case
  proof (cases "n < 10")
    case False
    obtain l where l: "k = Suc l" using 1(3) by (cases k) auto
    have "l \<noteq> 0" using False 1(2) l by (intro notI) simp
    then have k: "k = Suc l" "0 < l" using l by simp_all
    have "n div 10 < 10 ^ l" using 1(2) k by (simp add: less_mult_imp_div_less mult.commute)
    then have "length (to_string (n div 10)) \<le> l" using 1(1) False k by blast
    then show ?thesis using False k by (simp add: to_string.simps [of n])
  qed (use 1 in \<open>simp add: to_string.simps [of n]\<close>)
qed

section \<open>What the parsed file may hold\<close>

text \<open>
  Bounds that every file in memory meets: names shorter than \<open>2 ^ 30\<close> bytes, lists far shorter
  than \<open>2 ^ 61\<close>; and the entropy of a section is a \<open>double\<close>.
\<close>

definition pe_ok :: "pe_file \<Rightarrow> bool" where
  "pe_ok f \<longleftrightarrow>
     length (sections f) < 2 ^ 50 \<and>
     (\<forall>s \<in> set (sections f). length (sec_name s) < 2 ^ 30 \<and> wf_fl f64 (sec_entropy s)) \<and>
     (\<forall>l \<in> set (pe_imports f). length (dllName l) < 2 ^ 30) \<and>
     length (pe_imports f) < 2 ^ 60 \<and> length (concat (map lib_functions (pe_imports f))) < 2 ^ 60 \<and>
     length (exportedFunctions f) < 2 ^ 60 \<and> length (richHeaderRaw f) < 2 ^ 60 \<and>
     length (getOverlayBytes f) < 2 ^ 60"

lemma pe_ok_init: "pe_ok (pe_file_init n)"
  by (simp add: pe_ok_def pe_file_init_def getOverlayBytes_def pe_default_def)

lemmas pe_ok_simps = pe_ok_def pe_file_init_def isPEFile_def getOverlayBytes_def pe_default_def

section \<open>The interface\<close>

text \<open>A whole run of one feature type over a file in blocks.\<close>

definition ft_run ::
  "(nat \<Rightarrow> pe_file \<Rightarrow> 's \<times> fl list \<Rightarrow> ('s \<times> fl list) res) \<Rightarrow> (nat \<Rightarrow> pe_file \<Rightarrow> 's \<times> fl list \<Rightarrow> ('s \<times> fl list) res) \<Rightarrow>
   (nat \<Rightarrow> pe_file \<Rightarrow> 's \<times> fl list \<Rightarrow> ('s \<times> fl list) res) \<Rightarrow>
   (nat \<Rightarrow> pe_file \<Rightarrow> size_t \<Rightarrow> bytes \<Rightarrow> 's \<times> fl list \<Rightarrow> ('s \<times> fl list) res) \<Rightarrow>
   nat \<Rightarrow> pe_file \<Rightarrow> bytes list \<Rightarrow> 's \<times> fl list \<Rightarrow> ('s \<times> fl list) res" where
  "ft_run reset start finalize reduce p f bs st = bnd (reset p f st) (\<lambda>st. bnd (start p f st) (\<lambda>st.
     bnd (feed (reduce p f) 0 bs st) (finalize p f)))"

text \<open>
  The contract of a feature type: from any object, \<open>reset\<close>, \<open>start\<close>, the blocks in order and
  \<open>finalize\<close> never fail, touch only the own segment, and leave in it \<open>features\<close> of the parsed
  file and the blocks, whatever the object and the vector held before. \<open>running\<close> is the
  invariant between the calls; it says what the object and its segment hold.
\<close>

locale feature_type =
  fixes dim :: nat
    and reset start finalize :: "nat \<Rightarrow> pe_file \<Rightarrow> 's \<times> fl list \<Rightarrow> ('s \<times> fl list) res"
    and reduce :: "nat \<Rightarrow> pe_file \<Rightarrow> size_t \<Rightarrow> bytes \<Rightarrow> 's \<times> fl list \<Rightarrow> ('s \<times> fl list) res"
    and ok ready :: "'s \<Rightarrow> bool"
    and running :: "pe_file \<Rightarrow> nat \<Rightarrow> bytes list \<Rightarrow> 's \<Rightarrow> fl list \<Rightarrow> bool"
    and features :: "pe_file \<Rightarrow> bytes list \<Rightarrow> fl list"
  assumes reset_ok: "ok s \<Longrightarrow> \<exists>s'. reset p f (s, mem) = Inr (s', mem) \<and> ready s'"
    and start_ok: "ready s \<Longrightarrow> pe_ok f \<Longrightarrow> fits p dim mem \<Longrightarrow>
      \<exists>s' seg. start p f (s, mem) = Inr (s', blit mem p seg) \<and> length seg = dim \<and> running f p [] s' seg"
    and reduce_ok: "running f p bs s seg \<Longrightarrow> pe_ok f \<Longrightarrow> length seg = dim \<Longrightarrow> fits p dim mem \<Longrightarrow>
      length (concat bs) + length b < 2 ^ 61 \<Longrightarrow>
      \<exists>s' seg'. reduce p f (of_nat (length (concat bs))) b (s, blit mem p seg) = Inr (s', blit mem p seg') \<and>
        length seg' = dim \<and> running f p (bs @ [b]) s' seg'"
    and finalize_ok: "running f p bs s seg \<Longrightarrow> pe_ok f \<Longrightarrow> length seg = dim \<Longrightarrow> fits p dim mem \<Longrightarrow>
      length (concat bs) < 2 ^ 61 \<Longrightarrow>
      \<exists>s'. finalize p f (s, blit mem p seg) = Inr (s', blit mem p (features f bs)) \<and> ok s'"
    and length_features: "pe_ok f \<Longrightarrow> length (concat bs) < 2 ^ 61 \<Longrightarrow> length (features f bs) = dim"
begin

lemma feed_running:
  assumes "running f p as s seg" "pe_ok f" "length seg = dim" "fits p dim mem"
    "length (concat as) + length (concat bs) < 2 ^ 61"
  shows "\<exists>s' seg'. feed (reduce p f) (of_nat (length (concat as))) bs (s, blit mem p seg) = Inr (s', blit mem p seg') \<and>
    length seg' = dim \<and> running f p (as @ bs) s' seg'"
  using assms
proof (induction bs arbitrary: as s seg)
  case (Cons b bs)
  obtain s1 seg1 where s1: "reduce p f (of_nat (length (concat as))) b (s, blit mem p seg) = Inr (s1, blit mem p seg1)"
    "length seg1 = dim" "running f p (as @ [b]) s1 seg1"
    using reduce_ok [OF Cons.prems(1-4), of b] Cons.prems(5) by auto
  have "of_nat (length (concat as)) + of_nat (length b) = (of_nat (length (concat (as @ [b]))) :: size_t)" by simp
  then show ?case
    using s1 Cons.IH [OF s1(3) Cons.prems(2) s1(2) Cons.prems(4)] Cons.prems(5) by simp
qed auto

theorem run_features:
  assumes "ok s" "pe_ok f" "fits p dim mem" "length (concat bs) < 2 ^ 61"
  shows "\<exists>s'. ft_run reset start finalize reduce p f bs (s, mem) = Inr (s', blit mem p (features f bs)) \<and> ok s'"
proof -
  obtain s1 where s1: "reset p f (s, mem) = Inr (s1, mem)" "ready s1" using reset_ok [OF assms(1)] by blast
  obtain s2 seg where s2: "start p f (s1, mem) = Inr (s2, blit mem p seg)" "length seg = dim" "running f p [] s2 seg"
    using start_ok [OF s1(2) assms(2,3)] by blast
  obtain s3 seg' where s3: "feed (reduce p f) 0 bs (s2, blit mem p seg) = Inr (s3, blit mem p seg')"
    "length seg' = dim" "running f p bs s3 seg'"
    using feed_running [OF s2(3) assms(2) s2(2) assms(3), of bs] assms(4) by auto
  show ?thesis
    using finalize_ok [OF s3(3) assms(2) s3(2) assms(3,4)] s1(1) s2(1) s3(1) by (auto simp: ft_run_def)
qed

end

text \<open>
  Most feature types read only the parsed file: everything happens in \<open>start\<close>, and the other
  operations do nothing.
\<close>

locale start_feature =
  fixes dim :: nat
    and reset start finalize :: "nat \<Rightarrow> pe_file \<Rightarrow> 's \<times> fl list \<Rightarrow> ('s \<times> fl list) res"
    and reduce :: "nat \<Rightarrow> pe_file \<Rightarrow> size_t \<Rightarrow> bytes \<Rightarrow> 's \<times> fl list \<Rightarrow> ('s \<times> fl list) res"
    and vector :: "pe_file \<Rightarrow> fl list"
  assumes pass: "reset p f st = Inr st" "reduce p f off b st = Inr st" "finalize p f st = Inr st"
    and start_vector: "pe_ok f \<Longrightarrow> fits p dim mem \<Longrightarrow> \<exists>s'. start p f (s, mem) = Inr (s', blit mem p (vector f))"
    and length_vector: "pe_ok f \<Longrightarrow> length (vector f) = dim"

sublocale start_feature \<subseteq> feature_type dim reset start finalize reduce "\<lambda>_. True" "\<lambda>_. True"
  "\<lambda>f p bs s seg. seg = vector f" "\<lambda>f bs. vector f"
  using start_vector length_vector by unfold_locales (auto simp: pass)

end
