(* ===== verification/HeaderFileInfo.thy ===== *)
theory HeaderFileInfo
  imports FeatureType
begin

text \<open>
  \<open>core/src/f_header_file_info.cpp\<close> with its encoders: the fields of the COFF, optional and DOS
  headers as 74 features.
\<close>

named_theorems header_offset \<open>the offsets of the fields\<close>

section \<open>Encoders\<close>

text \<open>The value of a declared enumerator.\<close>

definition value_of :: "('v::zero \<times> string) list \<Rightarrow> string \<Rightarrow> 'v" where
  "value_of table name = (case find (\<lambda>(v, n). n = name) table of Some (v, n) \<Rightarrow> v | None \<Rightarrow> 0)"

text \<open>A \<open>switch\<close> over declared names that stores the number of the case.\<close>

definition encode_ordinal ::
  "(u16 \<times> string) list \<Rightarrow> (nat \<times> string) list \<Rightarrow> u16 \<Rightarrow> nat \<Rightarrow> fl list \<Rightarrow> fl list res" where
  "encode_ordinal table cases v p mem = bnd (store mem p fl_zero) (\<lambda>mem.
     case find (\<lambda>(k, name). value_of table name = v) cases of
       None \<Rightarrow> Inr mem
     | Some (k, name) \<Rightarrow> store mem p (fl_of_nat f32 k))"

text \<open>\<open>machine_type_encoding.cpp\<close>: the ordinal 21 is left out.\<close>

definition machine_type_cases :: "(nat \<times> string) list" where
  "machine_type_cases = [
    (0, ''IMAGE_FILE_MACHINE_UNKNOWN''), (1, ''IMAGE_FILE_MACHINE_I386''),
    (2, ''IMAGE_FILE_MACHINE_R3000''), (3, ''IMAGE_FILE_MACHINE_R4000''),
    (4, ''IMAGE_FILE_MACHINE_R10000''), (5, ''IMAGE_FILE_MACHINE_WCEMIPSV2''),
    (6, ''IMAGE_FILE_MACHINE_ALPHA''), (7, ''IMAGE_FILE_MACHINE_SH3''),
    (8, ''IMAGE_FILE_MACHINE_SH3DSP''), (9, ''IMAGE_FILE_MACHINE_SH3E''),
    (10, ''IMAGE_FILE_MACHINE_SH4''), (11, ''IMAGE_FILE_MACHINE_SH5''), (12, ''IMAGE_FILE_MACHINE_ARM''),
    (13, ''IMAGE_FILE_MACHINE_THUMB''), (14, ''IMAGE_FILE_MACHINE_ARMNT''),
    (15, ''IMAGE_FILE_MACHINE_AM33''), (16, ''IMAGE_FILE_MACHINE_POWERPC''),
    (17, ''IMAGE_FILE_MACHINE_POWERPCFP''), (18, ''IMAGE_FILE_MACHINE_IA64''),
    (19, ''IMAGE_FILE_MACHINE_MIPS16''), (20, ''IMAGE_FILE_MACHINE_ALPHA64''),
    (22, ''IMAGE_FILE_MACHINE_MIPSFPU''), (23, ''IMAGE_FILE_MACHINE_MIPSFPU16''),
    (24, ''IMAGE_FILE_MACHINE_TRICORE''), (25, ''IMAGE_FILE_MACHINE_CEF''),
    (26, ''IMAGE_FILE_MACHINE_EBC''), (27, ''IMAGE_FILE_MACHINE_RISCV32''),
    (28, ''IMAGE_FILE_MACHINE_RISCV64''), (29, ''IMAGE_FILE_MACHINE_RISCV128''),
    (30, ''IMAGE_FILE_MACHINE_LOONGARCH32''), (31, ''IMAGE_FILE_MACHINE_LOONGARCH64''),
    (32, ''IMAGE_FILE_MACHINE_AMD64''), (33, ''IMAGE_FILE_MACHINE_M32R''),
    (34, ''IMAGE_FILE_MACHINE_ARM64''), (35, ''IMAGE_FILE_MACHINE_CEE'')]"

definition encodeMachineType :: "u16 \<Rightarrow> nat \<Rightarrow> fl list \<Rightarrow> fl list res" where
  "encodeMachineType = encode_ordinal machine_types machine_type_cases"

text \<open>\<open>subsystem_type_encoding.cpp\<close>.\<close>

definition subsystem_type_cases :: "(nat \<times> string) list" where
  "subsystem_type_cases = [
    (0, ''IMAGE_SUBSYSTEM_UNKNOWN''), (1, ''IMAGE_SUBSYSTEM_NATIVE''),
    (2, ''IMAGE_SUBSYSTEM_WINDOWS_GUI''), (3, ''IMAGE_SUBSYSTEM_WINDOWS_CUI''),
    (4, ''IMAGE_SUBSYSTEM_OS2_CUI''), (5, ''IMAGE_SUBSYSTEM_POSIX_CUI''),
    (6, ''IMAGE_SUBSYSTEM_NATIVE_WINDOWS''), (7, ''IMAGE_SUBSYSTEM_WINDOWS_CE_GUI''),
    (8, ''IMAGE_SUBSYSTEM_EFI_APPLICATION''), (9, ''IMAGE_SUBSYSTEM_EFI_BOOT_SERVICE_DRIVER''),
    (10, ''IMAGE_SUBSYSTEM_EFI_RUNTIME_DRIVER''), (11, ''IMAGE_SUBSYSTEM_EFI_ROM''),
    (12, ''IMAGE_SUBSYSTEM_XBOX''), (13, ''IMAGE_SUBSYSTEM_WINDOWS_BOOT_APPLICATION'')]"

definition encodeSubsystemType :: "u16 \<Rightarrow> nat \<Rightarrow> fl list \<Rightarrow> fl list res" where
  "encodeSubsystemType = encode_ordinal subsystem_types subsystem_type_cases"

text \<open>One flag per name: \<open>if (chr & value) output[index] = 1.0\<close>.\<close>

definition encode_flags ::
  "(u16 \<times> string) list \<Rightarrow> (nat \<times> string) list \<Rightarrow> u16 \<Rightarrow> nat \<Rightarrow> fl list \<Rightarrow> fl list res" where
  "encode_flags table cases chr p = for_each cases (\<lambda>(i, name) mem.
     if (chr AND value_of table name) \<noteq> 0 then store mem (p + i) fl_one else Inr mem)"

text \<open>\<open>coff_characteristics_encoding.cpp\<close>.\<close>

definition coff_flags :: "(nat \<times> string) list" where
  "coff_flags = [
    (0, ''IMAGE_FILE_RELOCS_STRIPPED''), (1, ''IMAGE_FILE_EXECUTABLE_IMAGE''),
    (2, ''IMAGE_FILE_LINE_NUMS_STRIPPED''), (3, ''IMAGE_FILE_LOCAL_SYMS_STRIPPED''),
    (4, ''IMAGE_FILE_AGGRESIVE_WS_TRIM''), (5, ''IMAGE_FILE_LARGE_ADDRESS_AWARE''),
    (6, ''IMAGE_FILE_16BIT_MACHINE''), (7, ''IMAGE_FILE_BYTES_REVERSED_LO''),
    (8, ''IMAGE_FILE_32BIT_MACHINE''), (9, ''IMAGE_FILE_DEBUG_STRIPPED''),
    (10, ''IMAGE_FILE_REMOVABLE_RUN_FROM_SWAP''), (11, ''IMAGE_FILE_NET_RUN_FROM_SWAP''),
    (12, ''IMAGE_FILE_SYSTEM''), (13, ''IMAGE_FILE_DLL''), (14, ''IMAGE_FILE_UP_SYSTEM_ONLY''),
    (15, ''IMAGE_FILE_BYTES_REVERSED_HI'')]"

definition COFF_CHARACTERISTICS_ENCODING_DIM :: nat where [header_offset]: "COFF_CHARACTERISTICS_ENCODING_DIM = 16"

definition encodeCOFFCharacteristics :: "u16 \<Rightarrow> nat \<Rightarrow> fl list \<Rightarrow> fl list res" where
  "encodeCOFFCharacteristics chr p mem =
     bnd (memset0 p COFF_CHARACTERISTICS_ENCODING_DIM mem) (encode_flags coff_characteristics coff_flags chr p)"

text \<open>\<open>dll_characteristics_encoding.cpp\<close>.\<close>

definition dll_flags :: "(nat \<times> string) list" where
  "dll_flags = [
    (0, ''IMAGE_DLLCHARACTERISTICS_HIGH_ENTROPY_VA''), (1, ''IMAGE_DLLCHARACTERISTICS_DYNAMIC_BASE''),
    (2, ''IMAGE_DLLCHARACTERISTICS_FORCE_INTEGRITY''), (3, ''IMAGE_DLLCHARACTERISTICS_NX_COMPAT''),
    (4, ''IMAGE_DLLCHARACTERISTICS_NO_ISOLATION''), (5, ''IMAGE_DLLCHARACTERISTICS_NO_SEH''),
    (6, ''IMAGE_DLLCHARACTERISTICS_NO_BIND''), (7, ''IMAGE_DLLCHARACTERISTICS_APPCONTAINER''),
    (8, ''IMAGE_DLLCHARACTERISTICS_WDM_DRIVER''), (9, ''IMAGE_DLLCHARACTERISTICS_GUARD_CF''),
    (10, ''IMAGE_DLLCHARACTERISTICS_TERMINAL_SERVER_AWARE'')]"

definition DLL_CHARACTERISTICS_ENCODING_DIM :: nat where [header_offset]: "DLL_CHARACTERISTICS_ENCODING_DIM = 11"

definition encodeDLLCharacteristics :: "u16 \<Rightarrow> nat \<Rightarrow> fl list \<Rightarrow> fl list res" where
  "encodeDLLCharacteristics chr p mem =
     bnd (memset0 p DLL_CHARACTERISTICS_ENCODING_DIM mem) (encode_flags dll_characteristics dll_flags chr p)"

text \<open>\<open>dos_header_encoding.cpp\<close>.\<close>

definition DOS_HEADERS_ENCODING_DIM :: nat where [header_offset]: "DOS_HEADERS_ENCODING_DIM = 17"

definition encodeDOSHeaders :: "dos_header \<Rightarrow> nat \<Rightarrow> fl list \<Rightarrow> fl list res" where
  "encodeDOSHeaders dos p = assign p [
     (0, fl_of_word f32 (e_magic dos)),
     (1, fl_of_word f32 (e_cblp dos)),
     (2, fl_of_word f32 (e_cp dos)),
     (3, fl_of_word f32 (e_crlc dos)),
     (4, fl_of_word f32 (e_cparhdr dos)),
     (5, fl_of_word f32 (e_minalloc dos)),
     (6, fl_of_word f32 (e_maxalloc dos)),
     (7, fl_of_word f32 (e_ss dos)),
     (8, fl_of_word f32 (e_sp dos)),
     (9, fl_of_word f32 (e_csum dos)),
     (10, fl_of_word f32 (e_ip dos)),
     (11, fl_of_word f32 (e_cs dos)),
     (12, fl_of_word f32 (e_lfarlc dos)),
     (13, fl_of_word f32 (e_ovno dos)),
     (14, fl_of_word f32 (e_oemid dos)),
     (15, fl_of_word f32 (e_oeminfo dos)),
     (16, fl_of_word f32 (e_lfanew dos))]"

section \<open>Offsets\<close>

definition MACHINE_TYPE_ENCODING_DIM :: nat where [header_offset]: "MACHINE_TYPE_ENCODING_DIM = 1"
definition SUBSYSTEM_TYPE_ENCODING_DIM :: nat where [header_offset]: "SUBSYSTEM_TYPE_ENCODING_DIM = 1"

definition COFF_TIMESTAMP :: nat where [header_offset]: "COFF_TIMESTAMP = 0"
definition COFF_NUM_SECTIONS :: nat where [header_offset]: "COFF_NUM_SECTIONS = COFF_TIMESTAMP + 1"
definition COFF_NUM_SYMBOLS :: nat where [header_offset]: "COFF_NUM_SYMBOLS = COFF_NUM_SECTIONS + 1"
definition COFF_SIZEOF_OPTIONAL_HEADER :: nat where [header_offset]: "COFF_SIZEOF_OPTIONAL_HEADER = COFF_NUM_SYMBOLS + 1"
definition COFF_PTR_TO_SYMBOL_TABLE :: nat where [header_offset]: "COFF_PTR_TO_SYMBOL_TABLE = COFF_SIZEOF_OPTIONAL_HEADER + 1"
definition COFF_MACHINE_TYPE :: nat where [header_offset]: "COFF_MACHINE_TYPE = COFF_PTR_TO_SYMBOL_TABLE + MACHINE_TYPE_ENCODING_DIM"
definition OPT_SUBSYSTEM_TYPE :: nat where [header_offset]: "OPT_SUBSYSTEM_TYPE = COFF_MACHINE_TYPE + SUBSYSTEM_TYPE_ENCODING_DIM"
definition OPT_MAJOR_IMAGE_VERSION :: nat where [header_offset]: "OPT_MAJOR_IMAGE_VERSION = OPT_SUBSYSTEM_TYPE + 1"
definition OPT_MINOR_IMAGE_VERSION :: nat where [header_offset]: "OPT_MINOR_IMAGE_VERSION = OPT_MAJOR_IMAGE_VERSION + 1"
definition OPT_MAJOR_LINKER_VERSION :: nat where [header_offset]: "OPT_MAJOR_LINKER_VERSION = OPT_MINOR_IMAGE_VERSION + 1"
definition OPT_MINOR_LINKER_VERSION :: nat where [header_offset]: "OPT_MINOR_LINKER_VERSION = OPT_MAJOR_LINKER_VERSION + 1"
definition OPT_MAJOR_OS_VERSION :: nat where [header_offset]: "OPT_MAJOR_OS_VERSION = OPT_MINOR_LINKER_VERSION + 1"
definition OPT_MINOR_OS_VERSION :: nat where [header_offset]: "OPT_MINOR_OS_VERSION = OPT_MAJOR_OS_VERSION + 1"
definition OPT_MAJOR_SUBSYSTEM_VERSION :: nat where [header_offset]: "OPT_MAJOR_SUBSYSTEM_VERSION = OPT_MINOR_OS_VERSION + 1"
definition OPT_MINOR_SUBSYSTEM_VERSION :: nat where [header_offset]: "OPT_MINOR_SUBSYSTEM_VERSION = OPT_MAJOR_SUBSYSTEM_VERSION + 1"
definition OPT_SIZEOF_CODE :: nat where [header_offset]: "OPT_SIZEOF_CODE = OPT_MINOR_SUBSYSTEM_VERSION + 1"
definition OPT_SIZEOF_HEADERS :: nat where [header_offset]: "OPT_SIZEOF_HEADERS = OPT_SIZEOF_CODE + 1"
definition OPT_SIZEOF_IMAGE :: nat where [header_offset]: "OPT_SIZEOF_IMAGE = OPT_SIZEOF_HEADERS + 1"
definition OPT_SIZEOF_INITIALIZED_DATA :: nat where [header_offset]: "OPT_SIZEOF_INITIALIZED_DATA = OPT_SIZEOF_IMAGE + 1"
definition OPT_SIZEOF_UNINITIALIZED_DATA :: nat where [header_offset]: "OPT_SIZEOF_UNINITIALIZED_DATA = OPT_SIZEOF_INITIALIZED_DATA + 1"
definition OPT_SIZEOF_STACK_RESERVE :: nat where [header_offset]: "OPT_SIZEOF_STACK_RESERVE = OPT_SIZEOF_UNINITIALIZED_DATA + 1"
definition OPT_SIZEOF_STACK_COMMIT :: nat where [header_offset]: "OPT_SIZEOF_STACK_COMMIT = OPT_SIZEOF_STACK_RESERVE + 1"
definition OPT_SIZEOF_HEAP_RESERVE :: nat where [header_offset]: "OPT_SIZEOF_HEAP_RESERVE = OPT_SIZEOF_STACK_COMMIT + 1"
definition OPT_SIZEOF_HEAP_COMMIT :: nat where [header_offset]: "OPT_SIZEOF_HEAP_COMMIT = OPT_SIZEOF_HEAP_RESERVE + 1"
definition OPT_ADDRESS_OF_ENTRYPOINT :: nat where [header_offset]: "OPT_ADDRESS_OF_ENTRYPOINT = OPT_SIZEOF_HEAP_COMMIT + 1"
definition OPT_BASE_OF_CODE :: nat where [header_offset]: "OPT_BASE_OF_CODE = OPT_ADDRESS_OF_ENTRYPOINT + 1"
definition OPT_IMAGE_BASE :: nat where [header_offset]: "OPT_IMAGE_BASE = OPT_BASE_OF_CODE + 1"
definition OPT_SECTION_ALIGNMENT :: nat where [header_offset]: "OPT_SECTION_ALIGNMENT = OPT_IMAGE_BASE + 1"
definition OPT_CHECKSUM :: nat where [header_offset]: "OPT_CHECKSUM = OPT_SECTION_ALIGNMENT + 1"
definition OPT_NUM_RVAS_AND_SIZES :: nat where [header_offset]: "OPT_NUM_RVAS_AND_SIZES = OPT_CHECKSUM + 1"
definition COFF_CHARACTERISTIC_VECTOR :: nat where [header_offset]: "COFF_CHARACTERISTIC_VECTOR = OPT_NUM_RVAS_AND_SIZES + 1"
definition OPT_DLL_CHARACTERISTICS_VECTOR :: nat where [header_offset]: "OPT_DLL_CHARACTERISTICS_VECTOR = COFF_CHARACTERISTIC_VECTOR + COFF_CHARACTERISTICS_ENCODING_DIM"
definition DOS_VECTOR :: nat where [header_offset]: "DOS_VECTOR = OPT_DLL_CHARACTERISTICS_VECTOR + DLL_CHARACTERISTICS_ENCODING_DIM"

section \<open>The feature type\<close>

definition header_dim :: nat where "header_dim = 74"

definition header_getName :: bytes where "header_getName = lit ''header''"

definition header_reset :: "nat \<Rightarrow> pe_file \<Rightarrow> unit \<times> fl list \<Rightarrow> (unit \<times> fl list) res" where
  "header_reset p f st = Inr st"

definition header_fields :: "coff_header \<Rightarrow> optional_header \<Rightarrow> dos_header \<Rightarrow> nat \<Rightarrow> fl list \<Rightarrow> fl list res" where
  "header_fields coff opt dos p mem =
     bnd (assign p [
       (COFF_TIMESTAMP, fl_of_word f32 (TimeDateStamp coff)),
       (COFF_NUM_SECTIONS, fl_of_word f32 (NumberOfSections coff)),
       (COFF_NUM_SYMBOLS, fl_of_word f32 (NumberOfSymbols coff)),
       (COFF_SIZEOF_OPTIONAL_HEADER, fl_of_word f32 (SizeOfOptionalHeader coff)),
       (COFF_PTR_TO_SYMBOL_TABLE, fl_of_word f32 (PointerToSymbolTable coff))] mem) (\<lambda>mem.
     bnd (encodeMachineType (Machine coff) (p + COFF_MACHINE_TYPE) mem) (\<lambda>mem.
     bnd (encodeSubsystemType (Subsystem opt) (p + OPT_SUBSYSTEM_TYPE) mem) (\<lambda>mem.
     bnd (assign p [
       (OPT_MAJOR_IMAGE_VERSION, fl_of_word f32 (MajorImageVersion opt)),
       (OPT_MINOR_IMAGE_VERSION, fl_of_word f32 (MinorImageVersion opt)),
       (OPT_MAJOR_LINKER_VERSION, fl_of_word f32 (MajorLinkerVersion opt)),
       (OPT_MINOR_LINKER_VERSION, fl_of_word f32 (MinorLinkerVersion opt)),
       (OPT_MAJOR_OS_VERSION, fl_of_word f32 (MajorOperatingSystemVersion opt)),
       (OPT_MINOR_OS_VERSION, fl_of_word f32 (MinorOperatingSystemVersion opt)),
       (OPT_MAJOR_SUBSYSTEM_VERSION, fl_of_word f32 (MajorSubsystemVersion opt)),
       (OPT_MINOR_SUBSYSTEM_VERSION, fl_of_word f32 (MinorSubsystemVersion opt)),
       (OPT_SIZEOF_CODE, fl_of_word f32 (SizeOfCode opt)),
       (OPT_SIZEOF_HEADERS, fl_of_word f32 (SizeOfHeaders opt)),
       (OPT_SIZEOF_IMAGE, fl_of_word f32 (SizeOfImage opt)),
       (OPT_SIZEOF_INITIALIZED_DATA, fl_of_word f32 (SizeOfInitializedData opt)),
       (OPT_SIZEOF_UNINITIALIZED_DATA, fl_of_word f32 (SizeOfUninitializedData opt)),
       (OPT_SIZEOF_STACK_RESERVE, fl_of_word f32 (SizeOfStackReserve opt)),
       (OPT_SIZEOF_STACK_COMMIT, fl_of_word f32 (SizeOfStackCommit opt)),
       (OPT_SIZEOF_HEAP_RESERVE, fl_of_word f32 (SizeOfHeapReserve opt)),
       (OPT_SIZEOF_HEAP_COMMIT, fl_of_word f32 (SizeOfHeapCommit opt)),
       (OPT_ADDRESS_OF_ENTRYPOINT, fl_of_word f32 (AddressOfEntryPoint opt)),
       (OPT_BASE_OF_CODE, fl_of_word f32 (BaseOfCode opt)),
       (OPT_IMAGE_BASE, fl_of_word f32 (ImageBase opt)),
       (OPT_SECTION_ALIGNMENT, fl_of_word f32 (SectionAlignment opt)),
       (OPT_CHECKSUM, fl_of_word f32 (CheckSum opt)),
       (OPT_NUM_RVAS_AND_SIZES, fl_of_word f32 (NumberOfRvaAndSizes opt))] mem) (\<lambda>mem.
     bnd (encodeCOFFCharacteristics (Characteristics coff) (p + COFF_CHARACTERISTIC_VECTOR) mem) (\<lambda>mem.
     bnd (encodeDLLCharacteristics (DllCharacteristics opt) (p + OPT_DLL_CHARACTERISTICS_VECTOR) mem) (\<lambda>mem.
     bnd (encodeDOSHeaders dos (p + DOS_VECTOR) mem) (\<lambda>mem.
       Inr mem)))))))"

definition header_start :: "nat \<Rightarrow> pe_file \<Rightarrow> unit \<times> fl list \<Rightarrow> (unit \<times> fl list) res" where
  "header_start p f st = (case st of (s, mem) \<Rightarrow> bnd (memset0 p header_dim mem) (\<lambda>mem.
     if \<not> isPEFile f then Inr (s, mem)
     else map_res (Pair s) (header_fields (coffHeader f) (optionalHeader f) (dosHeader f) p mem)))"

definition header_reduce ::
  "nat \<Rightarrow> pe_file \<Rightarrow> size_t \<Rightarrow> bytes \<Rightarrow> unit \<times> fl list \<Rightarrow> (unit \<times> fl list) res" where
  "header_reduce p f bufOffset block st = Inr st"

definition header_finalize :: "nat \<Rightarrow> pe_file \<Rightarrow> unit \<times> fl list \<Rightarrow> (unit \<times> fl list) res" where
  "header_finalize p f st = Inr st"

definition header_getMaxDim :: size_t where "header_getMaxDim = of_nat header_dim"

section \<open>The features of the headers\<close>

definition ordinal_of :: "(u16 \<times> string) list \<Rightarrow> (nat \<times> string) list \<Rightarrow> u16 \<Rightarrow> feature_t" where
  "ordinal_of table cases v = (case find (\<lambda>(k, name). value_of table name = v) cases of
     None \<Rightarrow> fl_zero | Some (k, name) \<Rightarrow> fl_of_nat f32 k)"

definition flag :: "bool \<Rightarrow> feature_t" where
  "flag b = (if b then fl_one else fl_zero)"

text \<open>The specification: the header features as one list.\<close>

definition scalar_fields :: "coff_header \<Rightarrow> optional_header \<Rightarrow> feature_t list" where
  "scalar_fields coff opt =
     [fl_of_word f32 (TimeDateStamp coff),
      fl_of_word f32 (NumberOfSections coff),
      fl_of_word f32 (NumberOfSymbols coff),
      fl_of_word f32 (SizeOfOptionalHeader coff),
      fl_of_word f32 (PointerToSymbolTable coff),
      ordinal_of machine_types machine_type_cases (Machine coff),
      ordinal_of subsystem_types subsystem_type_cases (Subsystem opt),
      fl_of_word f32 (MajorImageVersion opt),
      fl_of_word f32 (MinorImageVersion opt),
      fl_of_word f32 (MajorLinkerVersion opt),
      fl_of_word f32 (MinorLinkerVersion opt),
      fl_of_word f32 (MajorOperatingSystemVersion opt),
      fl_of_word f32 (MinorOperatingSystemVersion opt),
      fl_of_word f32 (MajorSubsystemVersion opt),
      fl_of_word f32 (MinorSubsystemVersion opt),
      fl_of_word f32 (SizeOfCode opt),
      fl_of_word f32 (SizeOfHeaders opt),
      fl_of_word f32 (SizeOfImage opt),
      fl_of_word f32 (SizeOfInitializedData opt),
      fl_of_word f32 (SizeOfUninitializedData opt),
      fl_of_word f32 (SizeOfStackReserve opt),
      fl_of_word f32 (SizeOfStackCommit opt),
      fl_of_word f32 (SizeOfHeapReserve opt),
      fl_of_word f32 (SizeOfHeapCommit opt),
      fl_of_word f32 (AddressOfEntryPoint opt),
      fl_of_word f32 (BaseOfCode opt),
      fl_of_word f32 (ImageBase opt),
      fl_of_word f32 (SectionAlignment opt),
      fl_of_word f32 (CheckSum opt),
      fl_of_word f32 (NumberOfRvaAndSizes opt)]"

definition dos_fields :: "dos_header \<Rightarrow> feature_t list" where
  "dos_fields dos =
     [fl_of_word f32 (e_magic dos),
      fl_of_word f32 (e_cblp dos),
      fl_of_word f32 (e_cp dos),
      fl_of_word f32 (e_crlc dos),
      fl_of_word f32 (e_cparhdr dos),
      fl_of_word f32 (e_minalloc dos),
      fl_of_word f32 (e_maxalloc dos),
      fl_of_word f32 (e_ss dos),
      fl_of_word f32 (e_sp dos),
      fl_of_word f32 (e_csum dos),
      fl_of_word f32 (e_ip dos),
      fl_of_word f32 (e_cs dos),
      fl_of_word f32 (e_lfarlc dos),
      fl_of_word f32 (e_ovno dos),
      fl_of_word f32 (e_oemid dos),
      fl_of_word f32 (e_oeminfo dos),
      fl_of_word f32 (e_lfanew dos)]"

definition header_vector :: "pe_file \<Rightarrow> feature_t list" where
  "header_vector f = (if isPEFile f
     then scalar_fields (coffHeader f) (optionalHeader f) @
          map (\<lambda>i. flag (bit (Characteristics (coffHeader f)) i)) [0..<16] @
          map (\<lambda>i. flag (bit (DllCharacteristics (optionalHeader f)) (i + 5))) [0..<11] @
          dos_fields (dosHeader f)
     else replicate header_dim fl_zero)"

lemma encode_ordinal_segment [segment]:
  "j < length vs \<Longrightarrow> p + length vs \<le> length xs \<Longrightarrow>
   encode_ordinal table cases v (p + j) (blit xs p vs) = Inr (blit xs p (vs[j := ordinal_of table cases v]))"
  by (simp add: encode_ordinal_def ordinal_of_def segment split: option.split)

lemma encode_flags_assign:
  "encode_flags table cases chr p =
   assign p (map (\<lambda>(i, name). (i, fl_one)) (filter (\<lambda>(i, name). (chr AND value_of table name) \<noteq> 0) cases))"
proof
  fix mem
  show "encode_flags table cases chr p mem =
     assign p (map (\<lambda>(i, name). (i, fl_one)) (filter (\<lambda>(i, name). (chr AND value_of table name) \<noteq> 0) cases)) mem"
    by (induction cases arbitrary: mem) (auto simp: encode_flags_def assign_def cong: bnd_cong)
qed

lemma assign_shift: "assign (p + j) as = assign p (map (\<lambda>(i, v). (j + i, v)) as)"
proof
  fix mem
  show "assign (p + j) as mem = assign p (map (\<lambda>(i, v). (j + i, v)) as) mem"
    by (induction as arbitrary: mem) (auto simp: assign_def add.assoc cong: bnd_cong)
qed

lemma assigned_one: "assigned (map (\<lambda>(i, name). (i, v)) as) (replicate n z) =
  map (\<lambda>i. if i \<in> fst ` set as then v else z) [0..<n]"
proof -
  have "assigned (map (\<lambda>(i, name). (i, v)) as) vs = map (\<lambda>i. if i \<in> fst ` set as then v else vs ! i) [0..<length vs]" for vs
    unfolding assigned_def
    by (induction as arbitrary: vs) (auto simp: nth_list_update intro!: nth_equalityI)
  then show ?thesis by (auto intro: nth_equalityI)
qed

lemma assigned_enumerate:
  "j + length ys \<le> length vs \<Longrightarrow> assigned (enumerate j ys) vs = blit vs j ys"
proof (induction ys arbitrary: j vs)
  case (Cons y ys)
  have "assigned (enumerate j (y # ys)) vs = blit (vs[j := y]) (Suc j) ys"
    using Cons.IH [of "Suc j" "vs[j := y]"] Cons.prems by (simp add: assigned_def)
  also have "\<dots> = blit vs j (y # ys)"
    using Cons.prems by (intro nth_equalityI) (auto simp: nth_blit nth_list_update nth_Cons' Suc_le_eq)
  finally show ?case .
qed (simp add: assigned_def)

lemma encode_flags_segment:
  assumes "map fst cases = [0..<n]" "\<forall>(i, name) \<in> set cases. value_of table name = 2 ^ (i + k)"
    and "j + n \<le> length vs" "p + length vs \<le> length xs"
  shows "bnd (memset0 (p + j) n (blit xs p vs)) (encode_flags table cases chr (p + j)) =
    Inr (blit xs p (blit vs j (map (\<lambda>i. flag (bit chr (i + k))) [0..<n])))"
proof -
  let ?hit = "filter (\<lambda>(i, name). (chr AND value_of table name) \<noteq> 0) cases"
  have hit: "i \<in> fst ` set ?hit \<longleftrightarrow> bit chr (i + k)" if "i < n" for i
  proof -
    have "i \<in> fst ` set cases" using that assms(1) by (metis atLeastLessThan_upt list.set_map atLeastLessThan_iff zero_le)
    then obtain name where n: "(i, name) \<in> set cases" by auto
    have "(chr AND value_of table name') \<noteq> 0 \<longleftrightarrow> bit chr (i' + k)" if "(i', name') \<in> set cases" for i' name'
      using that assms(2) by (auto simp: and_exp_eq_0_iff_not_bit)
    with n show ?thesis by force
  qed
  have "assigned (map (\<lambda>(i, name). (i, fl_one)) ?hit) (replicate n fl_zero) =
      map (\<lambda>i. flag (bit chr (i + k))) [0..<n]"
    unfolding assigned_one using hit by (simp add: flag_def)
  moreover have "fst a < n" if "a \<in> set (map (\<lambda>(i, name). (i, fl_one)) ?hit)" for a
  proof -
    have "fst a \<in> set (map fst cases)" using that by force
    then show ?thesis unfolding assms(1) by simp
  qed
  moreover have "memset0 (p + j) n (blit xs p vs) = Inr (blit (blit xs p vs) (p + j) (replicate n fl_zero))"
    using assms(3,4) by (simp add: memset0_def segment)
  ultimately show ?thesis
    using assms(3,4) assign_segment [of "map (\<lambda>(i, name). (i, fl_one)) ?hit" "replicate n fl_zero" "p + j" "blit xs p vs"]
    by (simp add: encode_flags_assign segment)
qed

lemma coff_flags_ok:
  "map fst coff_flags = [0..<16]" "\<forall>(i, name) \<in> set coff_flags. value_of coff_characteristics name = 2 ^ (i + 0)"
  by code_simp+

lemma dll_flags_ok:
  "map fst dll_flags = [0..<11]" "\<forall>(i, name) \<in> set dll_flags. value_of dll_characteristics name = 2 ^ (i + 5)"
  by code_simp+

lemma encodeCOFF_segment [segment]:
  "j + 16 \<le> length vs \<Longrightarrow> p + length vs \<le> length xs \<Longrightarrow>
   encodeCOFFCharacteristics chr (p + j) (blit xs p vs) =
     Inr (blit xs p (blit vs j (map (\<lambda>i. flag (bit chr i)) [0..<16])))"
  using encode_flags_segment [OF coff_flags_ok, of j vs p xs chr]
  by (simp add: encodeCOFFCharacteristics_def COFF_CHARACTERISTICS_ENCODING_DIM_def)

lemma encodeDLL_segment [segment]:
  "j + 11 \<le> length vs \<Longrightarrow> p + length vs \<le> length xs \<Longrightarrow>
   encodeDLLCharacteristics chr (p + j) (blit xs p vs) =
     Inr (blit xs p (blit vs j (map (\<lambda>i. flag (bit chr (i + 5))) [0..<11])))"
  using encode_flags_segment [OF dll_flags_ok, of j vs p xs chr]
  by (simp add: encodeDLLCharacteristics_def DLL_CHARACTERISTICS_ENCODING_DIM_def)

lemma encodeDOS_segment [segment]:
  assumes "j + 17 \<le> length vs" "p + length vs \<le> length xs"
  shows "encodeDOSHeaders dos (p + j) (blit xs p vs) = Inr (blit xs p (blit vs j (dos_fields dos)))"
proof -
  let ?ws = "take 17 (drop j vs)"
  have e: "encodeDOSHeaders dos (p + j) = assign (p + j) (enumerate 0 (dos_fields dos))"
    by (simp add: encodeDOSHeaders_def dos_fields_def eval_nat_numeral)
  have l: "length (dos_fields dos) = 17" by (simp add: dos_fields_def)
  have "blit xs p vs = blit (blit xs p vs) (p + j) ?ws"
    using assms by (simp add: segment blit_self)
  moreover have "\<forall>a \<in> set (enumerate 0 (dos_fields dos)). fst a < length ?ws"
    using assms(1) l by (auto simp: enumerate_eq_zip set_zip)
  moreover have "assigned (enumerate 0 (dos_fields dos)) ?ws = dos_fields dos"
    using assms(1) l by (simp add: assigned_enumerate blit_whole)
  ultimately have "encodeDOSHeaders dos (p + j) (blit xs p vs) = Inr (blit (blit xs p vs) (p + j) (dos_fields dos))"
    using assms assign_segment [of "enumerate 0 (dos_fields dos)" ?ws "p + j" "blit xs p vs"] l
    by (simp add: e segment)
  then show ?thesis using assms l by (simp add: segment)
qed

lemma header_offset_values:
  "COFF_TIMESTAMP = 0"
  "COFF_NUM_SECTIONS = 1"
  "COFF_NUM_SYMBOLS = 2"
  "COFF_SIZEOF_OPTIONAL_HEADER = 3"
  "COFF_PTR_TO_SYMBOL_TABLE = 4"
  "COFF_MACHINE_TYPE = 5"
  "OPT_SUBSYSTEM_TYPE = 6"
  "OPT_MAJOR_IMAGE_VERSION = 7"
  "OPT_MINOR_IMAGE_VERSION = 8"
  "OPT_MAJOR_LINKER_VERSION = 9"
  "OPT_MINOR_LINKER_VERSION = 10"
  "OPT_MAJOR_OS_VERSION = 11"
  "OPT_MINOR_OS_VERSION = 12"
  "OPT_MAJOR_SUBSYSTEM_VERSION = 13"
  "OPT_MINOR_SUBSYSTEM_VERSION = 14"
  "OPT_SIZEOF_CODE = 15"
  "OPT_SIZEOF_HEADERS = 16"
  "OPT_SIZEOF_IMAGE = 17"
  "OPT_SIZEOF_INITIALIZED_DATA = 18"
  "OPT_SIZEOF_UNINITIALIZED_DATA = 19"
  "OPT_SIZEOF_STACK_RESERVE = 20"
  "OPT_SIZEOF_STACK_COMMIT = 21"
  "OPT_SIZEOF_HEAP_RESERVE = 22"
  "OPT_SIZEOF_HEAP_COMMIT = 23"
  "OPT_ADDRESS_OF_ENTRYPOINT = 24"
  "OPT_BASE_OF_CODE = 25"
  "OPT_IMAGE_BASE = 26"
  "OPT_SECTION_ALIGNMENT = 27"
  "OPT_CHECKSUM = 28"
  "OPT_NUM_RVAS_AND_SIZES = 29"
  "COFF_CHARACTERISTIC_VECTOR = 30"
  "OPT_DLL_CHARACTERISTICS_VECTOR = 46"
  "DOS_VECTOR = 57"
  by (simp_all add: header_offset)

lemma header_fields_segment:
  assumes "length vs = 74" "p + 74 \<le> length xs"
  shows "header_fields coff opt dos p (blit xs p vs) = Inr (blit xs p (
    scalar_fields coff opt @ map (\<lambda>i. flag (bit (Characteristics coff) i)) [0..<16] @
    map (\<lambda>i. flag (bit (DllCharacteristics opt) (i + 5))) [0..<11] @ dos_fields dos))"
proof -
  have l: "length (scalar_fields coff opt) = 30" "length (dos_fields dos) = 17"
    by (simp_all add: scalar_fields_def dos_fields_def)
  have b: "blit vs 0 (scalar_fields coff opt) = assigned (enumerate 0 (scalar_fields coff opt)) vs"
    using assms(1) l by (simp add: assigned_enumerate)
  have "header_fields coff opt dos p (blit xs p vs) =
      Inr (blit xs p (blit (blit (blit (blit vs 0 (scalar_fields coff opt))
        30 (map (\<lambda>i. flag (bit (Characteristics coff) i)) [0..<16]))
        46 (map (\<lambda>i. flag (bit (DllCharacteristics opt) (i + 5))) [0..<11])) 57 (dos_fields dos)))"
    unfolding b using assms l
    apply (simp add: header_fields_def header_offset_values encodeMachineType_def encodeSubsystemType_def segment)
    apply (simp add: scalar_fields_def assigned_def eval_nat_numeral)
    done
  moreover have "blit (blit (blit (blit vs 0 (scalar_fields coff opt))
        30 (map (\<lambda>i. flag (bit (Characteristics coff) i)) [0..<16]))
        46 (map (\<lambda>i. flag (bit (DllCharacteristics opt) (i + 5))) [0..<11])) 57 (dos_fields dos) =
    scalar_fields coff opt @ map (\<lambda>i. flag (bit (Characteristics coff) i)) [0..<16] @
    map (\<lambda>i. flag (bit (DllCharacteristics opt) (i + 5))) [0..<11] @ dos_fields dos"
    using assms(1) l by (simp add: blit_def del: upt_Suc)
  ultimately show ?thesis by simp
qed

lemma length_header_vector [simp]: "length (header_vector f) = 74"
  by (simp add: header_vector_def header_dim_def scalar_fields_def dos_fields_def)

lemma header_start_vector:
  assumes "fits p header_dim mem"
  shows "header_start p f (s, mem) = Inr (s, blit mem p (header_vector f))"
  using assms header_fields_segment [of "replicate 74 fl_zero" p mem]
  by (simp add: header_start_def memset0_fits fits_def header_vector_def header_dim_def)

interpretation header: start_feature header_dim header_reset header_start header_finalize header_reduce header_vector
  by unfold_locales
    (simp_all add: header_reset_def header_reduce_def header_finalize_def header_start_vector header_dim_def)

section \<open>Properties\<close>

text \<open>
  C16. A run of the header feature type over any file, cut in any way, writes exactly the 74
  cells of its segment: the scalar fields in the order of their offsets, one flag per bit of the
  COFF characteristics, one per bit of the DLL characteristics from bit 5 on, and the fields of
  the DOS header; all zero for a file that is not a PE file.
\<close>

theorem header_features:
  assumes "pe_ok f" "fits p 74 mem" "length (concat bs) < 2 ^ 61"
  shows "ft_run header_reset header_start header_finalize header_reduce p f bs ((), mem) =
    Inr ((), blit mem p (if isPEFile f
      then scalar_fields (coffHeader f) (optionalHeader f) @
           map (\<lambda>i. flag (bit (Characteristics (coffHeader f)) i)) [0..<16] @
           map (\<lambda>i. flag (bit (DllCharacteristics (optionalHeader f)) (i + 5))) [0..<11] @
           dos_fields (dosHeader f)
      else replicate 74 fl_zero))"
  using header.run_features [OF TrueI assms(1) _ assms(3), of p mem "()"] assms(2)
  by (simp add: header_dim_def header_vector_def)

theorem header_features_witness:
  "ft_run header_reset header_start header_finalize header_reduce 1 (pe_file_init 3) [lit ''abc''] ((), replicate 76 NaN) =
   Inr ((), NaN # replicate 74 fl_zero @ [NaN])"
proof -
  have "blit (replicate 76 NaN) 1 (replicate 74 fl_zero) = NaN # replicate 74 fl_zero @ [NaN]"
    by (simp add: blit_def)
  moreover have "\<not> isPEFile (pe_file_init 3)" by (simp add: isPEFile_def pe_file_init_def)
  ultimately show ?thesis
    using header_features [OF pe_ok_init, of 1 "replicate 76 NaN" "[lit ''abc'']" 3]
    by (simp add: fits_def lit_def)
qed

section \<open>Reading the headers back\<close>

text \<open>
  The inverse of the encoding, by the places of the cells: the number in a cell, the word whose bits
  are the flags of some cells, and the declared value that an ordinal stands for.
\<close>

fun cell_value :: "feature_t \<Rightarrow> rat" where
  "cell_value (Fin s q) = signed s q"
| "cell_value _ = 0"

definition cell_word :: "feature_t \<Rightarrow> 'w::len word" where
  "cell_word x = of_int \<lfloor>cell_value x\<rfloor>"

definition flags_word :: "feature_t list \<Rightarrow> u16" where
  "flags_word xs = horner_sum of_bool 2 (map (\<lambda>x. x \<noteq> fl_zero) xs)"

definition named_value :: "(u16 \<times> string) list \<Rightarrow> (nat \<times> string) list \<Rightarrow> feature_t \<Rightarrow> u16" where
  "named_value table cases x = (case find (\<lambda>(k, name). cell_value x = of_nat k) cases of
     Some (k, name) \<Rightarrow> value_of table name | None \<Rightarrow> 0)"

text \<open>A cell that shows a number: exactly below \<open>2 ^ 24\<close>, else up to the rounding of a \<open>float\<close>.\<close>

definition shows_number :: "feature_t \<Rightarrow> nat \<Rightarrow> bool" where
  "shows_number x n \<longleftrightarrow> \<bar>cell_value x - of_nat n\<bar> \<le> of_nat n / 2 ^ 24 \<and> (n < 2 ^ 24 \<longrightarrow> cell_value x = of_nat n)"

lemma shows_number_nat:
  assumes "n \<le> 2 ^ 64"
  shows "shows_number (fl_of_nat f32 n) n"
proof (cases "n = 0")
  case True
  then show ?thesis by (simp add: shows_number_def signed_def)
next
  case False
  let ?q = "of_nat n :: rat"
  have q: "1 \<le> ?q" "0 < ?q" using False by simp_all
  then have "p2 0 < p2 (rlog2 ?q + 1)" using rlog2_bounds [of ?q] unfolding p2_0 by linarith
  then have "0 < rlog2 ?q + 1" by (simp only: p2_less_iff)
  then have "ulp_exp f32 ?q = rlog2 ?q - 23" by (simp add: ulp_exp_def)
  then have "p2 (ulp_exp f32 ?q) / 2 = p2 (rlog2 ?q) / 2 ^ 24" using p2_of_nat [of 23] by (simp add: p2_diff)
  also have "\<dots> \<le> ?q / 2 ^ 24" using rlog2_bounds [OF q(2)] by (intro divide_right_mono) simp_all
  finally have "\<bar>round_mag f32 ?q - ?q\<bar> \<le> ?q / 2 ^ 24" using round_error [OF q(2), of f32] by linarith
  moreover obtain r where "fl_of_nat f32 n = Fin False r" using fl_of_nat_fin [OF assms] by blast
  then have "cell_value (fl_of_nat f32 n) = round_mag f32 ?q"
    by (auto simp: fl_of_nat_def fl_round_def Let_def signed_def split: if_splits)
  ultimately show ?thesis using fl_of_nat_exact [of f32 n] by (simp add: shows_number_def signed_def)
qed

lemma shows_number_word: "LENGTH('w::len) \<le> 64 \<Longrightarrow> shows_number (fl_of_word f32 (w :: 'w word)) (unat w)"
  using unat_bound [of w] power_increasing [of "LENGTH('w)" 64 "2 :: nat"]
  unfolding fl_of_word_def by (intro shows_number_nat) linarith

lemma cell_word_word:
  fixes w :: "'w::len word"
  assumes "LENGTH('w) \<le> 24"
  shows "cell_word (fl_of_word f32 w) = w"
proof -
  have "(2::nat) ^ LENGTH('w) \<le> 2 ^ 24" using assms by (intro power_increasing) simp_all
  then have "unat w < 2 ^ prec f32" using less_le_trans [OF unat_bound [of w]] by simp
  then have "fl_of_word f32 w = Fin False (of_nat (unat w))"
    unfolding fl_of_word_def by (intro fl_of_nat_exact) simp_all
  then show ?thesis
    by (simp add: cell_word_def signed_def del: of_nat_unat) simp
qed

lemma flags_word_bits:
  "flags_word (map (\<lambda>i. flag (bit chr (i + k))) [0..<16 - k]) = drop_bit k (chr :: u16)"
proof -
  have "map (\<lambda>x. x \<noteq> fl_zero) (map (\<lambda>i. flag (bit chr (i + k))) [0..<16 - k]) = map (bit (drop_bit k chr)) [0..<16 - k]"
    by (simp add: flag_def fl_one_def fl_zero_def bit_drop_bit_eq add.commute)
  then have "flags_word (map (\<lambda>i. flag (bit chr (i + k))) [0..<16 - k]) = take_bit (16 - k) (drop_bit k chr)"
    unfolding flags_word_def by (simp only: horner_sum_bit_eq_take_bit)
  also have "\<dots> = drop_bit k chr"
    by (intro bit_word_eqI) (auto simp: bit_take_bit_iff bit_drop_bit_eq less_diff_conv add.commute dest: bit_imp_le_length)
  finally show ?thesis .
qed

text \<open>When the cases name the declarations in their order, the ordinal is the number of the case.\<close>

lemma find_nth:
  assumes "i < length xs" "P (xs ! i)" "\<And>j. j < length xs \<Longrightarrow> P (xs ! j) \<Longrightarrow> j = i"
  shows "find P xs = Some (xs ! i)"
proof -
  have "\<not> P (xs ! j)" if "j < i" for j
    using assms(3) [of j] less_trans [OF that assms(1)] that by blast
  then show ?thesis using assms(1,2) by (subst find_Some_iff) blast
qed

lemma value_of_nth:
  assumes "distinct (map snd table)" "i < length table"
  shows "value_of table (snd (table ! i)) = fst (table ! i)"
proof -
  have "find (\<lambda>(v, n). n = snd (table ! i)) table = Some (table ! i)"
    using assms by (intro find_nth) (auto simp: distinct_conv_nth case_prod_unfold)
  then show ?thesis by (simp add: value_of_def split: prod.splits)
qed

lemma ordinal_of_nth:
  assumes "map snd table = map snd cases" "distinct (map snd table)" "distinct (map fst table)" "i < length table"
  shows "ordinal_of table cases (fst (table ! i)) = fl_of_nat f32 (fst (cases ! i))"
proof -
  have l: "length table = length cases" using arg_cong [OF assms(1), of length] by simp
  have n: "snd (cases ! j) = snd (table ! j)" if "j < length table" for j
    using that l arg_cong [OF assms(1), of "\<lambda>xs. xs ! j"] by simp
  have v: "value_of table (snd (cases ! j)) = fst (table ! j)" if "j < length table" for j
    using value_of_nth [OF assms(2) that] n [OF that] by simp
  have "find (\<lambda>(k, name). value_of table name = fst (table ! i)) cases = Some (cases ! i)"
    using assms(3,4) l v
    by (intro find_nth) (auto simp: distinct_conv_nth case_prod_unfold)
  then show ?thesis by (simp add: ordinal_of_def split: prod.splits)
qed

lemma named_value_ordinal:
  assumes "map snd table = map snd cases" "distinct (map snd table)" "distinct (map fst table)" "distinct (map fst cases)"
    and "\<forall>k \<in> fst ` set cases. k < 2 ^ 24" "v \<in> fst ` set table"
  shows "named_value table cases (ordinal_of table cases v) = v"
proof -
  obtain i where i: "i < length table" "v = fst (table ! i)" using assms(6) by (auto simp: in_set_conv_nth)
  have l: "length table = length cases" using arg_cong [OF assms(1), of length] by simp
  have n: "snd (cases ! i) = snd (table ! i)" using i(1) l arg_cong [OF assms(1), of "\<lambda>xs. xs ! i"] by simp
  have "fst (cases ! i) \<in> fst ` set cases" using i(1) l by simp
  then have "fst (cases ! i) < 2 ^ 24" using assms(5) by blast
  then have "cell_value (ordinal_of table cases v) = of_nat (fst (cases ! i))"
    using ordinal_of_nth [OF assms(1-3) i(1)] by (simp add: i(2) fl_of_nat_exact signed_def)
  moreover have "find (\<lambda>(k, name). (of_nat (fst (cases ! i)) :: rat) = of_nat k) cases = Some (cases ! i)"
    using assms(4) i(1) l by (intro find_nth) (auto simp: distinct_conv_nth case_prod_unfold)
  ultimately show ?thesis using value_of_nth [OF assms(2) i(1)] n i(2) by (cases "cases ! i") (simp add: named_value_def)
qed

lemma named_machine:
  assumes "v \<in> fst ` set machine_types"
  shows "named_value machine_types machine_type_cases (ordinal_of machine_types machine_type_cases v) = v"
proof -
  have "map snd machine_types = map snd machine_type_cases" "distinct (map fst machine_type_cases)"
    "\<forall>k \<in> fst ` set machine_type_cases. k < 2 ^ 24"
    by (simp_all add: machine_types_def machine_type_cases_def)
  moreover have "distinct (map snd machine_types)" "distinct (map fst machine_types)" by code_simp+
  ultimately show ?thesis using assms by (intro named_value_ordinal)
qed

lemma named_subsystem:
  assumes "v \<in> fst ` set subsystem_types"
  shows "named_value subsystem_types subsystem_type_cases (ordinal_of subsystem_types subsystem_type_cases v) = v"
proof -
  have "map snd subsystem_types = map snd subsystem_type_cases" "distinct (map fst subsystem_type_cases)"
    "\<forall>k \<in> fst ` set subsystem_type_cases. k < 2 ^ 24"
    by (simp_all add: subsystem_types_def subsystem_type_cases_def)
  moreover have "distinct (map snd subsystem_types)" "distinct (map fst subsystem_types)" by code_simp+
  ultimately show ?thesis using assms by (intro named_value_ordinal)
qed

text \<open>
  C17. What the header features of a PE file say about its headers, read back from the cells that
  \<open>start\<close> wrote, wherever the segment is and whatever it held. The sixteen 16-bit words of the DOS
  header, the number of sections, the size of the optional header and all versions come back
  unchanged, and so do the COFF characteristics; of the DLL characteristics all but the five lowest
  bits; the machine and the subsystem whenever their values are declared. Every wider number, the
  time stamp, the sizes, the addresses and \<open>e_lfanew\<close>, comes back unchanged below \<open>2 ^ 24\<close> and
  otherwise up to a relative error of \<open>2 ^ -24\<close>.
\<close>

theorem header_read_back:
  assumes "isPEFile f" "fits p 74 mem"
    and names: "coff = coffHeader f" "opt = optionalHeader f" "dos = dosHeader f"
  shows "\<exists>mem' v. header_start p f (s, mem) = Inr (s, mem') \<and> v = take 74 (drop p mem') \<and>
    map cell_word (take 16 (drop 57 v)) =
      [e_magic dos, e_cblp dos, e_cp dos, e_crlc dos, e_cparhdr dos, e_minalloc dos, e_maxalloc dos, e_ss dos,
       e_sp dos, e_csum dos, e_ip dos, e_cs dos, e_lfarlc dos, e_ovno dos, e_oemid dos, e_oeminfo dos] \<and>
    map cell_word [v ! 1, v ! 3] = [NumberOfSections coff, SizeOfOptionalHeader coff] \<and>
    map cell_word [v ! 7, v ! 8, v ! 11, v ! 12, v ! 13, v ! 14] =
      [MajorImageVersion opt, MinorImageVersion opt, MajorOperatingSystemVersion opt, MinorOperatingSystemVersion opt,
       MajorSubsystemVersion opt, MinorSubsystemVersion opt] \<and>
    map cell_word [v ! 9, v ! 10] = [MajorLinkerVersion opt, MinorLinkerVersion opt] \<and>
    flags_word (take 16 (drop 30 v)) = Characteristics coff \<and>
    flags_word (take 11 (drop 46 v)) = drop_bit 5 (DllCharacteristics opt) \<and>
    (Machine coff \<in> fst ` set machine_types \<longrightarrow> named_value machine_types machine_type_cases (v ! 5) = Machine coff) \<and>
    (Subsystem opt \<in> fst ` set subsystem_types \<longrightarrow>
       named_value subsystem_types subsystem_type_cases (v ! 6) = Subsystem opt) \<and>
    list_all2 shows_number [v ! 0, v ! 2, v ! 4]
      [unat (TimeDateStamp coff), unat (NumberOfSymbols coff), unat (PointerToSymbolTable coff)] \<and>
    list_all2 shows_number (take 15 (drop 15 v))
      [unat (SizeOfCode opt), unat (SizeOfHeaders opt), unat (SizeOfImage opt), unat (SizeOfInitializedData opt),
       unat (SizeOfUninitializedData opt), unat (SizeOfStackReserve opt), unat (SizeOfStackCommit opt),
       unat (SizeOfHeapReserve opt), unat (SizeOfHeapCommit opt), unat (AddressOfEntryPoint opt), unat (BaseOfCode opt),
       unat (ImageBase opt), unat (SectionAlignment opt), unat (CheckSum opt), unat (NumberOfRvaAndSizes opt)] \<and>
    shows_number (v ! 73) (unat (e_lfanew dos))"
proof -
  let ?chr = "map (\<lambda>i. flag (bit (Characteristics coff) i)) [0..<16]"
  let ?dll = "map (\<lambda>i. flag (bit (DllCharacteristics opt) (i + 5))) [0..<11]"
  define v where "v = header_vector f"
  have v: "v = scalar_fields coff opt @ ?chr @ ?dll @ dos_fields dos"
    using assms(1) by (simp add: v_def header_vector_def names)
  have l: "length (scalar_fields coff opt) = 30" "length (dos_fields dos) = 17"
    by (simp_all add: scalar_fields_def dos_fields_def)
  have start: "header_start p f (s, mem) = Inr (s, blit mem p v)"
    using assms(2) by (simp add: v_def header_start_vector header_dim_def)
  have cells: "take 74 (drop p (blit mem p v)) = v"
    using assms(2) by (simp add: blit_def fits_def v_def)
  have scalars: "v ! i = scalar_fields coff opt ! i" if "i < 30" for i using that l by (simp add: v nth_append)
  have parts: "take 16 (drop 30 v) = ?chr" "take 11 (drop 46 v) = ?dll" "take 16 (drop 57 v) = take 16 (dos_fields dos)"
    "take 15 (drop 15 v) = drop 15 (scalar_fields coff opt)" "v ! 73 = dos_fields dos ! 16"
    using l by (simp_all add: v nth_append del: upt_Suc)
  have flags: "flags_word ?chr = Characteristics coff" "flags_word ?dll = drop_bit 5 (DllCharacteristics opt)"
    using flags_word_bits [of "Characteristics coff" 0] flags_word_bits [of "DllCharacteristics opt" 5] by (simp_all del: upt_Suc)
  show ?thesis
    by (rule exI [of _ "blit mem p v"], rule exI [of _ v], unfold start cells parts flags)
      (simp add: scalars scalar_fields_def dos_fields_def cell_word_word shows_number_word named_machine named_subsystem)
qed

lemma field16_zero: "field16 (replicate n 0) i = 0"
proof -
  have "le_bytes (replicate k 0) = (0 :: u16)" for k by (induction k) simp_all
  then show ?thesis by (simp add: field16_def)
qed

text \<open>A small header whose time stamp does not fit into a \<open>float\<close>.\<close>

theorem header_read_back_witness:
  "\<forall>b. \<exists>mem' v. header_start 1 ((pe_file_init 3)\<lparr>pe := Some b,
      coffHeader := coff_zero\<lparr>Machine := 0x8664, NumberOfSections := 6, TimeDateStamp := 0x5f3b2a19, Characteristics := 0x22\<rparr>,
      optionalHeader := optional_zero\<lparr>SizeOfCode := 0x1200, Subsystem := 3, DllCharacteristics := 0x8160\<rparr>,
      dosHeader := dos_zero\<lparr>e_magic := 0x5a4d, e_ss := 1, e_sp := 2, e_lfanew := 0x80\<rparr>\<rparr>) ((), replicate 76 NaN) = Inr ((), mem') \<and>
    v = take 74 (drop 1 mem') \<and>
    map cell_word (take 16 (drop 57 v)) = [0x5a4d, 0, 0, 0, 0, 0, 0, 1, 2, 0, 0, 0, 0, 0, 0, 0 :: u16] \<and>
    cell_word (v ! 1) = (6 :: u16) \<and> flags_word (take 16 (drop 30 v)) = 0x22 \<and> flags_word (take 11 (drop 46 v)) = 0x40b \<and>
    named_value machine_types machine_type_cases (v ! 5) = 0x8664 \<and> named_value subsystem_types subsystem_type_cases (v ! 6) = 3 \<and>
    shows_number (v ! 0) 0x5f3b2a19 \<and> cell_value (v ! 73) = 0x80"
proof
  fix b
  let ?coff = "coff_zero\<lparr>Machine := 0x8664, NumberOfSections := 6, TimeDateStamp := 0x5f3b2a19, Characteristics := 0x22\<rparr>"
    and ?opt = "optional_zero\<lparr>SizeOfCode := 0x1200, Subsystem := 3, DllCharacteristics := 0x8160\<rparr>"
    and ?dos = "dos_zero\<lparr>e_magic := 0x5a4d, e_ss := 1, e_sp := 2, e_lfanew := 0x80\<rparr>"
  let ?f = "(pe_file_init 3)\<lparr>pe := Some b, coffHeader := ?coff, optionalHeader := ?opt, dosHeader := ?dos\<rparr>"
  have pe: "isPEFile ?f" by (simp add: isPEFile_def)
  have fits: "fits 1 74 (replicate 76 NaN)" by (simp add: fits_def)
  have names: "?coff = coffHeader ?f" "?opt = optionalHeader ?f" "?dos = dosHeader ?f" by simp_all
  have declared: "0x8664 \<in> fst ` set machine_types" "3 \<in> fst ` set subsystem_types"
    by (simp_all add: machine_types_def subsystem_types_def)
  have dos: "e_cblp dos_zero = 0" "e_cp dos_zero = 0" "e_crlc dos_zero = 0" "e_cparhdr dos_zero = 0" "e_minalloc dos_zero = 0"
    "e_maxalloc dos_zero = 0" "e_csum dos_zero = 0" "e_ip dos_zero = 0" "e_cs dos_zero = 0" "e_lfarlc dos_zero = 0"
    "e_ovno dos_zero = 0" "e_oemid dos_zero = 0" "e_oeminfo dos_zero = 0"
    by (simp_all only: dos_zero_def dos_of_bytes_def dos_header.select_convs field16_zero)
  have bits: "drop_bit 5 (0x8160 :: u16) = 0x40b" by simp
  have number: "shows_number x 0x80 \<Longrightarrow> cell_value x = 0x80" for x by (simp add: shows_number_def)
  show "\<exists>mem' v. header_start 1 ?f ((), replicate 76 NaN) = Inr ((), mem') \<and> v = take 74 (drop 1 mem') \<and>
    map cell_word (take 16 (drop 57 v)) = [0x5a4d, 0, 0, 0, 0, 0, 0, 1, 2, 0, 0, 0, 0, 0, 0, 0 :: u16] \<and>
    cell_word (v ! 1) = (6 :: u16) \<and> flags_word (take 16 (drop 30 v)) = 0x22 \<and> flags_word (take 11 (drop 46 v)) = 0x40b \<and>
    named_value machine_types machine_type_cases (v ! 5) = 0x8664 \<and> named_value subsystem_types subsystem_type_cases (v ! 6) = 3 \<and>
    shows_number (v ! 0) 0x5f3b2a19 \<and> cell_value (v ! 73) = 0x80"
    using header_read_back [OF pe fits names, of "()"]
    by (elim ex_forward) (use declared number in \<open>simp add: dos bits\<close>)
qed

end
