(* ===== verification/DirectoryFeatures.thy ===== *)
theory DirectoryFeatures
  imports HeaderFileInfo
begin

text \<open>
  Three feature types that copy what the parsed file holds: \<open>core/src/f_data_directories.cpp\<close>,
  \<open>core/src/f_authenticode_signature.cpp\<close> and \<open>core/src/f_pe_format_warnings.cpp\<close>.
\<close>

section \<open>Data directories\<close>

definition data_directories_dim :: nat where "data_directories_dim = 34"
definition DATA_DIRECTORIES_VECTOR_DIM :: nat where "DATA_DIRECTORIES_VECTOR_DIM = 32"
definition DATA_DIRECTORIES_VECTOR :: nat where "DATA_DIRECTORIES_VECTOR = 0"
definition HAS_RELOCS :: nat where "HAS_RELOCS = DATA_DIRECTORIES_VECTOR + DATA_DIRECTORIES_VECTOR_DIM"
definition HAS_DYNAMIC_RELOCS :: nat where "HAS_DYNAMIC_RELOCS = HAS_RELOCS + 1"

lemmas data_directories_offsets = data_directories_dim_def DATA_DIRECTORIES_VECTOR_DIM_def
  DATA_DIRECTORIES_VECTOR_def HAS_RELOCS_def HAS_DYNAMIC_RELOCS_def

text \<open>The value of the enumerator.\<close>

fun index_of :: "'a \<Rightarrow> 'a list \<Rightarrow> nat" where
  "index_of x [] = 0"
| "index_of x (y # ys) = (if x = y then 0 else Suc (index_of x ys))"

definition directory_index :: "data_directory_name \<Rightarrow> nat" where
  "directory_index d = index_of d directory_names"

definition datadirectories_getName :: bytes where "datadirectories_getName = lit ''datadirectories''"

definition datadirectories_reset :: "nat \<Rightarrow> pe_file \<Rightarrow> unit \<times> fl list \<Rightarrow> (unit \<times> fl list) res" where
  "datadirectories_reset p f st = Inr st"

definition store_directory :: "nat \<Rightarrow> data_directory \<Rightarrow> fl list \<Rightarrow> fl list res" where
  "store_directory p dd mem =
     (let idx = directory_index (dd_index dd)
      in if DATA_DIRECTORIES_VECTOR_DIM \<le> idx * 2 + 1 \<or> DATA_DIRECTORIES_VECTOR_DIM \<le> idx * 2 then Inr mem
         else assign p [(2 * idx, fl_of_word f32 (dd_size dd)), (2 * idx + 1, fl_of_word f32 (virtualAddress dd))] mem)"

definition datadirectories_start :: "nat \<Rightarrow> pe_file \<Rightarrow> unit \<times> fl list \<Rightarrow> (unit \<times> fl list) res" where
  "datadirectories_start p f st = (case st of (s, mem) \<Rightarrow>
     bnd (memset0 p data_directories_dim mem) (\<lambda>mem.
     if \<not> isPEFile f then Inr (s, mem)
     else bnd (for_each (dataDirectories f) (store_directory (p + DATA_DIRECTORIES_VECTOR)) mem) (\<lambda>mem.
       map_res (Pair s) (assign p
         [(HAS_RELOCS, if hasRelocs f then fl_one else fl_zero),
          (HAS_DYNAMIC_RELOCS, if hasDynamicRelocs f then fl_one else fl_zero)] mem))))"

definition datadirectories_reduce ::
  "nat \<Rightarrow> pe_file \<Rightarrow> size_t \<Rightarrow> bytes \<Rightarrow> unit \<times> fl list \<Rightarrow> (unit \<times> fl list) res" where
  "datadirectories_reduce p f bufOffset block st = Inr st"

definition datadirectories_finalize :: "nat \<Rightarrow> pe_file \<Rightarrow> unit \<times> fl list \<Rightarrow> (unit \<times> fl list) res" where
  "datadirectories_finalize p f st = Inr st"

definition datadirectories_getMaxDim :: size_t where "datadirectories_getMaxDim = of_nat data_directories_dim"

lemma directory_index_nth: "i < 16 \<Longrightarrow> directory_index (directory_names ! i) = i"
proof -
  have "\<forall>i \<in> set [0..<16]. directory_index (directory_names ! i) = i" by code_simp
  then show "i < 16 \<Longrightarrow> directory_index (directory_names ! i) = i" by simp
qed

text \<open>The cells that one directory sets.\<close>

definition directory_cells :: "data_directory \<Rightarrow> (nat \<times> feature_t) list" where
  "directory_cells dd = [(2 * directory_index (dd_index dd), fl_of_word f32 (dd_size dd)),
                         (2 * directory_index (dd_index dd) + 1, fl_of_word f32 (virtualAddress dd))]"

lemma directory_index_less: "directory_index d < 16"
  by (cases d) (simp_all add: directory_index_def directory_names_def)

lemma store_directory_segment [segment]:
  assumes "34 = length vs" "p + length vs \<le> length xs"
  shows "store_directory p dd (blit xs p vs) = Inr (blit xs p (assigned (directory_cells dd) vs))"
  using assms directory_index_less [of "dd_index dd"]
  by (simp add: store_directory_def Let_def DATA_DIRECTORIES_VECTOR_DIM_def directory_cells_def segment)

lemma store_directories_segment:
  assumes "length vs = 34" "p + 34 \<le> length xs"
  shows "for_each dds (store_directory p) (blit xs p vs) =
    Inr (blit xs p (assigned (concat (map directory_cells dds)) vs))"
  using assms(1)
proof (induction dds arbitrary: vs)
  case Nil
  then show ?case by (simp add: assigned_def)
next
  case (Cons dd dds)
  then show ?case using assms(2) by (simp add: store_directory_segment assigned_append)
qed

definition datadirectories_vector :: "pe_file \<Rightarrow> feature_t list" where
  "datadirectories_vector f = (if isPEFile f
     then assigned (concat (map directory_cells (dataDirectories f)) @
            [(32, flag (hasRelocs f)), (33, flag (hasDynamicRelocs f))]) (replicate 34 fl_zero)
     else replicate 34 fl_zero)"

lemma datadirectories_start_vector:
  assumes "fits p data_directories_dim mem"
  shows "datadirectories_start p f (s, mem) = Inr (s, blit mem p (datadirectories_vector f))"
proof -
  have "p + 34 \<le> length mem" using assms by (simp add: fits_def data_directories_dim_def)
  then show ?thesis
    using assms store_directories_segment [of "replicate 34 fl_zero" p mem "dataDirectories f"]
    by (simp add: datadirectories_start_def memset0_fits data_directories_offsets datadirectories_vector_def
        assigned_append flag_def segment)
qed

interpretation datadirectories: start_feature data_directories_dim datadirectories_reset datadirectories_start
  datadirectories_finalize datadirectories_reduce datadirectories_vector
  by unfold_locales
    (simp_all add: datadirectories_reset_def datadirectories_reduce_def datadirectories_finalize_def
      datadirectories_start_vector datadirectories_vector_def data_directories_dim_def)

text \<open>The directories as \<open>listFromPEFile\<close> numbers them: the cells follow each other.\<close>

lemma enumerate_cells:
  assumes "length ds \<le> 16"
  shows "concat (map directory_cells (directories_listFromPEFile ds)) =
    enumerate 0 (concat (map (\<lambda>d. [fl_of_word f32 (ld_size d), fl_of_word f32 (ld_RVA d)]) ds))"
  using assms
proof (induction ds rule: rev_induct)
  case Nil
  then show ?case by (simp add: directories_listFromPEFile_def)
next
  case (snoc d ds)
  have n: "length directory_names = 16" by (simp add: directory_names_def)
  have l: "length (concat (map (\<lambda>d. [fl_of_word f32 (ld_size d), fl_of_word f32 (ld_RVA d)]) ds)) = 2 * length ds"
    by (induction ds) simp_all
  have "directories_listFromPEFile (ds @ [d]) = directories_listFromPEFile ds @
      [\<lparr>dd_index = directory_names ! length ds, virtualAddress = ld_RVA d, dd_size = ld_size d\<rparr>]"
    using snoc.prems n by (auto simp: directories_listFromPEFile_def Let_def nth_append min_def cong: map_cong)
  then show ?case
    using snoc l directory_index_nth [of "length ds"] by (simp add: directory_cells_def enumerate_append_eq)
qed

lemma directories_list_cut: "directories_listFromPEFile ds = directories_listFromPEFile (take 16 ds)"
proof -
  have "length directory_names = 16" by (simp add: directory_names_def)
  then show ?thesis by (simp add: directories_listFromPEFile_def Let_def min.commute del: upt_Suc)
qed

text \<open>
  C21. A run of the data directories feature type writes, for each of the first 16 directories
  the parser lists, its size and its address, zeros for the directories that are missing, and
  the two relocation flags; a longer list changes nothing.
\<close>

theorem datadirectories_features:
  assumes "pe_ok f" "fits p 34 mem" "length (concat bs) < 2 ^ 61" "isPEFile f"
    "dataDirectories f = directories_listFromPEFile ds"
  shows "ft_run datadirectories_reset datadirectories_start datadirectories_finalize datadirectories_reduce p f bs ((), mem) =
    Inr ((), blit mem p (resize 32 fl_zero
        (concat (map (\<lambda>d. [fl_of_word f32 (ld_size d), fl_of_word f32 (ld_RVA d)]) (take 16 ds))) @
      [flag (hasRelocs f), flag (hasDynamicRelocs f)]))"
proof -
  let ?v = "concat (map (\<lambda>d. [fl_of_word f32 (ld_size d), fl_of_word f32 (ld_RVA d)]) (take 16 ds))"
  have l: "length ?v \<le> 32" by (simp add: length_concat o_def sum_list_triv)
  let ?w = "resize 32 fl_zero ?v"
  have r: "replicate (Suc (Suc n)) z = replicate n z @ [z, z]" for n and z :: fl by (induction n) simp_all
  have "34 - length ?v = Suc (Suc (32 - length ?v))" using l by linarith
  then have "replicate (34 - length ?v) fl_zero = replicate (32 - length ?v) fl_zero @ [fl_zero, fl_zero]"
    by (simp only: r)
  then have "assigned (enumerate 0 ?v) (replicate 34 fl_zero) = ?w @ [fl_zero, fl_zero]"
    using l by (simp add: assigned_enumerate blit_def resize_def)
  moreover have "assigned [(32, x), (33, y)] (?w @ [fl_zero, fl_zero]) = ?w @ [x, y]" for x y
    by (simp add: assigned_def list_update_append)
  ultimately have "datadirectories_vector f = ?w @ [flag (hasRelocs f), flag (hasDynamicRelocs f)]"
    using assms(4,5) enumerate_cells [of "take 16 ds"]
    by (simp add: datadirectories_vector_def directories_list_cut [of ds] assigned_append)
  then show ?thesis
    using datadirectories.run_features [OF TrueI assms(1) _ assms(3), of p mem "()"] assms(2)
    by (simp add: data_directories_dim_def)
qed

theorem datadirectories_features_witness:
  "\<forall>b. map_res (take 3 \<circ> snd) (ft_run datadirectories_reset datadirectories_start datadirectories_finalize datadirectories_reduce
     0 ((pe_file_init 3)\<lparr>pe := Some (b\<lparr>b_overlay := []\<rparr>), dataDirectories := directories_listFromPEFile [\<lparr>ld_RVA = 4096, ld_size = 40\<rparr>]\<rparr>)
     [lit ''abc''] ((), replicate 34 NaN)) = Inr [Fin False 40, Fin False 4096, fl_zero]"
proof
  fix b
  let ?f = "(pe_file_init 3)\<lparr>pe := Some (b\<lparr>b_overlay := []\<rparr>), dataDirectories := directories_listFromPEFile [\<lparr>ld_RVA = 4096, ld_size = 40\<rparr>]\<rparr>"
  have ok: "pe_ok ?f" "isPEFile ?f" by (simp_all add: pe_ok_simps)
  have w: "fl_of_word f32 (40 :: u32) = Fin False 40" "fl_of_word f32 (4096 :: u32) = Fin False 4096"
    using fl_of_nat_exact [of f32 40] fl_of_nat_exact [of f32 4096] by (simp_all add: fl_of_word_def)
  show "map_res (take 3 \<circ> snd) (ft_run datadirectories_reset datadirectories_start datadirectories_finalize
      datadirectories_reduce 0 ?f [lit ''abc''] ((), replicate 34 NaN)) = Inr [Fin False 40, Fin False 4096, fl_zero]"
    using datadirectories_features [OF ok(1) _ _ ok(2), of 0 "replicate 34 NaN" "[lit ''abc'']"]
    by (simp add: fits_def lit_def resize_def w blit_def)
qed

section \<open>Authenticode\<close>

definition authenticode_dim :: nat where "authenticode_dim = 8"

definition authenticode_getName :: bytes where "authenticode_getName = lit ''authenticode''"

definition authenticode_reset :: "nat \<Rightarrow> pe_file \<Rightarrow> unit \<times> fl list \<Rightarrow> (unit \<times> fl list) res" where
  "authenticode_reset p f st = Inr st"

text \<open>The members of the structure that is laid over the output, in order.\<close>

definition authenticode_start :: "nat \<Rightarrow> pe_file \<Rightarrow> unit \<times> fl list \<Rightarrow> (unit \<times> fl list) res" where
  "authenticode_start p f st = (case st of (s, mem) \<Rightarrow>
     bnd (memset0 p authenticode_dim mem) (\<lambda>mem.
     if \<not> isPEFile f then Inr (s, mem)
     else let authInfo = getAuthenticodeSignatureInfo f in
       map_res (Pair s) (assign p
         [(0, fl_of_word f32 (numSignatures authInfo)),
          (1, fl_of_int f32 (if 0 < numSelfSignedCerts authInfo then 1 else 0)),
          (2, if emptyProgramName authInfo then fl_one else fl_zero),
          (3, if noCounterSigner authInfo then fl_one else fl_zero),
          (4, fl_of_int f32 (if 0 < parseErrors authInfo then 1 else 0)),
          (5, fl_of_word f32 (chainMaxDepth authInfo)),
          (6, fl_of_word f32 (latestSigningTime authInfo)),
          (7, fl_of_int f32 (sint (signingTimeDiff authInfo)))] mem)))"

definition authenticode_reduce ::
  "nat \<Rightarrow> pe_file \<Rightarrow> size_t \<Rightarrow> bytes \<Rightarrow> unit \<times> fl list \<Rightarrow> (unit \<times> fl list) res" where
  "authenticode_reduce p f bufOffset block st = Inr st"

definition authenticode_finalize :: "nat \<Rightarrow> pe_file \<Rightarrow> unit \<times> fl list \<Rightarrow> (unit \<times> fl list) res" where
  "authenticode_finalize p f st = Inr st"

definition authenticode_getMaxDim :: size_t where "authenticode_getMaxDim = of_nat authenticode_dim"

definition authenticode_vector :: "pe_file \<Rightarrow> feature_t list" where
  "authenticode_vector f = (if isPEFile f
     then let a = getAuthenticodeSignatureInfo f in
       [fl_of_word f32 (numSignatures a), flag (0 < numSelfSignedCerts a), flag (emptyProgramName a),
        flag (noCounterSigner a), flag (0 < parseErrors a), fl_of_word f32 (chainMaxDepth a),
        fl_of_word f32 (latestSigningTime a), fl_of_int f32 (sint (signingTimeDiff a))]
     else replicate 8 fl_zero)"

lemma fl_of_int_flag: "fl_of_int f32 (if b then 1 else 0) = flag b"
  using fl_of_nat_exact [of f32 1] fl_of_nat_exact [of f32 0]
  by (simp add: flag_def fl_of_int_def fl_one_def fl_zero_def fl_of_nat_def)

lemma authenticode_start_vector:
  assumes "fits p authenticode_dim mem"
  shows "authenticode_start p f (s, mem) = Inr (s, blit mem p (authenticode_vector f))"
proof -
  have e: "assigned [(0, a), (Suc 0, b), (2, c), (3, d), (4, e), (5, g), (6, h), (7, i)] (replicate 8 z) = [a, b, c, d, e, g, h, i]"
    for a b c d e g h i z by (simp add: assigned_def eval_nat_numeral)
  show ?thesis using assms
    by (simp add: authenticode_start_def memset0_fits authenticode_vector_def authenticode_dim_def Let_def
        fits_def segment fl_of_int_flag e flip: flag_def)
qed

interpretation authenticode: start_feature authenticode_dim authenticode_reset authenticode_start
  authenticode_finalize authenticode_reduce authenticode_vector
  by unfold_locales
    (simp_all add: authenticode_reset_def authenticode_reduce_def authenticode_finalize_def
      authenticode_start_vector authenticode_vector_def authenticode_dim_def Let_def)

text \<open>
  C22. The authenticode features of a PE file are a function of its signatures and its bytes:
  zeros without a signature; else the number of signatures, whether a certificate signed itself,
  whether a signature has no program name, whether there is no counter-signature with a positive
  time, whether a signature fails its check, the longest chain, the first positive
  counter-signing time, and its exact distance to the time stamp of the file, rounded once.
\<close>

theorem authenticode_features:
  assumes "pe_ok f" "fits p 8 mem" "length (concat bs) < 2 ^ 61" "isPEFile f"
    and sigs: "extractFromPEFile parse_authenticode sigs stamp d = Inr (getAuthenticodeSignatureInfo f)"
      "length sigs < 2 ^ 31"
  shows "map_res snd (ft_run authenticode_reset authenticode_start authenticode_finalize authenticode_reduce p f bs (s, mem)) =
    Inr (blit mem p (if sigs = [] then replicate 8 fl_zero
      else let t = find (\<lambda>t. 0 < sint t) (avast_times (parse_authenticode d)) in
       [fl_of_nat f32 (length sigs), flag (0 < (of_nat (sum_list (map (self_signed \<circ> sig_certificates) sigs)) :: size_t)),
        flag (\<exists>s \<in> set sigs. getSignatureProgramName s = []), flag (t = None),
        flag (\<exists>s \<in> set sigs. \<not> sig_check_ok s),
        fl_of_word f32 (fold (\<lambda>s. max (of_nat (length (sig_certificates s)))) sigs (0 :: size_t)),
        (case t of None \<Rightarrow> fl_zero | Some t \<Rightarrow> fl_of_word f32 t),
        (case t of None \<Rightarrow> fl_zero | Some t \<Rightarrow> fl_of_int f32 (sint t - int (unat stamp)))]))"
proof -
  let ?a = "getAuthenticodeSignatureInfo f"
  let ?t = "find (\<lambda>t. 0 < sint t) (avast_times (parse_authenticode d))"
  have z: "fl_of_nat f32 0 = fl_zero" "fl_of_int f32 0 = fl_zero"
    using fl_of_nat_exact [of f32 0] by (simp_all add: fl_zero_def fl_of_int_def fl_of_nat_def)
  have v: "authenticode_vector f = (if sigs = [] then replicate 8 fl_zero
      else [fl_of_nat f32 (length sigs), flag (0 < (of_nat (sum_list (map (self_signed \<circ> sig_certificates) sigs)) :: size_t)),
        flag (\<exists>s \<in> set sigs. getSignatureProgramName s = []), flag (?t = None),
        flag (\<exists>s \<in> set sigs. \<not> sig_check_ok s),
        fl_of_word f32 (fold (\<lambda>s. max (of_nat (length (sig_certificates s)))) sigs (0 :: size_t)),
        (case ?t of None \<Rightarrow> fl_zero | Some t \<Rightarrow> fl_of_word f32 t),
        (case ?t of None \<Rightarrow> fl_zero | Some t \<Rightarrow> fl_of_int f32 (sint t - int (unat stamp)))])"
  proof (cases "sigs = []")
    case True
    then have "?a = authenticode_zero" using extractFromPEFile_summary [of parse_authenticode sigs stamp d] sigs(1) by simp
    then show ?thesis using True assms(4)
      by (simp add: authenticode_vector_def authenticode_zero_def fl_zero_def z [unfolded fl_zero_def] fl_of_word_def flag_def numeral_eq_Suc)
  next
    case False
    have sm: "numSignatures ?a = of_nat (length sigs)" "signatures_summary sigs ?a"
      "case ?t of None \<Rightarrow> noCounterSigner ?a \<and> latestSigningTime ?a = 0 \<and> signingTimeDiff ?a = 0
        | Some t \<Rightarrow> \<not> noCounterSigner ?a \<and> latestSigningTime ?a = t \<and> sint (signingTimeDiff ?a) = sint t - int (unat stamp)"
      using extractFromPEFile_summary [of parse_authenticode sigs stamp d] sigs(1) False by auto
    let ?bad = "filter (\<lambda>s. \<not> sig_check_ok s) sigs"
    have bad: "unat (of_nat (length ?bad) :: size_t) = length ?bad"
    proof (rule unat_of_nat_small)
      have "length ?bad < 2 ^ 31" using sigs(2) length_filter_le [of "\<lambda>s. \<not> sig_check_ok s" sigs] by linarith
      then show "length ?bad < 2 ^ LENGTH(64)" by simp
    qed
    have "0 < (of_nat (length ?bad) :: size_t) \<longleftrightarrow> (\<exists>s \<in> set sigs. \<not> sig_check_ok s)"
      by (auto simp: word_less_nat_alt bad filter_empty_conv simp flip: length_greater_0_conv)
    moreover have "fl_of_word f32 (of_nat (length sigs) :: size_t) = fl_of_nat f32 (length sigs)"
      using sigs(2) by (simp add: fl_of_word_def unat_of_nat_small)
    ultimately show ?thesis
      using False assms(4) sm by (auto simp: authenticode_vector_def signatures_summary_def Let_def z
          fl_of_word_def [of f32 0] fl_zero_def split: option.splits)
  qed
  show ?thesis
    using authenticode.run_features [OF TrueI assms(1) _ assms(3), of p mem s] assms(2)
    by (auto simp: authenticode_dim_def v Let_def)
qed

theorem authenticode_features_witness:
  "\<forall>b. map_res snd (ft_run authenticode_reset authenticode_start authenticode_finalize authenticode_reduce
     0 ((pe_file_init 3)\<lparr>pe := Some (b\<lparr>b_overlay := []\<rparr>)\<rparr>) [lit ''abc''] ((), replicate 8 NaN)) = Inr (replicate 8 fl_zero)"
proof
  fix b
  let ?f = "(pe_file_init 3)\<lparr>pe := Some (b\<lparr>b_overlay := []\<rparr>)\<rparr>"
  have ok: "pe_ok ?f" "isPEFile ?f" by (simp_all add: pe_ok_simps)
  have e: "extractFromPEFile (\<lambda>_. None) [] 0 (lit ''abc'') = Inr (getAuthenticodeSignatureInfo ?f)"
    by (simp add: extractFromPEFile_def getAuthenticodeSignatureInfo_def pe_default_def pe_file_init_def)
  show "map_res snd (ft_run authenticode_reset authenticode_start authenticode_finalize authenticode_reduce
     0 ?f [lit ''abc''] ((), replicate 8 NaN)) = Inr (replicate 8 fl_zero)"
    using authenticode_features [OF ok(1) _ _ ok(2) e, of 0 "replicate 8 NaN" "[lit ''abc'']" "()"]
    by (simp add: fits_def lit_def blit_def)
qed

section \<open>PE format warnings\<close>

text \<open>A placeholder: 88 zeros.\<close>

definition pefilewarnings_dim :: nat where "pefilewarnings_dim = 88"

definition pefilewarnings_getName :: bytes where "pefilewarnings_getName = lit ''pefilewarnings''"

definition pefilewarnings_reset :: "nat \<Rightarrow> pe_file \<Rightarrow> unit \<times> fl list \<Rightarrow> (unit \<times> fl list) res" where
  "pefilewarnings_reset p f st = Inr st"

definition pefilewarnings_start :: "nat \<Rightarrow> pe_file \<Rightarrow> unit \<times> fl list \<Rightarrow> (unit \<times> fl list) res" where
  "pefilewarnings_start p f st = (case st of (s, mem) \<Rightarrow> map_res (Pair s) (memset0 p pefilewarnings_dim mem))"

definition pefilewarnings_reduce ::
  "nat \<Rightarrow> pe_file \<Rightarrow> size_t \<Rightarrow> bytes \<Rightarrow> unit \<times> fl list \<Rightarrow> (unit \<times> fl list) res" where
  "pefilewarnings_reduce p f bufOffset block st = Inr st"

definition pefilewarnings_finalize :: "nat \<Rightarrow> pe_file \<Rightarrow> unit \<times> fl list \<Rightarrow> (unit \<times> fl list) res" where
  "pefilewarnings_finalize p f st = Inr st"

definition pefilewarnings_getMaxDim :: size_t where "pefilewarnings_getMaxDim = of_nat pefilewarnings_dim"

definition pefilewarnings_vector :: "pe_file \<Rightarrow> feature_t list" where
  "pefilewarnings_vector f = replicate pefilewarnings_dim fl_zero"

interpretation pefilewarnings: start_feature pefilewarnings_dim pefilewarnings_reset pefilewarnings_start
  pefilewarnings_finalize pefilewarnings_reduce pefilewarnings_vector
  by unfold_locales
    (simp_all add: pefilewarnings_reset_def pefilewarnings_reduce_def pefilewarnings_finalize_def
      pefilewarnings_start_def pefilewarnings_vector_def memset0_fits)

end
