(* ===== verification/HashedFeatures.thy ===== *)
theory HashedFeatures
  imports FeatureType
begin

text \<open>
  The feature types that hash names from the parsed file: \<open>core/src/f_rich_header.cpp\<close>,
  \<open>core/src/f_exports_info.cpp\<close> and \<open>core/src/f_imports_info.cpp\<close>.
\<close>

lemma wf_f32_one [simp]: "wf_fl f32 fl_one"
  using rep_mag_of_int [of f32 1] emax_big [of f32] by (simp add: fl_one_def)

lemma wf_fl_of_word [simp]: "wf_fl f32 (fl_of_word f32 w)"
  by (simp add: fl_of_word_def)

lemma length_c_str: "length (c_str s) \<le> length s"
  by (simp add: c_str_def length_takeWhile_le)

section \<open>The rich header\<close>

definition richheader_dim :: nat where "richheader_dim = 33"
definition PAIRS_FH_BUCKET_SIZE :: nat where "PAIRS_FH_BUCKET_SIZE = 32"
definition NUM_DWORD_PAIRS :: nat where "NUM_DWORD_PAIRS = 0"
definition PAIRS_HASHED :: nat where "PAIRS_HASHED = NUM_DWORD_PAIRS + 1"

lemmas richheader_offsets = richheader_dim_def PAIRS_FH_BUCKET_SIZE_def NUM_DWORD_PAIRS_def PAIRS_HASHED_def

definition richheader_getName :: bytes where "richheader_getName = lit ''richheader''"

definition richheader_reset :: "nat \<Rightarrow> pe_file \<Rightarrow> unit \<times> fl list \<Rightarrow> (unit \<times> fl list) res" where
  "richheader_reset p f st = Inr st"

text \<open>The \<open>i\<close>-th 32-bit word of the raw header.\<close>

definition dword :: "bytes \<Rightarrow> nat \<Rightarrow> u32 res" where
  "dword rh i = map_res le_bytes (load_list rh (4 * i) 4)"

definition rich_pair :: "bytes \<Rightarrow> nat \<Rightarrow> feature_hasher \<Rightarrow> feature_hasher res" where
  "rich_pair rh pairIdx fh =
     bnd (dword rh (pairIdx * 2)) (\<lambda>x. bnd (dword rh (pairIdx * 2 + 1)) (\<lambda>y.
       fh_reduce (to_string (unat x)) (fl_of_word f32 y) fh))"

definition richheader_start :: "nat \<Rightarrow> pe_file \<Rightarrow> unit \<times> fl list \<Rightarrow> (unit \<times> fl list) res" where
  "richheader_start p f st = (case st of (s, mem) \<Rightarrow>
     bnd (memset0 p richheader_dim mem) (\<lambda>mem.
     if \<not> isPEFile f \<or> \<not> hasRichHeader f then Inr (s, mem)
     else let rh = getRichHeaderBytes f in
       if rh = [] then Inr (s, mem)
       else let rhNumDwords = length rh div 4 in
         if rhNumDwords < 2 then Inr (s, mem)
         else let fh = setSize (of_nat PAIRS_FH_BUCKET_SIZE) (setOutput (Some (p + PAIRS_HASHED)) (fh_reset (fh_new 0)));
                  numDwordPairs = rhNumDwords div 2 in
           bnd (fh_start fh mem) (\<lambda>(fh, mem).
           bnd (assign p [(NUM_DWORD_PAIRS,
                  fl_max fl_zero (fl_sub f32 (fl_of_nat f32 numDwordPairs) (fl_of_int f32 3)))] mem) (\<lambda>mem.
           bnd (for_each [0..<numDwordPairs] (rich_pair rh) fh) (\<lambda>fh.
           map_res (\<lambda>(fh, mem). (s, mem)) (fh_finalize fh mem))))))"

definition richheader_reduce ::
  "nat \<Rightarrow> pe_file \<Rightarrow> size_t \<Rightarrow> bytes \<Rightarrow> unit \<times> fl list \<Rightarrow> (unit \<times> fl list) res" where
  "richheader_reduce p f bufOffset block st = Inr st"

definition richheader_finalize :: "nat \<Rightarrow> pe_file \<Rightarrow> unit \<times> fl list \<Rightarrow> (unit \<times> fl list) res" where
  "richheader_finalize p f st = Inr st"

definition richheader_getMaxDim :: size_t where "richheader_getMaxDim = of_nat richheader_dim"

text \<open>The specification: the pairs of the header, the first word in decimal.\<close>

definition rich_words :: "bytes \<Rightarrow> nat \<Rightarrow> u32" where
  "rich_words rh i = le_bytes (take 4 (drop (4 * i) rh))"

definition rich_items :: "bytes \<Rightarrow> nat \<Rightarrow> (bytes \<times> feature_t) list" where
  "rich_items rh n = map (\<lambda>i. (to_string (unat (rich_words rh (2 * i))), fl_of_word f32 (rich_words rh (2 * i + 1)))) [0..<n]"

definition richheader_vector :: "pe_file \<Rightarrow> feature_t list" where
  "richheader_vector f = (let rh = getRichHeaderBytes f; n = length rh div 4 div 2 in
     if isPEFile f \<and> 0 < n
     then fl_max fl_zero (fl_sub f32 (fl_of_nat f32 n) (fl_of_int f32 3)) # hash_row 32 0 True (rich_items rh n)
     else replicate 33 fl_zero)"

lemma to_string_u32: "length (c_str (to_string (unat (w :: u32)))) < 2 ^ 31"
proof -
  have "unat w < 10 ^ 10" using unat_bound [of w] by simp
  then have "length (to_string (unat w)) \<le> 10" by (rule length_to_string) simp
  then show ?thesis using length_c_str [of "to_string (unat w)"] by simp
qed

lemma rich_pairs:
  assumes "hasher_on n p True [] fh" "8 * k \<le> length rh" "length rh < 2 ^ 60"
  shows "\<exists>fh'. for_each [0..<k] (rich_pair rh) fh = Inr fh' \<and> hasher_on n p True (rich_items rh k) fh'"
  using assms(2)
proof (induction k)
  case 0
  then show ?case using assms(1) by (simp add: rich_items_def)
next
  case (Suc k)
  then obtain fh1 where fh1: "for_each [0..<k] (rich_pair rh) fh = Inr fh1" "hasher_on n p True (rich_items rh k) fh1"
    by auto
  have d: "dword rh (k * 2) = Inr (rich_words rh (2 * k))" "dword rh (k * 2 + 1) = Inr (rich_words rh (2 * k + 1))"
    using Suc.prems by (simp_all add: dword_def load_list_def rich_words_def mult.commute)
  let ?it = "(to_string (unat (rich_words rh (2 * k))), fl_of_word f32 (rich_words rh (2 * k + 1)))"
  have "item_ok ?it" using to_string_u32 by (simp add: item_ok_def)
  moreover have "length (rich_items rh k) < 2 ^ 61" using Suc.prems assms(3) by (simp add: rich_items_def)
  ultimately obtain fh2 where "fh_reduce (fst ?it) (snd ?it) fh1 = Inr fh2" "hasher_on n p True (rich_items rh k @ [?it]) fh2"
    using hasher_reduce [OF fh1(2)] by auto
  moreover from this d have "rich_pair rh k fh1 = Inr fh2" by (simp add: rich_pair_def)
  moreover have "rich_items rh (Suc k) = rich_items rh k @ [?it]" by (simp add: rich_items_def)
  ultimately show ?case using fh1(1) by (simp add: for_each_append)
qed

lemma richheader_start_vector:
  assumes ok: "pe_ok f" and fits: "fits p richheader_dim mem"
  shows "\<exists>s'. richheader_start p f (s, mem) = Inr (s', blit mem p (richheader_vector f))"
proof -
  let ?rh = "getRichHeaderBytes f" and ?n = "length (getRichHeaderBytes f) div 4 div 2"
  have m: "p + 33 \<le> length mem" "length mem < 2 ^ 61" using fits by (simp_all add: fits_def richheader_dim_def)
  have z: "memset0 p richheader_dim mem = Inr (blit mem p (replicate 33 fl_zero))"
    using fits by (simp add: memset0_fits richheader_dim_def)
  show ?thesis
  proof (cases "isPEFile f \<and> 0 < ?n")
    case False
    then have "\<not> isPEFile f \<or> ?rh = [] \<or> length ?rh div 4 < 2" by auto
    then show ?thesis using False z
      by (auto simp: richheader_start_def richheader_vector_def Let_def)
  next
    case True
    then have rich: "hasRichHeader f" "?rh \<noteq> []" "\<not> length ?rh div 4 < 2"
      by (auto simp: getRichHeaderBytes_def split: if_splits)
    have len: "length ?rh < 2 ^ 60" using ok by (simp add: getRichHeaderBytes_def pe_ok_def)
    obtain fh1 where fh1: "fh_start (fh_config 32 (p + 1) True 0 False (fh_new 0)) (blit mem p (replicate 33 fl_zero)) =
        Inr (fh1, blit mem p (blit (replicate 33 fl_zero) 1 (replicate 32 fl_zero)))" "hasher_on 32 (p + 1) True [] fh1"
      using hasher_start [of 32 1 "replicate 33 fl_zero" p mem True "fh_new 0"] m by auto
    have "8 * ?n \<le> length ?rh" by simp
    then obtain fh2 where fh2: "for_each [0..<?n] (rich_pair ?rh) fh1 = Inr fh2"
        "hasher_on 32 (p + 1) True (rich_items ?rh ?n) fh2"
      using rich_pairs [OF fh1(2) _ len] by blast
    define x where "x = fl_max fl_zero (fl_sub f32 (fl_of_nat f32 ?n) (fl_of_int f32 3))"
    have "length (rich_items ?rh ?n) < 2 ^ 61" using len by (simp add: rich_items_def)
    then obtain fh3 where fh3: "fh_finalize fh2 (blit mem p (x # replicate 32 fl_zero)) =
        Inr (fh3, blit mem p (blit (x # replicate 32 fl_zero) 1 (hash_row 32 0 True (rich_items ?rh ?n))))"
      using hasher_finalize [OF fh2(2), of "x # replicate 32 fl_zero" mem] m by auto
    have b: "blit (replicate 33 fl_zero) 1 (replicate 32 fl_zero) = fl_zero # replicate 32 fl_zero"
      "blit (x # replicate 32 fl_zero) 1 (hash_row 32 0 True (rich_items ?rh ?n)) = x # hash_row 32 0 True (rich_items ?rh ?n)"
      by (simp_all add: blit_def)
    have a: "assign p [(0, x)] (blit mem p (fl_zero # replicate 32 fl_zero)) = Inr (blit mem p (x # replicate 32 fl_zero))"
      using m by (simp add: segment) (simp add: assigned_def)
    have "richheader_start p f (s, mem) = Inr (s, blit mem p (x # hash_row 32 0 True (rich_items ?rh ?n)))"
      using True rich fh1(1) fh2(1) fh3 z a
      by (simp add: richheader_start_def richheader_offsets Let_def hasher_setup b del: One_nat_def flip: x_def)
    then show ?thesis using True by (auto simp: richheader_vector_def Let_def x_def)
  qed
qed

interpretation richheader: start_feature richheader_dim richheader_reset richheader_start
  richheader_finalize richheader_reduce richheader_vector
proof unfold_locales
  show "length (richheader_vector f) = richheader_dim" for f
    by (simp add: richheader_vector_def Let_def richheader_dim_def)
qed (use richheader_start_vector in \<open>auto simp: richheader_reset_def richheader_reduce_def richheader_finalize_def\<close>)

section \<open>Exports\<close>

definition exports_dim :: nat where "exports_dim = 129"
definition EXPORTED_FUNCTIONS_FH_BUCKET_SIZE :: nat where "EXPORTED_FUNCTIONS_FH_BUCKET_SIZE = 128"
definition NUM_EXPORTED_FUNCTIONS :: nat where "NUM_EXPORTED_FUNCTIONS = 0"
definition EXPORTED_FUNCTIONS_HASHED :: nat where "EXPORTED_FUNCTIONS_HASHED = NUM_EXPORTED_FUNCTIONS + 1"

lemmas exports_offsets = exports_dim_def EXPORTED_FUNCTIONS_FH_BUCKET_SIZE_def NUM_EXPORTED_FUNCTIONS_def
  EXPORTED_FUNCTIONS_HASHED_def

record exports_info =
  ex_functionsFH :: feature_hasher

definition exports_getName :: bytes where "exports_getName = lit ''exports''"

definition exports_reset :: "nat \<Rightarrow> pe_file \<Rightarrow> exports_info \<times> fl list \<Rightarrow> (exports_info \<times> fl list) res" where
  "exports_reset p f st = Inr st"

text \<open>The string that is hashed for a function: its name cut to 10000 bytes, or its ordinal.\<close>

definition exported_name :: "export_function \<Rightarrow> bytes" where
  "exported_name fn = (if ef_name fn \<noteq> [] then take 10000 (ef_name fn)
                       else lit ''ordinal'' @ to_string (unat (ef_ordinal fn)))"

definition exports_start :: "nat \<Rightarrow> pe_file \<Rightarrow> exports_info \<times> fl list \<Rightarrow> (exports_info \<times> fl list) res" where
  "exports_start p f st = (case st of (s, mem) \<Rightarrow>
     bnd (memset0 p exports_dim mem) (\<lambda>mem.
     if \<not> isPEFile f \<or> \<not> hasExportDirectory f then Inr (s, mem)
     else bnd (fh_start (setSize (of_nat EXPORTED_FUNCTIONS_FH_BUCKET_SIZE)
                 (setOutput (Some (p + EXPORTED_FUNCTIONS_HASHED)) (fh_reset (ex_functionsFH s)))) mem) (\<lambda>(fh, mem).
       bnd (for_each (getExportedFunctions f) (\<lambda>fn. fh_reduce (exported_name fn) fl_one) fh) (\<lambda>fh.
       bnd (fh_finalize fh mem) (\<lambda>(fh, mem).
       map_res (Pair (s\<lparr>ex_functionsFH := fh\<rparr>))
         (assign p [(NUM_EXPORTED_FUNCTIONS, fl_of_nat f32 128)] mem))))))"

definition exports_reduce ::
  "nat \<Rightarrow> pe_file \<Rightarrow> size_t \<Rightarrow> bytes \<Rightarrow> exports_info \<times> fl list \<Rightarrow> (exports_info \<times> fl list) res" where
  "exports_reduce p f bufOffset block st = Inr st"

definition exports_finalize :: "nat \<Rightarrow> pe_file \<Rightarrow> exports_info \<times> fl list \<Rightarrow> (exports_info \<times> fl list) res" where
  "exports_finalize p f st = Inr st"

definition exports_getMaxDim :: size_t where "exports_getMaxDim = of_nat exports_dim"

definition export_items :: "export_function list \<Rightarrow> (bytes \<times> feature_t) list" where
  "export_items fns = map (\<lambda>fn. (exported_name fn, fl_one)) fns"

definition exports_vector :: "pe_file \<Rightarrow> feature_t list" where
  "exports_vector f = (if hasExportDirectory f
     then fl_of_nat f32 128 # hash_row 128 0 True (export_items (exportedFunctions f))
     else replicate 129 fl_zero)"

lemma length_ordinal: "length (lit ''ordinal'' @ to_string (unat (w :: u16))) \<le> 12"
proof -
  have "unat w < 10 ^ 5" using unat_bound [of w] by simp
  then have "length (to_string (unat w)) \<le> 5" by (rule length_to_string) simp
  then show ?thesis by (simp add: lit_def)
qed

lemma export_item_ok: "item_ok (exported_name fn, fl_one)"
proof -
  have "length (exported_name fn) \<le> 10000"
    using length_ordinal [of "ef_ordinal fn"] by (auto simp: exported_name_def)
  then show ?thesis using length_c_str [of "exported_name fn"] by (simp add: item_ok_def)
qed

lemma for_each_reduce_all: "for_each xs (\<lambda>x. fh_reduce (g x) (h x)) s = reduce_all (map (\<lambda>x. (g x, h x)) xs) s"
  by (simp add: reduce_all_def for_each_map o_def)

lemma exports_start_vector:
  assumes ok: "pe_ok f" and fits: "fits p exports_dim mem"
  shows "\<exists>s'. exports_start p f (s, mem) = Inr (s', blit mem p (exports_vector f))"
proof (cases "hasExportDirectory f")
  case False
  then show ?thesis using fits
    by (simp add: exports_start_def exports_vector_def memset0_fits exports_dim_def)
next
  case True
  then have pe: "isPEFile f" "getExportedFunctions f = exportedFunctions f"
    by (auto simp: hasExportDirectory_def pe_default_def isPEFile_def getExportedFunctions_def split: option.splits)
  let ?items = "export_items (exportedFunctions f)" and ?x = "fl_of_nat f32 128"
  have m: "p + 129 \<le> length mem" "length mem < 2 ^ 61" using fits by (simp_all add: fits_def exports_dim_def)
  have z: "memset0 p exports_dim mem = Inr (blit mem p (replicate 129 fl_zero))"
    using fits by (simp add: memset0_fits exports_dim_def)
  obtain fh1 where fh1: "fh_start (fh_config 128 (p + 1) True 0 False (ex_functionsFH s)) (blit mem p (replicate 129 fl_zero)) =
      Inr (fh1, blit mem p (blit (replicate 129 fl_zero) 1 (replicate 128 fl_zero)))" "hasher_on 128 (p + 1) True [] fh1"
    using hasher_start [of 128 1 "replicate 129 fl_zero" p mem True "ex_functionsFH s"] m by auto
  have "length (exportedFunctions f) < 2 ^ 60" using ok by (simp add: pe_ok_def)
  then have l: "length ?items < 2 ^ 61" by (simp add: export_items_def)
  obtain fh2 where fh2: "reduce_all ?items fh1 = Inr fh2" "hasher_on 128 (p + 1) True ?items fh2"
    using hasher_reduce_all [OF fh1(2), of ?items] l export_item_ok by (auto simp: export_items_def)
  obtain fh3 where fh3: "fh_finalize fh2 (blit mem p (replicate 129 fl_zero)) =
      Inr (fh3, blit mem p (blit (replicate 129 fl_zero) 1 (hash_row 128 0 True ?items)))"
    using hasher_finalize [OF fh2(2) l, of "replicate 129 fl_zero" mem] m by auto
  have b: "blit (replicate 129 fl_zero) 1 (replicate 128 fl_zero) = replicate 129 fl_zero"
    "blit (replicate 129 fl_zero) 1 (hash_row 128 0 True ?items) = fl_zero # hash_row 128 0 True ?items"
    using replicate_Suc [of 128 fl_zero] by (simp_all add: blit_def)
  have a: "assign p [(0, ?x)] (blit mem p (fl_zero # hash_row 128 0 True ?items)) =
      Inr (blit mem p (?x # hash_row 128 0 True ?items))"
    using m by (simp add: segment) (simp add: assigned_def)
  have loop: "for_each (exportedFunctions f) (\<lambda>fn. fh_reduce (exported_name fn) fl_one) fh1 = Inr fh2"
    using fh2(1) by (simp add: for_each_reduce_all export_items_def)
  have "exports_start p f (s, mem) =
      Inr (s\<lparr>ex_functionsFH := fh3\<rparr>, blit mem p (?x # hash_row 128 0 True ?items))"
    using True pe fh1(1) loop fh3 z a
    by (simp add: exports_start_def exports_offsets hasher_setup b del: One_nat_def)
  then show ?thesis using True by (auto simp: exports_vector_def)
qed

interpretation exported: start_feature exports_dim exports_reset exports_start
  exports_finalize exports_reduce exports_vector
proof unfold_locales
  show "length (exports_vector f) = exports_dim" for f by (simp add: exports_vector_def exports_dim_def)
qed (use exports_start_vector in \<open>auto simp: exports_reset_def exports_reduce_def exports_finalize_def\<close>)

section \<open>Imports\<close>

definition imports_dim :: nat where "imports_dim = 1282"
definition LIBRARIES_FH_BUCKET_SIZE :: nat where "LIBRARIES_FH_BUCKET_SIZE = 256"
definition FUNCTIONS_FH_BUCKET_SIZE :: nat where "FUNCTIONS_FH_BUCKET_SIZE = 1024"
definition NUM_FUNCTIONS :: nat where "NUM_FUNCTIONS = 0"
definition NUM_LIBRARIES :: nat where "NUM_LIBRARIES = NUM_FUNCTIONS + 1"
definition LIBRARIES_HASHED :: nat where "LIBRARIES_HASHED = NUM_LIBRARIES + 1"
definition FUNCTIONS_HASHED :: nat where "FUNCTIONS_HASHED = LIBRARIES_HASHED + LIBRARIES_FH_BUCKET_SIZE"

lemmas imports_offsets = imports_dim_def LIBRARIES_FH_BUCKET_SIZE_def FUNCTIONS_FH_BUCKET_SIZE_def
  NUM_FUNCTIONS_def NUM_LIBRARIES_def LIBRARIES_HASHED_def FUNCTIONS_HASHED_def

record imports_info =
  im_librariesFH :: feature_hasher
  im_functionsFH :: feature_hasher

definition imports_getName :: bytes where "imports_getName = lit ''imports''"

definition imports_reset :: "nat \<Rightarrow> pe_file \<Rightarrow> imports_info \<times> fl list \<Rightarrow> (imports_info \<times> fl list) res" where
  "imports_reset p f st = Inr st"

text \<open>The string that is hashed for a function of a library.\<close>

definition imported_name :: "bytes \<Rightarrow> import_function \<Rightarrow> bytes" where
  "imported_name libName fn = libName @ lit '':'' @
     (if if_name fn \<noteq> [] then c_str (take 10000 (if_name fn))
      else lit ''ordinal'' @ to_string (unat (if_ordinal fn)))"

text \<open>The body of the loop over the libraries: both hashers and the number of functions.\<close>

definition import_library_step ::
  "import_library \<Rightarrow> feature_hasher \<times> feature_hasher \<times> size_t \<Rightarrow> (feature_hasher \<times> feature_hasher \<times> size_t) res" where
  "import_library_step lib st = (case st of (librariesFH, functionsFH, numFunctions) \<Rightarrow>
     bnd (fh_reduce (dllName lib) fl_one librariesFH) (\<lambda>librariesFH.
     map_res (\<lambda>(functionsFH, numFunctions). (librariesFH, functionsFH, numFunctions))
       (for_each (lib_functions lib) (\<lambda>fn (functionsFH, numFunctions).
          bnd (fh_reduce1 (imported_name (dllName lib) fn) functionsFH) (\<lambda>functionsFH.
            Inr (functionsFH, numFunctions + 1))) (functionsFH, numFunctions))))"

definition imports_start :: "nat \<Rightarrow> pe_file \<Rightarrow> imports_info \<times> fl list \<Rightarrow> (imports_info \<times> fl list) res" where
  "imports_start p f st = (case st of (s, mem) \<Rightarrow>
     bnd (memset0 p imports_dim mem) (\<lambda>mem.
     if \<not> isPEFile f \<or> \<not> hasImportDirectory f then Inr (s, mem)
     else
       bnd (fh_start (setAlternateSign False (setSize (of_nat LIBRARIES_FH_BUCKET_SIZE)
              (setOutput (Some (p + LIBRARIES_HASHED)) (fh_reset (im_librariesFH s))))) mem) (\<lambda>(librariesFH, mem).
       bnd (fh_start (setAlternateSign False (setSize (of_nat FUNCTIONS_FH_BUCKET_SIZE)
              (setOutput (Some (p + FUNCTIONS_HASHED)) (fh_reset (im_functionsFH s))))) mem) (\<lambda>(functionsFH, mem).
       let libraries = getImportLibraries f; numLibraries = of_nat (length libraries) :: size_t in
       bnd (for_each libraries import_library_step (librariesFH, functionsFH, 0)) (\<lambda>(librariesFH, functionsFH, numFunctions).
       bnd (fh_finalize librariesFH mem) (\<lambda>(librariesFH, mem).
       bnd (fh_finalize functionsFH mem) (\<lambda>(functionsFH, mem).
       map_res (Pair (s\<lparr>im_librariesFH := librariesFH, im_functionsFH := functionsFH\<rparr>))
         (assign p [(NUM_FUNCTIONS, fl_of_word f32 numFunctions),
                    (NUM_LIBRARIES, fl_of_word f32 numLibraries)] mem))))))))"

definition imports_reduce ::
  "nat \<Rightarrow> pe_file \<Rightarrow> size_t \<Rightarrow> bytes \<Rightarrow> imports_info \<times> fl list \<Rightarrow> (imports_info \<times> fl list) res" where
  "imports_reduce p f bufOffset block st = Inr st"

definition imports_finalize :: "nat \<Rightarrow> pe_file \<Rightarrow> imports_info \<times> fl list \<Rightarrow> (imports_info \<times> fl list) res" where
  "imports_finalize p f st = Inr st"

definition imports_getMaxDim :: size_t where "imports_getMaxDim = of_nat imports_dim"

definition library_items :: "import_library list \<Rightarrow> (bytes \<times> feature_t) list" where
  "library_items libs = map (\<lambda>l. (dllName l, fl_one)) libs"

definition function_items :: "import_library list \<Rightarrow> (bytes \<times> feature_t) list" where
  "function_items libs = concat (map (\<lambda>l. map (\<lambda>fn. (imported_name (dllName l) fn, fl_one)) (lib_functions l)) libs)"

lemma imports_offset_values:
  "NUM_FUNCTIONS = 0" "NUM_LIBRARIES = 1" "LIBRARIES_HASHED = 2" "FUNCTIONS_HASHED = 258" "imports_dim = 1282"
  by (simp_all add: imports_offsets)

definition imports_vector :: "pe_file \<Rightarrow> feature_t list" where
  "imports_vector f = (if hasImportDirectory f
     then let libs = pe_imports f in
       [fl_of_nat f32 (length (function_items libs)), fl_of_nat f32 (length libs)] @
       hash_row 256 0 False (library_items libs) @ hash_row 1024 0 False (function_items libs)
     else replicate 1282 fl_zero)"

lemma import_item_ok: "length libName < 2 ^ 30 \<Longrightarrow> item_ok (imported_name libName fn, fl_one)"
proof -
  assume l: "length libName < 2 ^ 30"
  have "length (imported_name libName fn) \<le> length libName + 10001"
    using length_ordinal [of "if_ordinal fn"] length_c_str [of "take 10000 (if_name fn)"]
    by (auto simp: imported_name_def lit_def)
  then have "length (imported_name libName fn) < 2 ^ 31" using l by simp
  then show ?thesis using length_c_str [of "imported_name libName fn"] by (simp add: item_ok_def)
qed

lemma import_functions:
  assumes "hasher_on n p False items fh" "length libName < 2 ^ 30" "length items + length fns < 2 ^ 61"
  shows "\<exists>fh'. for_each fns (\<lambda>fn (fh, k). bnd (fh_reduce1 (imported_name libName fn) fh) (\<lambda>fh. Inr (fh, k + 1)))
      (fh, k) = Inr (fh', k + of_nat (length fns)) \<and>
    hasher_on n p False (items @ map (\<lambda>fn. (imported_name libName fn, fl_one)) fns) fh'"
  using assms
proof (induction fns arbitrary: items fh k)
  case (Cons fn fns)
  obtain fh1 where fh1: "fh_reduce (imported_name libName fn) fl_one fh = Inr fh1"
    "hasher_on n p False (items @ [(imported_name libName fn, fl_one)]) fh1"
    using hasher_reduce [OF Cons.prems(1) import_item_ok [OF Cons.prems(2)], of fn] Cons.prems(3) by auto
  show ?case
    using Cons.IH [OF fh1(2) Cons.prems(2), of "k + 1"] Cons.prems(3) fh1(1)
    by (auto simp: fh_reduce1_def add.assoc)
qed simp

lemma import_libraries:
  assumes "hasher_on n p False ls fh" "hasher_on m q False fs gh"
    "\<forall>l \<in> set libs. length (dllName l) < 2 ^ 30" "length ls + length libs < 2 ^ 61"
    "length fs + length (function_items libs) < 2 ^ 61"
  shows "\<exists>fh' gh'. for_each libs import_library_step (fh, gh, k) =
      Inr (fh', gh', k + of_nat (length (function_items libs))) \<and>
    hasher_on n p False (ls @ library_items libs) fh' \<and> hasher_on m q False (fs @ function_items libs) gh'"
  using assms
proof (induction libs arbitrary: ls fs fh gh k)
  case Nil
  then show ?case by (auto simp: library_items_def function_items_def)
next
  case (Cons l libs)
  let ?fi = "map (\<lambda>fn. (imported_name (dllName l) fn, fl_one)) (lib_functions l)"
  have split: "function_items (l # libs) = ?fi @ function_items libs"
    "library_items (l # libs) = (dllName l, fl_one) # library_items libs"
    by (simp_all add: function_items_def library_items_def)
  have l: "length (dllName l) < 2 ^ 30" using Cons.prems(3) by simp
  then have "item_ok (dllName l, fl_one)" using length_c_str [of "dllName l"] by (simp add: item_ok_def)
  then obtain fh1 where fh1: "fh_reduce (dllName l) fl_one fh = Inr fh1"
      "hasher_on n p False (ls @ [(dllName l, fl_one)]) fh1"
    using hasher_reduce [OF Cons.prems(1)] Cons.prems(4) by auto
  obtain gh1 where gh1: "for_each (lib_functions l)
      (\<lambda>fn (fh, k). bnd (fh_reduce1 (imported_name (dllName l) fn) fh) (\<lambda>fh. Inr (fh, k + 1))) (gh, k) =
      Inr (gh1, k + of_nat (length (lib_functions l)))" "hasher_on m q False (fs @ ?fi) gh1"
    using import_functions [OF Cons.prems(2) l, of "lib_functions l" k] Cons.prems(5) split by auto
  have "import_library_step l (fh, gh, k) = Inr (fh1, gh1, k + of_nat (length (lib_functions l)))"
    using fh1(1) gh1(1) by (simp add: import_library_step_def)
  moreover obtain fh2 gh2 where "for_each libs import_library_step (fh1, gh1, k + of_nat (length (lib_functions l))) =
      Inr (fh2, gh2, k + of_nat (length (lib_functions l)) + of_nat (length (function_items libs)))"
    "hasher_on n p False ((ls @ [(dllName l, fl_one)]) @ library_items libs) fh2"
    "hasher_on m q False ((fs @ ?fi) @ function_items libs) gh2"
  proof -
    have "\<forall>l \<in> set libs. length (dllName l) < 2 ^ 30" "length (ls @ [(dllName l, fl_one)]) + length libs < 2 ^ 61"
      "length (fs @ ?fi) + length (function_items libs) < 2 ^ 61"
      using Cons.prems(3-5) split by simp_all
    from Cons.IH [OF fh1(2) gh1(2) this, of "k + of_nat (length (lib_functions l))"] show ?thesis
      using that by blast
  qed
  ultimately show ?case using split by (auto simp: add.assoc)
qed

lemma length_function_items: "length (function_items libs) = length (concat (map lib_functions libs))"
  by (induction libs) (simp_all add: function_items_def)

lemma imports_start_vector:
  assumes ok: "pe_ok f" and fits: "fits p imports_dim mem"
  shows "\<exists>s'. imports_start p f (s, mem) = Inr (s', blit mem p (imports_vector f))"
proof (cases "hasImportDirectory f")
  case False
  then show ?thesis using fits
    by (simp add: imports_start_def imports_vector_def memset0_fits imports_dim_def)
next
  case True
  then have pe: "isPEFile f" "getImportLibraries f = pe_imports f"
    by (auto simp: hasImportDirectory_def pe_default_def isPEFile_def getImportLibraries_def split: option.splits)
  let ?libs = "pe_imports f" and ?z = "\<lambda>n. replicate n fl_zero"
  let ?li = "library_items ?libs" and ?fi = "function_items ?libs"
  have m: "p + 1282 \<le> length mem" "length mem < 2 ^ 61" using fits by (simp_all add: fits_def imports_dim_def)
  have z: "memset0 p imports_dim mem = Inr (blit mem p (?z 1282))"
    using fits by (simp add: memset0_fits imports_dim_def)
  have z1: "?z 1282 = ?z 2 @ ?z 256 @ ?z 1024" by (simp flip: replicate_add)
  have len: "length ?libs < 2 ^ 60" "length ?fi < 2 ^ 60" "\<forall>l \<in> set ?libs. length (dllName l) < 2 ^ 30"
    using ok by (simp_all add: pe_ok_def length_function_items)
  have li: "length ?li = length ?libs" by (simp add: library_items_def)
  have b: "blit (?z 2 @ ?z 256 @ ?z 1024) 2 (?z 256) = ?z 2 @ ?z 256 @ ?z 1024"
    "blit (?z 2 @ ?z 256 @ ?z 1024) 258 (?z 1024) = ?z 2 @ ?z 256 @ ?z 1024"
    "blit (?z 2 @ ?z 256 @ ?z 1024) 2 (hash_row 256 0 False ?li) = ?z 2 @ hash_row 256 0 False ?li @ ?z 1024"
    "blit (?z 2 @ hash_row 256 0 False ?li @ ?z 1024) 258 (hash_row 1024 0 False ?fi) =
       ?z 2 @ hash_row 256 0 False ?li @ hash_row 1024 0 False ?fi"
    by (simp_all add: blit_def)
  obtain fh1 where fh1: "fh_start (fh_config 256 (p + 2) False 0 False (im_librariesFH s)) (blit mem p (?z 2 @ ?z 256 @ ?z 1024)) =
      Inr (fh1, blit mem p (?z 2 @ ?z 256 @ ?z 1024))" "hasher_on 256 (p + 2) False [] fh1"
    using hasher_start [of 256 2 "?z 2 @ ?z 256 @ ?z 1024" p mem False "im_librariesFH s", simplified] m
    by (auto simp: b)
  obtain gh1 where gh1: "fh_start (fh_config 1024 (p + 258) False 0 False (im_functionsFH s)) (blit mem p (?z 2 @ ?z 256 @ ?z 1024)) =
      Inr (gh1, blit mem p (?z 2 @ ?z 256 @ ?z 1024))" "hasher_on 1024 (p + 258) False [] gh1"
    using hasher_start [of 1024 258 "?z 2 @ ?z 256 @ ?z 1024" p mem False "im_functionsFH s", simplified] m
    by (auto simp: b)
  obtain fh2 gh2 where loop: "for_each ?libs import_library_step (fh1, gh1, 0) = Inr (fh2, gh2, of_nat (length ?fi))"
    "hasher_on 256 (p + 2) False ?li fh2" "hasher_on 1024 (p + 258) False ?fi gh2"
    using import_libraries [OF fh1(2) gh1(2) len(3), of 0] len by auto
  obtain fh3 where fh3: "fh_finalize fh2 (blit mem p (?z 2 @ ?z 256 @ ?z 1024)) =
      Inr (fh3, blit mem p (?z 2 @ hash_row 256 0 False ?li @ ?z 1024))"
    using hasher_finalize [OF loop(2), of "?z 2 @ ?z 256 @ ?z 1024" mem] len li m by (auto simp: b)
  obtain gh3 where gh3: "fh_finalize gh2 (blit mem p (?z 2 @ hash_row 256 0 False ?li @ ?z 1024)) =
      Inr (gh3, blit mem p (?z 2 @ hash_row 256 0 False ?li @ hash_row 1024 0 False ?fi))"
    using hasher_finalize [OF loop(3), of "?z 2 @ hash_row 256 0 False ?li @ ?z 1024" mem] len m by (auto simp: b)
  have w: "fl_of_word f32 (of_nat k :: size_t) = fl_of_nat f32 k" if "k < 2 ^ 60" for k
    using that unat_of_nat_small [where 'w = 64, of k] by (simp add: fl_of_word_def)
  have a: "assign p [(0, x), (1, y)] (blit mem p (?z 2 @ vs)) = Inr (blit mem p ([x, y] @ vs))"
    if "length vs = 1280" for x y vs
    using m that by (simp add: segment) (simp add: assigned_def numeral_2_eq_2)
  have "imports_start p f (s, mem) = Inr (s\<lparr>im_librariesFH := fh3, im_functionsFH := gh3\<rparr>,
      blit mem p ([fl_of_nat f32 (length ?fi), fl_of_nat f32 (length ?libs)] @
        hash_row 256 0 False ?li @ hash_row 1024 0 False ?fi))"
    using True pe fh1(1) gh1(1) loop(1) fh3 gh3 z
    by (simp add: imports_start_def imports_offset_values LIBRARIES_FH_BUCKET_SIZE_def FUNCTIONS_FH_BUCKET_SIZE_def
        hasher_setup(3) z1 Let_def a w [OF len(1)] w [OF len(2)] del: One_nat_def add_2_eq_Suc')
  then show ?thesis using True by (auto simp: imports_vector_def Let_def)
qed

interpretation imported: start_feature imports_dim imports_reset imports_start
  imports_finalize imports_reduce imports_vector
proof unfold_locales
  show "length (imports_vector f) = imports_dim" for f by (simp add: imports_vector_def imports_dim_def Let_def)
qed (use imports_start_vector in \<open>auto simp: imports_reset_def imports_reduce_def imports_finalize_def\<close>)

section \<open>Properties\<close>

lemma pe_default_parsed: "pe f = Some b \<Longrightarrow> pe_default f d g = g b"
  by (simp add: pe_default_def)

text \<open>
  C20. For a PE file with a rich header of \<open>n \<ge> 1\<close> whole pairs of words, the run writes the
  number of pairs beyond the first three and the signed hash row of the pairs, the first word
  in decimal as the key and the second as the value; bytes after the last pair are not read.
  Without such a header it writes zeros.
\<close>

theorem richheader_features:
  assumes "pe_ok f" "fits p 33 mem" "length (concat bs) < 2 ^ 61"
  shows "map_res snd (ft_run richheader_reset richheader_start richheader_finalize richheader_reduce p f bs ((), mem)) =
    Inr (blit mem p (let rh = getRichHeaderBytes f; n = length rh div 8;
        word = (\<lambda>i. le_bytes (take 4 (drop (4 * i) rh)) :: u32) in
      if isPEFile f \<and> 0 < n
      then fl_max fl_zero (fl_sub f32 (fl_of_nat f32 n) (fl_of_int f32 3)) #
           map (hash_cell 32 0 True (map (\<lambda>i. (to_string (unat (word (2 * i))), fl_of_word f32 (word (2 * i + 1)))) [0..<n])) [0..<32]
      else replicate 33 fl_zero))"
proof -
  have d: "n div 4 div 2 = n div 8" for n :: nat by (simp flip: div_mult2_eq)
  show ?thesis
    using richheader.run_features [OF TrueI assms(1) _ assms(3), of p mem "()"] assms(2)
    by (auto simp: richheader_dim_def richheader_vector_def d hash_row_def rich_items_def rich_words_def Let_def)
qed

theorem richheader_features_witness:
  "map_res snd (ft_run richheader_reset richheader_start richheader_finalize richheader_reduce 0 (pe_file_init 3)
     [lit ''abc''] ((), replicate 34 NaN)) = Inr (replicate 33 fl_zero @ [NaN])"
proof -
  have "pe_ok (pe_file_init 3)" "\<not> isPEFile (pe_file_init 3)"
    by (simp_all add: pe_ok_simps)
  then show ?thesis
    using richheader_features [of "pe_file_init 3" 0 "replicate 34 NaN" "[lit ''abc'']"]
    by (simp add: fits_def lit_def blit_def)
qed

text \<open>
  C19. For a file with exported functions the first export feature is the constant 128, whatever
  their number, and the others are the signed hash row of the names, in which a function
  without a name takes part with its ordinal; without exported functions all are zero.
\<close>

theorem exports_features:
  assumes "pe_ok f" "fits p 129 mem" "length (concat bs) < 2 ^ 61"
  shows "map_res snd (ft_run exports_reset exports_start exports_finalize exports_reduce p f bs (s, mem)) =
    Inr (blit mem p (if isPEFile f \<and> exportedFunctions f \<noteq> []
      then Fin False 128 # map (hash_cell 128 0 True (map (\<lambda>fn. (exported_name fn, fl_one)) (exportedFunctions f))) [0..<128]
      else replicate 129 fl_zero))"
proof -
  have "fl_of_nat f32 128 = Fin False 128" using fl_of_nat_exact [of f32 128] by simp
  moreover have "hasExportDirectory f \<longleftrightarrow> isPEFile f \<and> exportedFunctions f \<noteq> []"
    by (auto simp: hasExportDirectory_def pe_default_def isPEFile_def split: option.split)
  ultimately show ?thesis
    using exported.run_features [OF TrueI assms(1) _ assms(3), of p mem s] assms(2)
    by (auto simp: exports_dim_def exports_vector_def hash_row_def export_items_def)
qed

theorem exports_features_witness:
  "\<forall>b s. map_res (hd \<circ> snd) (ft_run exports_reset exports_start exports_finalize exports_reduce 0
     ((pe_file_init 3)\<lparr>pe := Some (b\<lparr>b_overlay := []\<rparr>), exportedFunctions := [\<lparr>ef_name = [], ef_ordinal = 1\<rparr>]\<rparr>) [lit ''abc''] (s, replicate 129 NaN)) =
   Inr (Fin False 128)"
proof (intro allI)
  fix b s
  let ?f = "(pe_file_init 3)\<lparr>pe := Some (b\<lparr>b_overlay := []\<rparr>), exportedFunctions := [\<lparr>ef_name = [], ef_ordinal = 1\<rparr>]\<rparr>"
  have ok: "pe_ok ?f" "isPEFile ?f" by (simp_all add: pe_ok_simps)
  have "map_res (hd \<circ> snd) r = map_res hd (map_res snd r)" for r :: "(exports_info \<times> fl list) res"
    by (cases r) simp_all
  then show "map_res (hd \<circ> snd) (ft_run exports_reset exports_start exports_finalize exports_reduce 0 ?f
      [lit ''abc''] (s, replicate 129 NaN)) = Inr (Fin False 128)"
    using exports_features [OF ok(1), of 0 "replicate 129 NaN" "[lit ''abc'']" s] ok(2)
    by (simp add: fits_def lit_def blit_def)
qed

text \<open>
  C18. For a file with imports the run writes the number of functions, the number of libraries,
  the hash row of the library names and the hash row of the \<open>library:function\<close> names, both
  without alternating signs, so every cell counts names; a function without a name is hashed
  by its ordinal.
\<close>

theorem imports_features:
  assumes "pe_ok f" "fits p 1282 mem" "length (concat bs) < 2 ^ 61"
  shows "map_res snd (ft_run imports_reset imports_start imports_finalize imports_reduce p f bs (s, mem)) =
    Inr (blit mem p (if isPEFile f \<and> pe_imports f \<noteq> []
      then let names = concat (map (\<lambda>l. map (imported_name (dllName l)) (lib_functions l)) (pe_imports f)) in
        [fl_of_nat f32 (length names), fl_of_nat f32 (length (pe_imports f))] @
        map (hash_cell 256 0 False (map (\<lambda>l. (dllName l, fl_one)) (pe_imports f))) [0..<256] @
        map (hash_cell 1024 0 False (map (\<lambda>n. (n, fl_one)) names)) [0..<1024]
      else replicate 1282 fl_zero))"
proof -
  have "hasImportDirectory f \<longleftrightarrow> isPEFile f \<and> pe_imports f \<noteq> []"
    by (auto simp: hasImportDirectory_def pe_default_def isPEFile_def split: option.split)
  moreover have "function_items libs = map (\<lambda>n. (n, fl_one)) (concat (map (\<lambda>l. map (imported_name (dllName l)) (lib_functions l)) libs))"
    for libs by (simp add: function_items_def map_concat o_def)
  ultimately show ?thesis
    using imported.run_features [OF TrueI assms(1) _ assms(3), of p mem s] assms(2)
    by (auto simp: imports_dim_def imports_vector_def hash_row_def library_items_def Let_def)
qed

theorem imports_features_witness:
  "\<forall>b s. map_res (take 2 \<circ> snd) (ft_run imports_reset imports_start imports_finalize imports_reduce 0
     ((pe_file_init 3)\<lparr>pe := Some (b\<lparr>b_overlay := []\<rparr>), pe_imports := [\<lparr>dllName = lit ''a.dll'', lib_functions = [\<lparr>if_name = [], if_ordinal = 1\<rparr>]\<rparr>]\<rparr>)
     [lit ''abc''] (s, replicate 1282 NaN)) = Inr [Fin False 1, Fin False 1]"
proof (intro allI)
  fix b s
  let ?f = "(pe_file_init 3)\<lparr>pe := Some (b\<lparr>b_overlay := []\<rparr>), pe_imports := [\<lparr>dllName = lit ''a.dll'', lib_functions = [\<lparr>if_name = [], if_ordinal = 1\<rparr>]\<rparr>]\<rparr>"
  have ok: "pe_ok ?f" "isPEFile ?f" by (simp_all add: pe_ok_simps lit_def)
  have "map_res (take 2 \<circ> snd) r = map_res (take 2) (map_res snd r)" for r :: "(imports_info \<times> fl list) res"
    by (cases r) simp_all
  moreover have "fl_of_nat f32 (Suc 0) = Fin False 1" using fl_of_nat_exact [of f32 1] by simp
  ultimately show "map_res (take 2 \<circ> snd) (ft_run imports_reset imports_start imports_finalize imports_reduce 0 ?f
      [lit ''abc''] (s, replicate 1282 NaN)) = Inr [Fin False 1, Fin False 1]"
    using imports_features [OF ok(1), of 0 "replicate 1282 NaN" "[lit ''abc'']" s] ok(2)
    by (simp add: fits_def lit_def blit_def Let_def del: upt_Suc upt_rec_numeral)
qed

end
