(* ===== verification/SectionInfo.thy ===== *)
theory SectionInfo
  imports HashedFeatures HeaderFileInfo Entropy
begin

text \<open>
  \<open>core/src/f_section_info.cpp\<close>: statistics over the sections, the entry section, the overlay,
  and five hashed rows.
\<close>

section \<open>Offsets\<close>

definition section_dim :: nat where "section_dim = 224"
definition SECTION_SIZES_FH_BUCKET_SIZE :: nat where "SECTION_SIZES_FH_BUCKET_SIZE = 50"
definition SECTION_VSIZES_FH_BUCKET_SIZE :: nat where "SECTION_VSIZES_FH_BUCKET_SIZE = 50"
definition SECTION_ENTROPY_FH_BUCKET_SIZE :: nat where "SECTION_ENTROPY_FH_BUCKET_SIZE = 50"
definition CHARACTERISTICS_FH_BUCKET_SIZE :: nat where "CHARACTERISTICS_FH_BUCKET_SIZE = 50"
definition ENTRY_NAME_HASHED_FH_BUCKET_SIZE :: nat where "ENTRY_NAME_HASHED_FH_BUCKET_SIZE = 10"

definition N_SECTIONS :: nat where "N_SECTIONS = 0"
definition N_ZERO_SIZE :: nat where "N_ZERO_SIZE = 1"
definition N_EMPTY_NAME :: nat where "N_EMPTY_NAME = 2"
definition N_READABLE_AND_EXECUTABLE_SECTIONS :: nat where "N_READABLE_AND_EXECUTABLE_SECTIONS = 3"
definition N_WRITABLE_SECTIONS :: nat where "N_WRITABLE_SECTIONS = 4"
definition MAX_ENTROPIES :: nat where "MAX_ENTROPIES = 5"
definition MIN_ENTROPIES :: nat where "MIN_ENTROPIES = 6"
definition MAX_SIZE_RATIOS :: nat where "MAX_SIZE_RATIOS = 7"
definition MIN_SIZE_RATIOS :: nat where "MIN_SIZE_RATIOS = 8"
definition MAX_VSIZE_RATIOS :: nat where "MAX_VSIZE_RATIOS = 9"
definition MIN_VSIZE_RATIOS :: nat where "MIN_VSIZE_RATIOS = 10"
definition SECTION_SIZES_HASHED :: nat where "SECTION_SIZES_HASHED = 11"
definition SECTION_VSIZES_HASHED :: nat where
  "SECTION_VSIZES_HASHED = SECTION_SIZES_HASHED + SECTION_SIZES_FH_BUCKET_SIZE"
definition SECTION_ENTROPY_HASHED :: nat where
  "SECTION_ENTROPY_HASHED = SECTION_VSIZES_HASHED + SECTION_VSIZES_FH_BUCKET_SIZE"
definition CHARACTERISTICS_HASHED :: nat where
  "CHARACTERISTICS_HASHED = SECTION_ENTROPY_HASHED + SECTION_ENTROPY_FH_BUCKET_SIZE"
definition ENTRY_NAME_HASHED :: nat where
  "ENTRY_NAME_HASHED = CHARACTERISTICS_HASHED + CHARACTERISTICS_FH_BUCKET_SIZE"
definition OVERLAY_SIZE :: nat where "OVERLAY_SIZE = ENTRY_NAME_HASHED + ENTRY_NAME_HASHED_FH_BUCKET_SIZE"
definition OVERLAY_SIZE_RATIO :: nat where "OVERLAY_SIZE_RATIO = OVERLAY_SIZE + 1"
definition OVERLAY_ENTROPY :: nat where "OVERLAY_ENTROPY = OVERLAY_SIZE_RATIO + 1"

lemma section_offsets:
  "section_dim = 224" "SECTION_SIZES_FH_BUCKET_SIZE = 50" "SECTION_VSIZES_FH_BUCKET_SIZE = 50"
  "SECTION_ENTROPY_FH_BUCKET_SIZE = 50" "CHARACTERISTICS_FH_BUCKET_SIZE = 50"
  "ENTRY_NAME_HASHED_FH_BUCKET_SIZE = 10" "N_SECTIONS = 0" "N_ZERO_SIZE = 1" "N_EMPTY_NAME = 2"
  "N_READABLE_AND_EXECUTABLE_SECTIONS = 3" "N_WRITABLE_SECTIONS = 4" "MAX_ENTROPIES = 5" "MIN_ENTROPIES = 6"
  "MAX_SIZE_RATIOS = 7" "MIN_SIZE_RATIOS = 8" "MAX_VSIZE_RATIOS = 9" "MIN_VSIZE_RATIOS = 10"
  "SECTION_SIZES_HASHED = 11" "SECTION_VSIZES_HASHED = 61" "SECTION_ENTROPY_HASHED = 111"
  "CHARACTERISTICS_HASHED = 161" "ENTRY_NAME_HASHED = 211" "OVERLAY_SIZE = 221"
  "OVERLAY_SIZE_RATIO = 222" "OVERLAY_ENTROPY = 223"
  by (simp_all add: section_dim_def SECTION_SIZES_FH_BUCKET_SIZE_def SECTION_VSIZES_FH_BUCKET_SIZE_def
      SECTION_ENTROPY_FH_BUCKET_SIZE_def CHARACTERISTICS_FH_BUCKET_SIZE_def ENTRY_NAME_HASHED_FH_BUCKET_SIZE_def
      N_SECTIONS_def N_ZERO_SIZE_def N_EMPTY_NAME_def N_READABLE_AND_EXECUTABLE_SECTIONS_def N_WRITABLE_SECTIONS_def
      MAX_ENTROPIES_def MIN_ENTROPIES_def MAX_SIZE_RATIOS_def MIN_SIZE_RATIOS_def MAX_VSIZE_RATIOS_def
      MIN_VSIZE_RATIOS_def SECTION_SIZES_HASHED_def SECTION_VSIZES_HASHED_def SECTION_ENTROPY_HASHED_def
      CHARACTERISTICS_HASHED_def ENTRY_NAME_HASHED_def OVERLAY_SIZE_def OVERLAY_SIZE_RATIO_def OVERLAY_ENTROPY_def)

section \<open>SectionInfoFeatureHashers\<close>

record section_hashers =
  sectionSizeFH :: feature_hasher
  sectionVSizeFH :: feature_hasher
  sectionEntropyFH :: feature_hasher
  characteristicsFH :: feature_hasher
  entrySectionNameFH :: feature_hasher
  sh_output :: "nat option"

definition sh_new :: section_hashers where
  "sh_new = \<lparr>sectionSizeFH = fh_new 0, sectionVSizeFH = fh_new 0, sectionEntropyFH = fh_new 0,
     characteristicsFH = fh_new 0, entrySectionNameFH = fh_new 0, sh_output = None\<rparr>"

definition sh_reset :: "section_hashers \<Rightarrow> section_hashers" where
  "sh_reset s = s\<lparr>sectionSizeFH := fh_reset (sectionSizeFH s), sectionVSizeFH := fh_reset (sectionVSizeFH s),
     sectionEntropyFH := fh_reset (sectionEntropyFH s), characteristicsFH := fh_reset (characteristicsFH s),
     entrySectionNameFH := fh_reset (entrySectionNameFH s)\<rparr>"

definition sh_setOutput :: "nat option \<Rightarrow> section_hashers \<Rightarrow> section_hashers" where
  "sh_setOutput q s = s\<lparr>sh_output := q\<rparr>"

text \<open>\<open>START_FH\<close>; \<open>output + offset\<close> of a null pointer is undefined.\<close>

definition start_fh ::
  "feature_hasher \<Rightarrow> nat \<Rightarrow> nat option \<Rightarrow> nat \<Rightarrow> fl list \<Rightarrow> (feature_hasher \<times> fl list) res" where
  "start_fh fh n q off mem = (case q of None \<Rightarrow> Inl Undefined
     | Some p \<Rightarrow> fh_start (setOutput (Some (p + off)) (setSize (of_nat n) fh)) mem)"

definition sh_start :: "section_hashers \<Rightarrow> fl list \<Rightarrow> (section_hashers \<times> fl list) res" where
  "sh_start s mem =
     bnd (start_fh (sectionSizeFH s) SECTION_SIZES_FH_BUCKET_SIZE (sh_output s) SECTION_SIZES_HASHED mem) (\<lambda>(a, mem).
     bnd (start_fh (sectionVSizeFH s) SECTION_VSIZES_FH_BUCKET_SIZE (sh_output s) SECTION_VSIZES_HASHED mem) (\<lambda>(b, mem).
     bnd (start_fh (sectionEntropyFH s) SECTION_ENTROPY_FH_BUCKET_SIZE (sh_output s) SECTION_ENTROPY_HASHED mem) (\<lambda>(c, mem).
     bnd (start_fh (characteristicsFH s) CHARACTERISTICS_FH_BUCKET_SIZE (sh_output s) CHARACTERISTICS_HASHED mem) (\<lambda>(d, mem).
     bnd (start_fh (entrySectionNameFH s) ENTRY_NAME_HASHED_FH_BUCKET_SIZE (sh_output s) ENTRY_NAME_HASHED mem) (\<lambda>(e, mem).
       Inr (s\<lparr>sectionSizeFH := a, sectionVSizeFH := b, sectionEntropyFH := c, characteristicsFH := d,
              entrySectionNameFH := e\<rparr>, mem))))))"

definition reduceFromSection :: "pe_section \<Rightarrow> section_hashers \<Rightarrow> section_hashers res" where
  "reduceFromSection sec s =
     bnd (fh_reduce (sec_name sec) (fl_of_word f32 (sizeRaw sec)) (sectionSizeFH s)) (\<lambda>a.
     bnd (fh_reduce (sec_name sec) (fl_of_word f32 (vsize sec)) (sectionVSizeFH s)) (\<lambda>b.
     bnd (fh_reduce (sec_name sec) (fl_to f32 (sec_entropy sec)) (sectionEntropyFH s)) (\<lambda>c.
     bnd (for_each (getNamesByValue (characteristics sec))
            (\<lambda>chr. fh_reduce1 (sec_name sec @ lit '':'' @ lit chr)) (characteristicsFH s)) (\<lambda>d.
       Inr (s\<lparr>sectionSizeFH := a, sectionVSizeFH := b, sectionEntropyFH := c, characteristicsFH := d\<rparr>)))))"

definition reduceFromEntrySectionName :: "bytes \<Rightarrow> section_hashers \<Rightarrow> section_hashers res" where
  "reduceFromEntrySectionName entryName s =
     map_res (\<lambda>e. s\<lparr>entrySectionNameFH := e\<rparr>) (fh_reduce1 entryName (entrySectionNameFH s))"

definition sh_finalize :: "section_hashers \<Rightarrow> fl list \<Rightarrow> (section_hashers \<times> fl list) res" where
  "sh_finalize s mem =
     bnd (fh_finalize (sectionSizeFH s) mem) (\<lambda>(a, mem).
     bnd (fh_finalize (sectionVSizeFH s) mem) (\<lambda>(b, mem).
     bnd (fh_finalize (sectionEntropyFH s) mem) (\<lambda>(c, mem).
     bnd (fh_finalize (characteristicsFH s) mem) (\<lambda>(d, mem).
     bnd (fh_finalize (entrySectionNameFH s) mem) (\<lambda>(e, mem).
       Inr (\<lparr>sectionSizeFH = a, sectionVSizeFH = b, sectionEntropyFH = c, characteristicsFH = d,
             entrySectionNameFH = e, sh_output = None\<rparr>, mem))))))"

section \<open>SectionInfo\<close>

text \<open>The locals of the loop over the sections.\<close>

record section_scan =
  maxEntropy :: entropy_t
  minEntropy :: entropy_t
  maxSizeRatio :: feature_t
  minSizeRatio :: feature_t
  maxVSizeRatio :: feature_t
  minVSizeRatio :: feature_t
  pEntrySection :: "pe_section option"
  pPotentialEntrySection :: "pe_section option"
  numSectionsZeroSize :: size_t
  numSectionsEmptyName :: size_t
  numSectionsReadableAndExecutable :: size_t
  numSectionsWritable :: size_t

definition MEM_EXECUTE :: u32 where "MEM_EXECUTE = value_of section_characteristics ''MEM_EXECUTE''"
definition MEM_READ :: u32 where "MEM_READ = value_of section_characteristics ''MEM_READ''"
definition MEM_WRITE :: u32 where "MEM_WRITE = value_of section_characteristics ''MEM_WRITE''"

definition scan_extrema :: "pe_section \<Rightarrow> section_scan \<Rightarrow> section_scan" where
  "scan_extrema sec c = c\<lparr>
     maxEntropy := fl_max (maxEntropy c) (fl_to f32 (sec_entropy sec)),
     minEntropy := fl_min (minEntropy c) (fl_to f32 (sec_entropy sec)),
     maxSizeRatio := fl_max (maxSizeRatio c) (fl_to f32 (sizeRatio sec)),
     minSizeRatio := fl_min (minSizeRatio c) (fl_to f32 (sizeRatio sec)),
     maxVSizeRatio := fl_max (maxVSizeRatio c) (fl_to f32 (vsizeRatio sec)),
     minVSizeRatio := fl_min (minVSizeRatio c) (fl_to f32 (vsizeRatio sec))\<rparr>"

definition scan_counts :: "u64 \<Rightarrow> pe_section \<Rightarrow> section_scan \<Rightarrow> section_scan" where
  "scan_counts rva sec c = c\<lparr>
     numSectionsZeroSize := numSectionsZeroSize c + (if sizeRaw sec = 0 then 1 else 0),
     numSectionsEmptyName := numSectionsEmptyName c + (if sec_name sec = [] then 1 else 0),
     numSectionsWritable := numSectionsWritable c + (if hasCharacteristic sec MEM_WRITE then 1 else 0),
     pEntrySection := (if containsRVA sec rva then Some sec else pEntrySection c),
     pPotentialEntrySection :=
       (if hasCharacteristic sec MEM_EXECUTE \<and> pPotentialEntrySection c = None then Some sec
        else pPotentialEntrySection c),
     numSectionsReadableAndExecutable := numSectionsReadableAndExecutable c +
       (if hasCharacteristic sec MEM_EXECUTE \<and> hasCharacteristic sec MEM_READ then 1 else 0)\<rparr>"

definition scan_step ::
  "u64 \<Rightarrow> pe_section \<Rightarrow> section_scan \<times> section_hashers \<Rightarrow> (section_scan \<times> section_hashers) res" where
  "scan_step rva sec st = (case st of (c, fh) \<Rightarrow>
     let c = scan_extrema sec c
     in bnd (reduceFromSection sec fh) (\<lambda>fh. Inr (scan_counts rva sec c, fh)))"

definition overlay_entropy :: "(fl \<Rightarrow> fl) \<Rightarrow> bytes \<Rightarrow> entropy_t res" where
  "overlay_entropy log2f ov =
     (if (0 :: size_t) < of_nat (length ov)
      then let c = bc_finalize (bc_reduce ov (bc_start (bc_reset (bc_new (replicate 256 0)))))
           in calculateShannonEntropy log2f (totalNumBytes c) (byteCounts c) 256
      else Inr fl_zero)"

definition section_getName :: bytes where "section_getName = lit ''section''"

definition section_reset :: "nat \<Rightarrow> pe_file \<Rightarrow> unit \<times> fl list \<Rightarrow> (unit \<times> fl list) res" where
  "section_reset p f st = Inr st"

definition section_start :: "(fl \<Rightarrow> fl) \<Rightarrow> nat \<Rightarrow> pe_file \<Rightarrow> unit \<times> fl list \<Rightarrow> (unit \<times> fl list) res" where
  "section_start log2f p f st = (case st of (s, mem) \<Rightarrow>
     if \<not> isPEFile f then map_res (Pair s) (memset0 p section_dim mem)
     else
       let ov = getOverlayBytes f; overlaySize = of_nat (length ov) :: size_t in
       bnd (overlay_entropy log2f ov) (\<lambda>overlayEntropy.
       let fileSize = getFileSize f;
           overlaySizeRatio = (if fileSize = 0 then fl_zero
                               else fl_div f32 (fl_of_word f32 overlaySize) (fl_of_word f32 fileSize));
           c = \<lparr>maxEntropy = fl_max fl_zero overlayEntropy, minEntropy = fl_min fl_zero overlayEntropy,
                maxSizeRatio = fl_max fl_zero overlaySizeRatio, minSizeRatio = fl_min fl_zero overlaySizeRatio,
                maxVSizeRatio = fl_zero, minVSizeRatio = fl_zero, pEntrySection = None, pPotentialEntrySection = None,
                numSectionsZeroSize = 0, numSectionsEmptyName = 0, numSectionsReadableAndExecutable = 0,
                numSectionsWritable = 0\<rparr>;
           entrypointRVA = getEntrypointRVA f;
           secs = getSections f
       in bnd (sh_start (sh_setOutput (Some p) (sh_reset sh_new)) mem) (\<lambda>(fh, mem).
          bnd (for_each secs (scan_step entrypointRVA) (c, fh)) (\<lambda>(c, fh).
          let entry = (if pEntrySection c = None then pPotentialEntrySection c else pEntrySection c)
          in bnd (case entry of None \<Rightarrow> Inr fh | Some sec \<Rightarrow> reduceFromEntrySectionName (sec_name sec) fh) (\<lambda>fh.
             bnd (sh_finalize fh mem) (\<lambda>(fh, mem).
             map_res (Pair s) (assign p
               [(N_SECTIONS, fl_of_word f32 (of_nat (length secs) :: size_t)),
                (N_ZERO_SIZE, fl_of_word f32 (numSectionsZeroSize c)),
                (N_EMPTY_NAME, fl_of_word f32 (numSectionsEmptyName c)),
                (N_READABLE_AND_EXECUTABLE_SECTIONS, fl_of_word f32 (numSectionsReadableAndExecutable c)),
                (N_WRITABLE_SECTIONS, fl_of_word f32 (numSectionsWritable c)),
                (MAX_ENTROPIES, maxEntropy c),
                (MIN_ENTROPIES, minEntropy c),
                (MAX_SIZE_RATIOS, maxSizeRatio c),
                (MIN_SIZE_RATIOS, minSizeRatio c),
                (MAX_VSIZE_RATIOS, maxVSizeRatio c),
                (MIN_VSIZE_RATIOS, minVSizeRatio c),
                (OVERLAY_SIZE, fl_of_word f32 overlaySize),
                (OVERLAY_SIZE_RATIO, overlaySizeRatio),
                (OVERLAY_ENTROPY, overlayEntropy)] mem)))))))"

definition section_reduce ::
  "nat \<Rightarrow> pe_file \<Rightarrow> size_t \<Rightarrow> bytes \<Rightarrow> unit \<times> fl list \<Rightarrow> (unit \<times> fl list) res" where
  "section_reduce p f bufOffset block st = Inr st"

definition section_finalize :: "nat \<Rightarrow> pe_file \<Rightarrow> unit \<times> fl list \<Rightarrow> (unit \<times> fl list) res" where
  "section_finalize p f st = Inr st"

definition section_getMaxDim :: size_t where "section_getMaxDim = of_nat section_dim"

section \<open>The specification\<close>

definition size_items :: "pe_section list \<Rightarrow> (bytes \<times> feature_t) list" where
  "size_items secs = map (\<lambda>s. (sec_name s, fl_of_word f32 (sizeRaw s))) secs"

definition vsize_items :: "pe_section list \<Rightarrow> (bytes \<times> feature_t) list" where
  "vsize_items secs = map (\<lambda>s. (sec_name s, fl_of_word f32 (vsize s))) secs"

definition entropy_items :: "pe_section list \<Rightarrow> (bytes \<times> feature_t) list" where
  "entropy_items secs = map (\<lambda>s. (sec_name s, fl_to f32 (sec_entropy s))) secs"

definition characteristic_items :: "pe_section list \<Rightarrow> (bytes \<times> feature_t) list" where
  "characteristic_items secs = concat (map (\<lambda>s.
     map (\<lambda>chr. (sec_name s @ lit '':'' @ lit chr, fl_one)) (getNamesByValue (characteristics s))) secs)"

text \<open>The last section that holds the entry point, or else the first that is executable.\<close>

definition entry_section :: "u64 \<Rightarrow> pe_section list \<Rightarrow> pe_section option" where
  "entry_section rva secs = (case find (\<lambda>s. containsRVA s rva) (rev secs) of
     Some s \<Rightarrow> Some s | None \<Rightarrow> find (\<lambda>s. hasCharacteristic s MEM_EXECUTE) secs)"

definition entry_items :: "pe_section option \<Rightarrow> (bytes \<times> feature_t) list" where
  "entry_items e = (case e of None \<Rightarrow> [] | Some s \<Rightarrow> [(sec_name s, fl_one)])"

definition max_of :: "feature_t \<Rightarrow> (pe_section \<Rightarrow> fl) \<Rightarrow> pe_section list \<Rightarrow> feature_t" where
  "max_of x g secs = foldl (\<lambda>m s. fl_max m (fl_to f32 (g s))) (fl_max fl_zero x) secs"

definition min_of :: "feature_t \<Rightarrow> (pe_section \<Rightarrow> fl) \<Rightarrow> pe_section list \<Rightarrow> feature_t" where
  "min_of x g secs = foldl (\<lambda>m s. fl_min m (fl_to f32 (g s))) (fl_min fl_zero x) secs"

definition count_of :: "(pe_section \<Rightarrow> bool) \<Rightarrow> pe_section list \<Rightarrow> feature_t" where
  "count_of P secs = fl_of_nat f32 (length (filter P secs))"

definition overlay_value :: "(fl \<Rightarrow> fl) \<Rightarrow> bytes \<Rightarrow> entropy_t" where
  "overlay_value log2f ov =
     (if ov = [] then fl_zero else entropy_value log2f (of_nat (length ov)) (histogram ov))"

definition overlay_ratio :: "pe_file \<Rightarrow> feature_t" where
  "overlay_ratio f = (if getFileSize f = 0 then fl_zero
     else fl_div f32 (fl_of_nat f32 (length (getOverlayBytes f))) (fl_of_word f32 (getFileSize f)))"

definition section_stats :: "(fl \<Rightarrow> fl) \<Rightarrow> pe_file \<Rightarrow> feature_t list" where
  "section_stats log2f f = (let secs = getSections f; oe = overlay_value log2f (getOverlayBytes f); r = overlay_ratio f in
     [fl_of_nat f32 (length secs), count_of (\<lambda>s. sizeRaw s = 0) secs, count_of (\<lambda>s. sec_name s = []) secs,
      count_of (\<lambda>s. hasCharacteristic s MEM_EXECUTE \<and> hasCharacteristic s MEM_READ) secs,
      count_of (\<lambda>s. hasCharacteristic s MEM_WRITE) secs,
      max_of oe sec_entropy secs, min_of oe sec_entropy secs, max_of r sizeRatio secs, min_of r sizeRatio secs,
      max_of fl_zero vsizeRatio secs, min_of fl_zero vsizeRatio secs])"

definition section_rows :: "pe_file \<Rightarrow> feature_t list" where
  "section_rows f = (let secs = getSections f in
     hash_row 50 0 True (size_items secs) @ hash_row 50 0 True (vsize_items secs) @
     hash_row 50 0 True (entropy_items secs) @ hash_row 50 0 True (characteristic_items secs) @
     hash_row 10 0 True (entry_items (entry_section (getEntrypointRVA f) secs)))"

definition section_vector :: "(fl \<Rightarrow> fl) \<Rightarrow> pe_file \<Rightarrow> feature_t list" where
  "section_vector log2f f = (if isPEFile f
     then section_stats log2f f @ section_rows f @
          [fl_of_nat f32 (length (getOverlayBytes f)), overlay_ratio f, overlay_value log2f (getOverlayBytes f)]
     else replicate 224 fl_zero)"

section \<open>The hashers\<close>

definition section_hashers_on ::
  "nat \<Rightarrow> pe_section list \<Rightarrow> (bytes \<times> feature_t) list \<Rightarrow> section_hashers \<Rightarrow> bool" where
  "section_hashers_on p secs entry s \<longleftrightarrow>
     hasher_on 50 (p + 11) True (size_items secs) (sectionSizeFH s) \<and>
     hasher_on 50 (p + 61) True (vsize_items secs) (sectionVSizeFH s) \<and>
     hasher_on 50 (p + 111) True (entropy_items secs) (sectionEntropyFH s) \<and>
     hasher_on 50 (p + 161) True (characteristic_items secs) (characteristicsFH s) \<and>
     hasher_on 10 (p + 211) True entry (entrySectionNameFH s)"

lemma characteristic_names_short: "n \<in> set (getNamesByValue v) \<Longrightarrow> length n < 50"
proof -
  have "\<forall>(v, n) \<in> set section_characteristics. length n < 50" by code_simp
  moreover have "set (getNamesByValue_loop v ds) \<subseteq> snd ` set ds" for ds
    by (induction ds) (auto split: if_splits)
  ultimately show "n \<in> set (getNamesByValue v) \<Longrightarrow> length n < 50"
    unfolding getNamesByValue_def by fastforce
qed

lemma length_getNamesByValue: "length (getNamesByValue v) \<le> 46"
proof -
  have "length (getNamesByValue_loop v ds) \<le> length ds" for ds by (induction ds) auto
  from this [of section_characteristics] show ?thesis
    by (simp add: getNamesByValue_def) (simp add: section_characteristics_def)
qed

lemma length_characteristic_items: "length (characteristic_items secs) \<le> 46 * length secs"
proof (induction secs)
  case (Cons s secs)
  then show ?case using length_getNamesByValue [of "characteristics s"] by (simp add: characteristic_items_def)
qed (simp add: characteristic_items_def)

lemma fh_reduce1_eq: "fh_reduce1 k = fh_reduce k fl_one"
  by (rule ext) (simp add: fh_reduce1_def)

lemma reduceFromSection_on:
  assumes h: "section_hashers_on p secs entry fh" and sec: "length (sec_name sec) < 2 ^ 30" "wf_fl f64 (sec_entropy sec)"
    and l: "length secs < 2 ^ 50"
  shows "\<exists>fh'. reduceFromSection sec fh = Inr fh' \<and> section_hashers_on p (secs @ [sec]) entry fh' \<and>
    entrySectionNameFH fh' = entrySectionNameFH fh"
proof -
  have nm: "length (c_str (sec_name sec)) < 2 ^ 31" using length_c_str [of "sec_name sec"] sec(1) by simp
  have il: "length (size_items secs) < 2 ^ 61" "length (vsize_items secs) < 2 ^ 61" "length (entropy_items secs) < 2 ^ 61"
    using l by (simp_all add: size_items_def vsize_items_def entropy_items_def)
  have ok: "item_ok (sec_name sec, fl_of_word f32 (sizeRaw sec))" "item_ok (sec_name sec, fl_of_word f32 (vsize sec))"
    "item_ok (sec_name sec, fl_to f32 (sec_entropy sec))"
    using nm wf_fl_to_f32 [OF sec(2)] by (simp_all add: item_ok_def)
  have on: "hasher_on 50 (p + 11) True (size_items secs) (sectionSizeFH fh)"
    "hasher_on 50 (p + 61) True (vsize_items secs) (sectionVSizeFH fh)"
    "hasher_on 50 (p + 111) True (entropy_items secs) (sectionEntropyFH fh)"
    "hasher_on 50 (p + 161) True (characteristic_items secs) (characteristicsFH fh)"
    using h by (simp_all add: section_hashers_on_def)
  obtain a where a: "fh_reduce (sec_name sec) (fl_of_word f32 (sizeRaw sec)) (sectionSizeFH fh) = Inr a"
    "hasher_on 50 (p + 11) True (size_items (secs @ [sec])) a"
    using hasher_reduce [OF on(1) ok(1) il(1)] by (auto simp: size_items_def)
  obtain b where b: "fh_reduce (sec_name sec) (fl_of_word f32 (vsize sec)) (sectionVSizeFH fh) = Inr b"
    "hasher_on 50 (p + 61) True (vsize_items (secs @ [sec])) b"
    using hasher_reduce [OF on(2) ok(2) il(2)] by (auto simp: vsize_items_def)
  obtain c where c: "fh_reduce (sec_name sec) (fl_to f32 (sec_entropy sec)) (sectionEntropyFH fh) = Inr c"
    "hasher_on 50 (p + 111) True (entropy_items (secs @ [sec])) c"
    using hasher_reduce [OF on(3) ok(3) il(3)] by (auto simp: entropy_items_def)
  let ?ci = "map (\<lambda>chr. (sec_name sec @ lit '':'' @ lit chr, fl_one)) (getNamesByValue (characteristics sec))"
  have "item_ok it" if hit: "it \<in> set ?ci" for it
  proof -
    obtain chr where it: "it = (sec_name sec @ lit '':'' @ lit chr, fl_one)"
        and "chr \<in> set (getNamesByValue (characteristics sec))"
      using hit by auto
    moreover from this(2) have "length chr < 50" by (rule characteristic_names_short)
    ultimately show ?thesis using sec(1) length_c_str [of "sec_name sec @ lit '':'' @ lit chr"]
      by (simp add: item_ok_def lit_def)
  qed
  moreover have "length (characteristic_items secs) + length ?ci < 2 ^ 61"
    using length_characteristic_items [of secs] length_getNamesByValue [of "characteristics sec"] l by simp
  ultimately obtain d where "reduce_all ?ci (characteristicsFH fh) = Inr d"
    "hasher_on 50 (p + 161) True (characteristic_items secs @ ?ci) d"
    using hasher_reduce_all [OF on(4), of ?ci] by blast
  then have d: "for_each (getNamesByValue (characteristics sec))
      (\<lambda>chr. fh_reduce1 (sec_name sec @ lit '':'' @ lit chr)) (characteristicsFH fh) = Inr d"
    "hasher_on 50 (p + 161) True (characteristic_items (secs @ [sec])) d"
    by (simp_all add: fh_reduce1_eq for_each_reduce_all characteristic_items_def)
  show ?thesis using a b c d h by (simp add: reduceFromSection_def section_hashers_on_def)
qed

text \<open>The five rows of the segment.\<close>

definition rows_at :: "feature_t list \<Rightarrow> feature_t list \<Rightarrow> feature_t list \<Rightarrow> feature_t list \<Rightarrow> feature_t list \<Rightarrow>
    feature_t list \<Rightarrow> feature_t list \<Rightarrow> feature_t list" where
  "rows_at u a b c d e w = u @ a @ b @ c @ d @ e @ w"

lemma rows_at_blit:
  assumes "length u = 11" "length a = 50" "length b = 50" "length c = 50" "length d = 50" "length e = 10"
  shows "length a' = 50 \<Longrightarrow> blit (rows_at u a b c d e w) 11 a' = rows_at u a' b c d e w"
    "length b' = 50 \<Longrightarrow> blit (rows_at u a b c d e w) 61 b' = rows_at u a b' c d e w"
    "length c' = 50 \<Longrightarrow> blit (rows_at u a b c d e w) 111 c' = rows_at u a b c' d e w"
    "length d' = 50 \<Longrightarrow> blit (rows_at u a b c d e w) 161 d' = rows_at u a b c d' e w"
    "length e' = 10 \<Longrightarrow> blit (rows_at u a b c d e w) 211 e' = rows_at u a b c d e' w"
  using assms by (simp_all add: rows_at_def blit_def)

lemma length_rows_at [simp]:
  "length (rows_at u a b c d e w) = length u + length a + length b + length c + length d + length e + length w"
  by (simp add: rows_at_def)

lemma start_fh_on:
  assumes "0 < n" "n < 2 ^ 31" "j + n \<le> length vs" "p + length vs \<le> length xs" "length xs < 2 ^ 61"
  shows "\<exists>s'. start_fh (fh_reset s) n (Some p) j (blit xs p vs) = Inr (s', blit xs p (blit vs j (replicate n fl_zero))) \<and>
    hasher_on (of_nat n) (p + j) True [] s'"
proof -
  have u: "unat (of_nat n :: size_t) = n" using assms(2) by (intro unat_of_nat_small) simp
  then have "0 < (of_nat n :: size_t)" using assms(1) by (simp add: word_less_nat_alt)
  then show ?thesis
    using hasher_start [of "of_nat n" j vs p xs True s] assms u
    by (simp add: start_fh_def hasher_setup(2))
qed

lemma sh_start_on:
  assumes "length u = 11" "length a = 50" "length b = 50" "length c = 50" "length d = 50" "length e = 10" "length w = 3"
    and m: "p + 224 \<le> length xs" "length xs < 2 ^ 61"
  shows "\<exists>fh. sh_start (sh_setOutput (Some p) (sh_reset sh_new)) (blit xs p (rows_at u a b c d e w)) =
      Inr (fh, blit xs p (rows_at u (replicate 50 fl_zero) (replicate 50 fl_zero) (replicate 50 fl_zero)
        (replicate 50 fl_zero) (replicate 10 fl_zero) w)) \<and> section_hashers_on p [] [] fh"
proof -
  let ?z = "\<lambda>n. replicate n fl_zero"
  note blits = rows_at_blit
  obtain h1 where h1: "start_fh (fh_reset (fh_new 0)) 50 (Some p) 11 (blit xs p (rows_at u a b c d e w)) =
      Inr (h1, blit xs p (rows_at u (?z 50) b c d e w))" "hasher_on 50 (p + 11) True [] h1"
    using start_fh_on [of 50 11 "rows_at u a b c d e w" p xs "fh_new 0"] m assms by (auto simp: blits)
  obtain h2 where h2: "start_fh (fh_reset (fh_new 0)) 50 (Some p) 61 (blit xs p (rows_at u (?z 50) b c d e w)) =
      Inr (h2, blit xs p (rows_at u (?z 50) (?z 50) c d e w))" "hasher_on 50 (p + 61) True [] h2"
    using start_fh_on [of 50 61 "rows_at u (?z 50) b c d e w" p xs "fh_new 0"] m assms by (auto simp: blits)
  obtain h3 where h3: "start_fh (fh_reset (fh_new 0)) 50 (Some p) 111 (blit xs p (rows_at u (?z 50) (?z 50) c d e w)) =
      Inr (h3, blit xs p (rows_at u (?z 50) (?z 50) (?z 50) d e w))" "hasher_on 50 (p + 111) True [] h3"
    using start_fh_on [of 50 111 "rows_at u (?z 50) (?z 50) c d e w" p xs "fh_new 0"] m assms by (auto simp: blits)
  obtain h4 where h4: "start_fh (fh_reset (fh_new 0)) 50 (Some p) 161 (blit xs p (rows_at u (?z 50) (?z 50) (?z 50) d e w)) =
      Inr (h4, blit xs p (rows_at u (?z 50) (?z 50) (?z 50) (?z 50) e w))" "hasher_on 50 (p + 161) True [] h4"
    using start_fh_on [of 50 161 "rows_at u (?z 50) (?z 50) (?z 50) d e w" p xs "fh_new 0"] m assms by (auto simp: blits)
  obtain h5 where h5: "start_fh (fh_reset (fh_new 0)) 10 (Some p) 211 (blit xs p (rows_at u (?z 50) (?z 50) (?z 50) (?z 50) e w)) =
      Inr (h5, blit xs p (rows_at u (?z 50) (?z 50) (?z 50) (?z 50) (?z 10) w))" "hasher_on 10 (p + 211) True [] h5"
    using start_fh_on [of 10 211 "rows_at u (?z 50) (?z 50) (?z 50) (?z 50) e w" p xs "fh_new 0"] m assms by (auto simp: blits)
  show ?thesis
    using h1 h2 h3 h4 h5
    by (simp add: sh_start_def sh_setOutput_def sh_reset_def sh_new_def section_offsets section_hashers_on_def
        size_items_def vsize_items_def entropy_items_def characteristic_items_def)
qed

lemma sh_finalize_on:
  assumes h: "section_hashers_on p secs entry fh" and l: "length secs < 2 ^ 50" "length entry < 2 ^ 50"
    and len: "length u = 11" "length a = 50" "length b = 50" "length c = 50" "length d = 50" "length e = 10" "length w = 3"
    and m: "p + 224 \<le> length xs" "length xs < 2 ^ 61"
  shows "\<exists>fh'. sh_finalize fh (blit xs p (rows_at u a b c d e w)) =
      Inr (fh', blit xs p (rows_at u (hash_row 50 0 True (size_items secs)) (hash_row 50 0 True (vsize_items secs))
        (hash_row 50 0 True (entropy_items secs)) (hash_row 50 0 True (characteristic_items secs))
        (hash_row 10 0 True entry) w))"
proof -
  let ?A = "hash_row 50 0 True (size_items secs)" and ?B = "hash_row 50 0 True (vsize_items secs)"
  let ?C = "hash_row 50 0 True (entropy_items secs)" and ?D = "hash_row 50 0 True (characteristic_items secs)"
  let ?E = "hash_row 10 0 True entry"
  note blits = rows_at_blit
  have on: "hasher_on 50 (p + 11) True (size_items secs) (sectionSizeFH fh)"
    "hasher_on 50 (p + 61) True (vsize_items secs) (sectionVSizeFH fh)"
    "hasher_on 50 (p + 111) True (entropy_items secs) (sectionEntropyFH fh)"
    "hasher_on 50 (p + 161) True (characteristic_items secs) (characteristicsFH fh)"
    "hasher_on 10 (p + 211) True entry (entrySectionNameFH fh)"
    using h by (simp_all add: section_hashers_on_def)
  have il: "length (size_items secs) < 2 ^ 61" "length (vsize_items secs) < 2 ^ 61" "length (entropy_items secs) < 2 ^ 61"
    "length (characteristic_items secs) < 2 ^ 61" "length entry < 2 ^ 61"
    using l length_characteristic_items [of secs] by (simp_all add: size_items_def vsize_items_def entropy_items_def)
  obtain h1 where h1: "fh_finalize (sectionSizeFH fh) (blit xs p (rows_at u a b c d e w)) =
      Inr (h1, blit xs p (rows_at u ?A b c d e w))"
    using hasher_finalize [OF on(1) il(1), of "rows_at u a b c d e w" xs] len m by (auto simp: blits)
  obtain h2 where h2: "fh_finalize (sectionVSizeFH fh) (blit xs p (rows_at u ?A b c d e w)) =
      Inr (h2, blit xs p (rows_at u ?A ?B c d e w))"
    using hasher_finalize [OF on(2) il(2), of "rows_at u ?A b c d e w" xs] len m by (auto simp: blits)
  obtain h3 where h3: "fh_finalize (sectionEntropyFH fh) (blit xs p (rows_at u ?A ?B c d e w)) =
      Inr (h3, blit xs p (rows_at u ?A ?B ?C d e w))"
    using hasher_finalize [OF on(3) il(3), of "rows_at u ?A ?B c d e w" xs] len m by (auto simp: blits)
  obtain h4 where h4: "fh_finalize (characteristicsFH fh) (blit xs p (rows_at u ?A ?B ?C d e w)) =
      Inr (h4, blit xs p (rows_at u ?A ?B ?C ?D e w))"
    using hasher_finalize [OF on(4) il(4), of "rows_at u ?A ?B ?C d e w" xs] len m by (auto simp: blits)
  obtain h5 where h5: "fh_finalize (entrySectionNameFH fh) (blit xs p (rows_at u ?A ?B ?C ?D e w)) =
      Inr (h5, blit xs p (rows_at u ?A ?B ?C ?D ?E w))"
    using hasher_finalize [OF on(5) il(5), of "rows_at u ?A ?B ?C ?D e w" xs] len m by (auto simp: blits)
  show ?thesis using h1 h2 h3 h4 h5 by (simp add: sh_finalize_def)
qed

section \<open>The scan\<close>

definition scan_pure :: "u64 \<Rightarrow> pe_section list \<Rightarrow> section_scan \<Rightarrow> section_scan" where
  "scan_pure rva secs c = foldl (\<lambda>c sec. scan_counts rva sec (scan_extrema sec c)) c secs"

lemma scan_loop:
  assumes "section_hashers_on p secs entry fh"
    "\<forall>s \<in> set new. length (sec_name s) < 2 ^ 30 \<and> wf_fl f64 (sec_entropy s)"
    "length secs + length new < 2 ^ 50"
  shows "\<exists>fh'. for_each new (scan_step rva) (c, fh) = Inr (scan_pure rva new c, fh') \<and>
    section_hashers_on p (secs @ new) entry fh'"
  using assms
proof (induction new arbitrary: secs c fh)
  case (Cons sec new)
  obtain fh1 where fh1: "reduceFromSection sec fh = Inr fh1" "section_hashers_on p (secs @ [sec]) entry fh1"
    using reduceFromSection_on [OF Cons.prems(1), of sec] Cons.prems(2,3) by auto
  then have "scan_step rva sec (c, fh) = Inr (scan_counts rva sec (scan_extrema sec c), fh1)"
    by (simp add: scan_step_def Let_def)
  moreover obtain fh2 where "for_each new (scan_step rva) (scan_counts rva sec (scan_extrema sec c), fh1) =
      Inr (scan_pure rva new (scan_counts rva sec (scan_extrema sec c)), fh2)"
      "section_hashers_on p ((secs @ [sec]) @ new) entry fh2"
    using Cons.IH [OF fh1(2)] Cons.prems(2,3) by auto
  ultimately show ?case by (simp add: scan_pure_def)
qed (simp add: scan_pure_def)

lemma scan_extrema_frame:
  "pEntrySection (scan_extrema sec c) = pEntrySection c"
  "pPotentialEntrySection (scan_extrema sec c) = pPotentialEntrySection c"
  "numSectionsZeroSize (scan_extrema sec c) = numSectionsZeroSize c"
  "numSectionsEmptyName (scan_extrema sec c) = numSectionsEmptyName c"
  "numSectionsWritable (scan_extrema sec c) = numSectionsWritable c"
  "numSectionsReadableAndExecutable (scan_extrema sec c) = numSectionsReadableAndExecutable c"
  by (simp_all add: scan_extrema_def)

lemma scan_counts_frame:
  "maxEntropy (scan_counts rva sec c) = maxEntropy c" "minEntropy (scan_counts rva sec c) = minEntropy c"
  "maxSizeRatio (scan_counts rva sec c) = maxSizeRatio c" "minSizeRatio (scan_counts rva sec c) = minSizeRatio c"
  "maxVSizeRatio (scan_counts rva sec c) = maxVSizeRatio c" "minVSizeRatio (scan_counts rva sec c) = minVSizeRatio c"
  by (simp_all add: scan_counts_def)

lemma scan_counters:
  "numSectionsZeroSize (scan_pure rva secs c) = numSectionsZeroSize c + of_nat (length (filter (\<lambda>s. sizeRaw s = 0) secs))"
  "numSectionsEmptyName (scan_pure rva secs c) = numSectionsEmptyName c + of_nat (length (filter (\<lambda>s. sec_name s = []) secs))"
  "numSectionsWritable (scan_pure rva secs c) =
     numSectionsWritable c + of_nat (length (filter (\<lambda>s. hasCharacteristic s MEM_WRITE) secs))"
  "numSectionsReadableAndExecutable (scan_pure rva secs c) = numSectionsReadableAndExecutable c +
     of_nat (length (filter (\<lambda>s. hasCharacteristic s MEM_EXECUTE \<and> hasCharacteristic s MEM_READ) secs))"
  unfolding scan_pure_def by (induction secs arbitrary: c) (simp_all add: scan_counts_def scan_extrema_frame)

lemma scan_maxima:
  "maxEntropy (scan_pure rva secs c) = foldl (\<lambda>m s. fl_max m (fl_to f32 (sec_entropy s))) (maxEntropy c) secs"
  "minEntropy (scan_pure rva secs c) = foldl (\<lambda>m s. fl_min m (fl_to f32 (sec_entropy s))) (minEntropy c) secs"
  "maxSizeRatio (scan_pure rva secs c) = foldl (\<lambda>m s. fl_max m (fl_to f32 (sizeRatio s))) (maxSizeRatio c) secs"
  "minSizeRatio (scan_pure rva secs c) = foldl (\<lambda>m s. fl_min m (fl_to f32 (sizeRatio s))) (minSizeRatio c) secs"
  "maxVSizeRatio (scan_pure rva secs c) = foldl (\<lambda>m s. fl_max m (fl_to f32 (vsizeRatio s))) (maxVSizeRatio c) secs"
  "minVSizeRatio (scan_pure rva secs c) = foldl (\<lambda>m s. fl_min m (fl_to f32 (vsizeRatio s))) (minVSizeRatio c) secs"
  unfolding scan_pure_def by (induction secs arbitrary: c) (simp_all add: scan_counts_frame scan_extrema_def)

lemma find_append: "find P (xs @ ys) = (case find P xs of None \<Rightarrow> find P ys | Some x \<Rightarrow> Some x)"
  by (induction xs) simp_all

lemma scan_entry:
  "pEntrySection (scan_pure rva secs c) = (case find (\<lambda>s. containsRVA s rva) (rev secs) of
     None \<Rightarrow> pEntrySection c | Some s \<Rightarrow> Some s)"
  "pPotentialEntrySection (scan_pure rva secs c) = (case pPotentialEntrySection c of
     None \<Rightarrow> find (\<lambda>s. hasCharacteristic s MEM_EXECUTE) secs | Some s \<Rightarrow> Some s)"
  unfolding scan_pure_def
  by (induction secs arbitrary: c)
    (simp_all add: scan_counts_def scan_extrema_frame find_append split: option.split)

section \<open>The vector\<close>

lemma overlay_entropy_value: "length ov < 2 ^ 64 \<Longrightarrow> overlay_entropy log2f ov = Inr (overlay_value log2f ov)"
proof -
  assume l: "length ov < 2 ^ 64"
  have "unat (of_nat (length ov) :: size_t) = length ov" using l by (intro unat_of_nat_small) simp
  then have "(0 :: size_t) < of_nat (length ov) \<longleftrightarrow> ov \<noteq> []" by (simp add: word_less_nat_alt)
  then show ?thesis
    by (simp add: overlay_entropy_def overlay_value_def bc_run bc_finalize_def calculateShannonEntropy_value)
qed

lemma fl_of_word_of_nat: "n < 2 ^ 64 \<Longrightarrow> fl_of_word f32 (of_nat n :: size_t) = fl_of_nat f32 n"
  using unat_of_nat_small [where 'w = 64, of n] by (simp add: fl_of_word_def)

lemma length_section_stats [simp]: "length (section_stats log2f f) = 11"
  by (simp add: section_stats_def Let_def)

lemma length_section_vector: "length (section_vector log2f f) = 224"
  by (simp add: section_vector_def section_rows_def Let_def)

lemma entry_step:
  assumes h: "section_hashers_on p secs [] fh"
    and e: "\<And>s. e = Some s \<Longrightarrow> length (sec_name s) < 2 ^ 30"
  shows "\<exists>fh'. (case e of None \<Rightarrow> Inr fh | Some sec \<Rightarrow> reduceFromEntrySectionName (sec_name sec) fh) = Inr fh' \<and>
    section_hashers_on p secs (entry_items e) fh'"
proof (cases e)
  case (Some sec)
  have "length (sec_name sec) < 2 ^ 31" using e [OF Some] by simp
  then have "item_ok (sec_name sec, fl_one)" using length_c_str [of "sec_name sec"] by (simp add: item_ok_def)
  moreover have "hasher_on 10 (p + 211) True [] (entrySectionNameFH fh)" using h by (simp add: section_hashers_on_def)
  ultimately obtain x where "fh_reduce (sec_name sec) fl_one (entrySectionNameFH fh) = Inr x"
    "hasher_on 10 (p + 211) True [(sec_name sec, fl_one)] x"
    using hasher_reduce [of 10 "p + 211" True "[]"] by fastforce
  then show ?thesis using Some h
    by (simp add: reduceFromEntrySectionName_def fh_reduce1_eq entry_items_def section_hashers_on_def)
qed (use h in \<open>simp add: entry_items_def\<close>)

lemma entry_section_in: "entry_section rva secs = Some s \<Longrightarrow> s \<in> set secs"
  unfolding entry_section_def by (auto simp: find_Some_iff split: option.splits) (metis nth_mem length_rev set_rev)

lemma rows_at_split:
  assumes "length seg = 224"
  shows "seg = rows_at (take 11 seg) (take 50 (drop 11 seg)) (take 50 (drop 61 seg)) (take 50 (drop 111 seg))
    (take 50 (drop 161 seg)) (take 10 (drop 211 seg)) (drop 221 seg)"
proof -
  have *: "drop i seg = take n (drop i seg) @ drop (i + n) seg" for i n
    by (metis append_take_drop_id drop_drop add.commute)
  show ?thesis unfolding rows_at_def
    using * [of 0 11] * [of 11 50] * [of 61 50] * [of 111 50] * [of 161 50] * [of 211 10] by simp
qed

lemma assigned_stats:
  assumes "length us = 11" "length vs = 210" "length ws = 3" "length u = 11"
  shows "assigned (enumerate 0 us @ enumerate 221 ws) (u @ vs @ [x, y, z]) = us @ vs @ ws"
  using assms by (simp add: assigned_append assigned_enumerate blit_def)

lemma section_start_vector:
  assumes ok: "pe_ok f" and fits: "fits p section_dim mem"
  shows "\<exists>s'. section_start log2f p f (s, mem) = Inr (s', blit mem p (section_vector log2f f))"
proof (cases "isPEFile f")
  case False
  then show ?thesis using fits
    by (simp add: section_start_def section_vector_def memset0_fits section_offsets)
next
  case True
  have ov: "length (getOverlayBytes f) < 2 ^ 60" using ok by (simp add: pe_ok_def)
  let ?secs = "getSections f" and ?rva = "getEntrypointRVA f" and ?z = "\<lambda>n. replicate n fl_zero"
  let ?oe = "overlay_value log2f (getOverlayBytes f)" and ?ratio = "overlay_ratio f"
  let ?osize = "fl_of_nat f32 (length (getOverlayBytes f))"
  define seg where "seg = take 224 (drop p mem)"
  define c0 where "c0 = \<lparr>maxEntropy = fl_max fl_zero ?oe, minEntropy = fl_min fl_zero ?oe,
      maxSizeRatio = fl_max fl_zero ?ratio, minSizeRatio = fl_min fl_zero ?ratio,
      maxVSizeRatio = fl_zero, minVSizeRatio = fl_zero, pEntrySection = None, pPotentialEntrySection = None,
      numSectionsZeroSize = 0, numSectionsEmptyName = 0, numSectionsReadableAndExecutable = 0,
      numSectionsWritable = 0\<rparr>"
  have m: "p + 224 \<le> length mem" "length mem < 2 ^ 61" using fits by (simp_all add: fits_def section_offsets)
  have secs: "?secs = sections f" by (simp add: getSections_def pe_default_def split: option.split)
  then have names: "\<forall>s \<in> set ?secs. length (sec_name s) < 2 ^ 30 \<and> wf_fl f64 (sec_entropy s)"
    and n: "length ?secs < 2 ^ 50"
    using ok by (simp_all add: pe_ok_def)
  have seg: "length seg = 224" "mem = blit mem p seg"
    using m by (simp_all add: seg_def blit_self)
  define u where "u = take 11 seg"
  define w where "w = drop 221 seg"
  have uw: "length u = 11" "length w = 3" using seg by (simp_all add: u_def w_def)
  obtain fh1 where fh1: "sh_start (sh_setOutput (Some p) (sh_reset sh_new)) mem =
      Inr (fh1, blit mem p (rows_at u (?z 50) (?z 50) (?z 50) (?z 50) (?z 10) w))" "section_hashers_on p [] [] fh1"
    using sh_start_on [of u "take 50 (drop 11 seg)" "take 50 (drop 61 seg)" "take 50 (drop 111 seg)"
        "take 50 (drop 161 seg)" "take 10 (drop 211 seg)" w p mem] rows_at_split [OF seg(1)] seg m uw
    by (auto simp flip: u_def w_def)
  let ?c = "scan_pure ?rva ?secs c0"
  obtain fh2 where fh2: "for_each ?secs (scan_step ?rva) (c0, fh1) = Inr (?c, fh2)" "section_hashers_on p ?secs [] fh2"
    using scan_loop [OF fh1(2) names, of ?rva c0] n by auto
  define e where "e = (if pEntrySection ?c = None then pPotentialEntrySection ?c else pEntrySection ?c)"
  have e: "e = entry_section ?rva ?secs"
    by (simp add: e_def scan_entry entry_section_def c0_def split: option.split)
  then have "length (sec_name s) < 2 ^ 30" if "e = Some s" for s
    using that names entry_section_in [of ?rva ?secs s] by auto
  then obtain fh3 where fh3: "(case e of None \<Rightarrow> Inr fh2 | Some sec \<Rightarrow> reduceFromEntrySectionName (sec_name sec) fh2) = Inr fh3"
    "section_hashers_on p ?secs (entry_items e) fh3"
    using entry_step [OF fh2(2)] by blast
  have "length (entry_items e) < 2 ^ 50" by (simp add: entry_items_def split: option.split)
  then obtain fh4 where fh4: "sh_finalize fh3 (blit mem p (rows_at u (?z 50) (?z 50) (?z 50) (?z 50) (?z 10) w)) =
      Inr (fh4, blit mem p (u @ section_rows f @ w))"
    using sh_finalize_on [OF fh3(2) n, of u "?z 50" "?z 50" "?z 50" "?z 50" "?z 10" w mem] uw m e
    by (auto simp: section_rows_def rows_at_def Let_def)
  define xs where "xs = enumerate 0 (section_stats log2f f) @ enumerate 221 [?osize, ?ratio, ?oe]"
  have len: "length (section_rows f) = 210" by (simp add: section_rows_def Let_def)
  obtain x y z where w: "w = [x, y, z]" using uw(2) by (auto simp: length_Suc_conv numeral_3_eq_3)
  have "assign p xs (blit mem p (u @ section_rows f @ w)) = Inr (blit mem p (section_vector log2f f))"
    using assign_segment [of xs "u @ section_rows f @ w" p mem] uw len m True
      assigned_stats [of "section_stats log2f f" "section_rows f" "[?osize, ?ratio, ?oe]" u x y z]
    by (auto simp: xs_def w section_vector_def in_set_enumerate_eq)
  moreover have "xs = [(0, fl_of_nat f32 (length ?secs)), (1, fl_of_word f32 (numSectionsZeroSize ?c)),
      (2, fl_of_word f32 (numSectionsEmptyName ?c)), (3, fl_of_word f32 (numSectionsReadableAndExecutable ?c)),
      (4, fl_of_word f32 (numSectionsWritable ?c)), (5, maxEntropy ?c), (6, minEntropy ?c), (7, maxSizeRatio ?c),
      (8, minSizeRatio ?c), (9, maxVSizeRatio ?c), (10, minVSizeRatio ?c), (221, ?osize), (222, ?ratio), (223, ?oe)]"
  proof -
    have k: "fl_of_word f32 (of_nat (length (filter P ?secs)) :: size_t) = count_of P ?secs" for P
    proof -
      have "length (filter P ?secs) < 2 ^ 50" using le_less_trans [OF length_filter_le n] .
      then show ?thesis by (simp add: count_of_def fl_of_word_of_nat)
    qed
    show ?thesis
      by (simp add: xs_def section_stats_def Let_def scan_counters scan_maxima k c0_def max_of_def min_of_def
          fl_max_def [of fl_zero fl_zero] fl_min_def [of fl_zero fl_zero])
  qed
  moreover have "fl_of_word f32 (of_nat (length (getOverlayBytes f)) :: size_t) = ?osize"
    "fl_of_word f32 (of_nat (length ?secs) :: size_t) = fl_of_nat f32 (length ?secs)"
    using ov n by (simp_all add: fl_of_word_of_nat)
  moreover from this have "(if getFileSize f = 0 then fl_zero
      else fl_div f32 (fl_of_word f32 (of_nat (length (getOverlayBytes f)) :: size_t)) (fl_of_word f32 (getFileSize f))) = ?ratio"
    by (simp add: overlay_ratio_def)
  moreover have "overlay_entropy log2f (getOverlayBytes f) = Inr ?oe" using ov by (intro overlay_entropy_value) simp
  ultimately have "section_start log2f p f (s, mem) = Inr (s, blit mem p (section_vector log2f f))"
    using True fh1(1) fh2(1) fh3(1) fh4
    by (simp add: section_start_def section_offsets Let_def split del: if_split flip: c0_def e_def)
  then show ?thesis by blast
qed

interpretation section_info: start_feature section_dim section_reset "section_start log2f" section_finalize
  section_reduce "section_vector log2f" for log2f
proof unfold_locales
  show "length (section_vector log2f f) = section_dim" for f
    by (simp add: length_section_vector section_offsets)
qed (use section_start_vector in \<open>auto simp: section_reset_def section_reduce_def section_finalize_def\<close>)

section \<open>Properties\<close>

text \<open>
  C7. For a PE file the run writes 11 statistics over its sections and the overlay, the hash rows
  of sizes, virtual sizes, entropies and characteristics under the section names, the hash row
  of the name of the entry section (the last that holds the entry point, or else the first
  executable one), and the size, ratio and entropy of the overlay; every cell of the segment is
  written, although nothing clears it first.
\<close>

theorem section_features:
  assumes "pe_ok f" "fits p 224 mem" "length (concat bs) < 2 ^ 61"
  shows "map_res snd (ft_run section_reset (section_start log2f) section_finalize section_reduce p f bs ((), mem)) =
    Inr (blit mem p (if isPEFile f
      then section_stats log2f f @
           map (hash_cell 50 0 True (size_items (getSections f))) [0..<50] @
           map (hash_cell 50 0 True (vsize_items (getSections f))) [0..<50] @
           map (hash_cell 50 0 True (entropy_items (getSections f))) [0..<50] @
           map (hash_cell 50 0 True (characteristic_items (getSections f))) [0..<50] @
           map (hash_cell 10 0 True (entry_items (entry_section (getEntrypointRVA f) (getSections f)))) [0..<10] @
           [fl_of_nat f32 (length (getOverlayBytes f)), overlay_ratio f, overlay_value log2f (getOverlayBytes f)]
      else replicate 224 fl_zero))"
proof -
  have "\<exists>s'. ft_run section_reset (section_start log2f) section_finalize section_reduce p f bs ((), mem) =
      Inr (s', blit mem p (section_vector log2f f)) \<and> True"
    using section_info.run_features [OF TrueI assms(1) _ assms(3), of p mem log2f "()"] assms(2)
    by (simp add: section_offsets)
  then show ?thesis
    by (auto simp: section_vector_def section_rows_def hash_row_def Let_def simp del: upt_rec_numeral upt_Suc)
qed

theorem section_features_witness:
  "\<forall>b log2f. map_res (take 3 \<circ> snd) (ft_run section_reset (section_start log2f) section_finalize section_reduce 0
     ((pe_file_init 3)\<lparr>pe := Some (b\<lparr>b_overlay := []\<rparr>)\<rparr>) [lit ''abc''] ((), replicate 224 NaN)) =
     Inr [fl_zero, fl_zero, fl_zero]"
proof (intro allI)
  fix b and log2f :: "fl \<Rightarrow> fl"
  let ?f = "(pe_file_init 3)\<lparr>pe := Some (b\<lparr>b_overlay := []\<rparr>)\<rparr>"
  have ok: "pe_ok ?f" "isPEFile ?f" "getSections ?f = []" by (simp_all add: pe_ok_simps getSections_def)
  have r: "map_res (take 3 \<circ> snd) r = map_res (take 3) (map_res snd r)" for r :: "(unit \<times> fl list) res"
    by (cases r) simp_all
  have t: "take 3 (section_stats log2f ?f) = [fl_zero, fl_zero, fl_zero]"
    by (simp add: section_stats_def Let_def ok(3) count_of_def fl_zero_def)
  have "map_res (take 3 \<circ> snd) (ft_run section_reset (section_start log2f) section_finalize section_reduce 0 ?f
      [lit ''abc''] ((), replicate 224 NaN)) = Inr (take 3 (section_stats log2f ?f))"
    unfolding r using section_features [OF ok(1), of 0 "replicate 224 NaN" "[lit ''abc'']" log2f]
    by (simp add: fits_def lit_def blit_def ok(2) del: upt_Suc upt_rec_numeral)
  then show "map_res (take 3 \<circ> snd) (ft_run section_reset (section_start log2f) section_finalize section_reduce 0 ?f
      [lit ''abc''] ((), replicate 224 NaN)) = Inr [fl_zero, fl_zero, fl_zero]"
    by (simp only: t)
qed

end
