(* ===== verification/GeneralFileInfo.thy ===== *)
theory GeneralFileInfo
  imports HeaderFileInfo Entropy
begin

text \<open>
  \<open>core/src/f_general_file_info.cpp\<close>: the size, the entropy, whether the file is a PE file, its
  first four bytes and the histogram of its bytes.
\<close>

section \<open>The feature type\<close>

record general_file_info =
  gf_byteCounter :: byte_counter
  gf_byteAtOffsetCatcher :: byte_catcher

definition NUM_FIRST_BYTES_TO_TAKE :: nat where "NUM_FIRST_BYTES_TO_TAKE = 4"

definition general_getName :: bytes where "general_getName = lit ''general,histogram''"

definition general_reset ::
  "nat \<Rightarrow> pe_file \<Rightarrow> general_file_info \<times> fl list \<Rightarrow> (general_file_info \<times> fl list) res" where
  "general_reset p f st = (case st of (s, mem) \<Rightarrow>
     Inr (s\<lparr>gf_byteCounter := bc_reset (gf_byteCounter s),
            gf_byteAtOffsetCatcher := want_all (map of_nat [0..<NUM_FIRST_BYTES_TO_TAKE])
              (bcat_reset (gf_byteAtOffsetCatcher s))\<rparr>, mem))"

definition general_start ::
  "nat \<Rightarrow> pe_file \<Rightarrow> general_file_info \<times> fl list \<Rightarrow> (general_file_info \<times> fl list) res" where
  "general_start p f st = (case st of (s, mem) \<Rightarrow>
     Inr (s\<lparr>gf_byteCounter := bc_start (gf_byteCounter s),
            gf_byteAtOffsetCatcher := bcat_start (gf_byteAtOffsetCatcher s)\<rparr>, mem))"

definition general_reduce ::
  "nat \<Rightarrow> pe_file \<Rightarrow> size_t \<Rightarrow> bytes \<Rightarrow> general_file_info \<times> fl list \<Rightarrow> (general_file_info \<times> fl list) res" where
  "general_reduce p f bufOffset block' st = (case st of (s, mem) \<Rightarrow>
     bnd (bcat_reduce bufOffset block' (gf_byteAtOffsetCatcher s)) (\<lambda>c.
       Inr (s\<lparr>gf_byteCounter := bc_reduce block' (gf_byteCounter s), gf_byteAtOffsetCatcher := c\<rparr>, mem)))"

text \<open>The size is rounded to a \<open>float\<close> before it is converted back for the entropy.\<close>

definition general_finalize ::
  "(fl \<Rightarrow> fl) \<Rightarrow> nat \<Rightarrow> pe_file \<Rightarrow> general_file_info \<times> fl list \<Rightarrow> (general_file_info \<times> fl list) res" where
  "general_finalize log2f p f st = (case st of (s, mem) \<Rightarrow>
     let s = s\<lparr>gf_byteCounter := bc_finalize (gf_byteCounter s),
               gf_byteAtOffsetCatcher := bcat_finalize (gf_byteAtOffsetCatcher s)\<rparr>;
         byteCountArray = byteCounts (gf_byteCounter s);
         f_size = fl_of_word f32 (totalNumBytes (gf_byteCounter s))
     in bnd (fl_trunc 0 (2 ^ 64 - 1) f_size) (\<lambda>n.
        bnd (calculateShannonEntropy log2f (of_int n) byteCountArray 256) (\<lambda>f_entropy.
        let f_isPE = (if isPEFile f then fl_one else fl_zero)
        in bnd (assign p [(0, f_size), (1, f_entropy), (2, f_isPE)] mem) (\<lambda>mem.
           bnd (for_each [0..<NUM_FIRST_BYTES_TO_TAKE] (\<lambda>i mem.
                  store mem (p + 3 + i) (case bcat_lookup (gf_byteAtOffsetCatcher s) (of_nat i) of
                    Some b \<Rightarrow> fl_of_word f32 b | None \<Rightarrow> fl_zero)) mem) (\<lambda>mem.
           bnd (for_each [0..<256] (\<lambda>i mem. bnd (load byteCountArray i) (\<lambda>c.
                  store mem (p + 3 + NUM_FIRST_BYTES_TO_TAKE + i) (fl_div f32 (fl_of_word f32 c) f_size))) mem) (\<lambda>mem.
             Inr (s, mem)))))))"

definition general_getMaxDim :: size_t where "general_getMaxDim = of_nat (3 + NUM_FIRST_BYTES_TO_TAKE + 256)"

section \<open>What it computes\<close>

text \<open>A byte of the file, zero past its end.\<close>

definition byte_at :: "bytes \<Rightarrow> nat \<Rightarrow> u8" where
  "byte_at d i = (if i < length d then d ! i else 0)"

definition rounded_size :: "bytes \<Rightarrow> feature_t" where
  "rounded_size d = fl_of_nat f32 (length d)"

definition general_entropy :: "(fl \<Rightarrow> fl) \<Rightarrow> bytes \<Rightarrow> entropy_t" where
  "general_entropy log2f d = (case fl_trunc 0 (2 ^ 64 - 1) (rounded_size d) of
     Inr n \<Rightarrow> entropy_value log2f (of_int n) (histogram d) | Inl e \<Rightarrow> fl_zero)"

definition general_vector :: "(fl \<Rightarrow> fl) \<Rightarrow> pe_file \<Rightarrow> bytes \<Rightarrow> feature_t list" where
  "general_vector log2f f d =
     [rounded_size d, general_entropy log2f d, flag (isPEFile f)] @
     map (\<lambda>i. fl_of_word f32 (byte_at d i)) [0..<4] @
     map (\<lambda>c. fl_div f32 (fl_of_word f32 c) (rounded_size d)) (histogram d)"

definition general_running :: "pe_file \<Rightarrow> nat \<Rightarrow> bytes list \<Rightarrow> general_file_info \<Rightarrow> fl list \<Rightarrow> bool" where
  "general_running f p bs s seg \<longleftrightarrow>
     gf_byteCounter s = \<lparr>totalNumBytes = of_nat (length (concat bs)), byteCounts = histogram (concat bs)\<rparr> \<and>
     offsetToByteMap (gf_byteAtOffsetCatcher s) = map (caught 0 (concat bs)) [(0, 0), (1, 0), (2, 0), (3, 0)] \<and>
     bcat_inv (gf_byteAtOffsetCatcher s)"

definition general_ready :: "general_file_info \<Rightarrow> bool" where
  "general_ready s \<longleftrightarrow>
     gf_byteCounter s = \<lparr>totalNumBytes = 0, byteCounts = histogram []\<rparr> \<and>
     offsetToByteMap (gf_byteAtOffsetCatcher s) = [(0, 0), (1, 0), (2, 0), (3, 0)]"

lemma want_four: "offsetToByteMap (want_all (map of_nat [0..<4]) (bcat_reset s)) = [(0, 0), (1, 0), (2, 0), (3, 0)]"
  by (simp add: wantByteAtOffset_def bcat_reset_def upt_rec)

lemma caught_nil: "caught off [] e = e"
  by (cases e) (auto simp: caught_def)

lemma size_trunc:
  assumes "length d < 2 ^ 61"
  shows "\<exists>n. fl_trunc 0 (2 ^ 64 - 1) (rounded_size d) = Inr n"
proof -
  obtain q where q: "rounded_size d = Fin False q" "0 \<le> q"
    using fl_of_nat_fin [of "length d"] assms by (auto simp: rounded_size_def)
  have "q \<le> p2 61"
  proof -
    have "(of_nat (length d) :: rat) \<le> of_nat (2 ^ 61)" using assms by (simp only: of_nat_le_iff)
    then have "round_mag f32 (of_nat (length d)) \<le> p2 61"
      by (intro round_le_rep rep_mag_p2) (auto simp: p2_def)
    then show ?thesis using q(1)
      by (auto simp: rounded_size_def fl_of_nat_def fl_round_def Let_def split: if_splits)
  qed
  then have "\<lfloor>q\<rfloor> \<le> 2 ^ 61" by (simp add: p2_def floor_le_iff)
  then show ?thesis using q by (simp add: q(1))
qed

text \<open>A loop that fills consecutive cells.\<close>

lemma fill_loop:
  fixes g :: "nat \<Rightarrow> fl"
  assumes "j + n \<le> length vs" "p + length vs \<le> length xs"
  shows "for_each [0..<n] (\<lambda>i mem. store mem (p + j + i) (g i)) (blit xs p vs) =
    Inr (blit xs p (blit vs j (map g [0..<n])))"
proof -
  have "for_each is (\<lambda>i mem. store mem (p + j + i) (g i)) = assign p (map (\<lambda>i. (j + i, g i)) is)" for "is"
    by (rule ext) (simp add: assign_def for_each_map o_def add.assoc)
  moreover have "map (\<lambda>i. (j + i, g i)) [0..<n] = enumerate j (map g [0..<n])"
    by (rule nth_equalityI) (simp_all add: nth_enumerate_eq)
  moreover have "\<forall>a \<in> set (enumerate j (map g [0..<n])). fst a < length vs"
    using assms(1) by (auto simp: in_set_enumerate_eq)
  ultimately show ?thesis
    using assms assign_segment [of "enumerate j (map g [0..<n])" vs p xs] by (simp add: assigned_enumerate)
qed

lemma general_finalize_ok:
  assumes run: "general_running f p bs s seg" and seg: "length seg = 263" "p + 263 \<le> length mem"
    and len: "length (concat bs) < 2 ^ 61"
  shows "\<exists>s'. general_finalize log2f p f (s, blit mem p seg) =
    Inr (s', blit mem p (general_vector log2f f (concat bs)))"
proof -
  let ?d = "concat bs"
  let ?e = "general_entropy log2f ?d" and ?size = "rounded_size ?d"
  obtain n where n: "fl_trunc 0 (2 ^ 64 - 1) ?size = Inr n" using size_trunc [OF len] by blast
  have sz: "fl_of_word f32 (totalNumBytes (gf_byteCounter s)) = ?size"
    using run len by (simp add: general_running_def rounded_size_def fl_of_word_def unat_of_nat_small)
  have cs: "byteCounts (gf_byteCounter s) = histogram ?d" using run by (simp add: general_running_def)
  have ent: "calculateShannonEntropy log2f (of_int n) (histogram ?d) 256 = Inr ?e"
    by (simp add: calculateShannonEntropy_value general_entropy_def n [simplified])
  have look: "bcat_lookup (gf_byteAtOffsetCatcher s) (of_nat i) = Some (byte_at ?d i)" if "i < 4" for i
  proof -
    have "i = 0 \<or> i = 1 \<or> i = 2 \<or> i = 3" using that by linarith
    then show ?thesis using run
      by (auto simp: general_running_def bcat_lookup_def map_of_caught caught_def byte_at_def)
  qed
  let ?v3 = "[?size, ?e, flag (isPEFile f)]"
  let ?fst = "map (\<lambda>i. fl_of_word f32 (byte_at ?d i)) [0..<4]"
  let ?hist = "map (\<lambda>c. fl_div f32 (fl_of_word f32 c) ?size) (histogram ?d)"
  have h1: "assign p [(0, ?size), (1, ?e), (2, flag (isPEFile f))] (blit mem p seg) = Inr (blit mem p (blit seg 0 ?v3))"
  proof -
    have "assigned (enumerate 0 ?v3) seg = blit seg 0 ?v3" using seg by (subst assigned_enumerate) simp_all
    then have "assigned [(0, ?size), (1, ?e), (2, flag (isPEFile f))] seg = blit seg 0 ?v3" by (simp add: numeral_2_eq_2)
    then show ?thesis using seg by (simp add: assign_segment)
  qed
  have fst4: "map (\<lambda>i. case bcat_lookup (gf_byteAtOffsetCatcher s) (of_nat i) of
        Some b \<Rightarrow> fl_of_word f32 b | None \<Rightarrow> fl_zero) [0..<4] = ?fst"
    by (rule map_cong) (simp_all add: look)
  have h2: "for_each [0..<4] (\<lambda>i mem. store mem (p + 3 + i) (case bcat_lookup (gf_byteAtOffsetCatcher s) (of_nat i) of
        Some b \<Rightarrow> fl_of_word f32 b | None \<Rightarrow> fl_zero)) (blit mem p (blit seg 0 ?v3)) =
      Inr (blit mem p (blit (blit seg 0 ?v3) 3 ?fst))"
    using seg by (subst fill_loop) (simp_all add: fst4 del: upt_rec_numeral)
  have h3: "for_each [0..<256] (\<lambda>i mem. bnd (load (histogram ?d) i) (\<lambda>c.
        store mem (p + 3 + 4 + i) (fl_div f32 (fl_of_word f32 c) ?size))) (blit mem p (blit (blit seg 0 ?v3) 3 ?fst)) =
      Inr (blit mem p (blit (blit (blit seg 0 ?v3) 3 ?fst) 7 ?hist))"
  proof -
    have seven: "p + 3 + 4 = p + 7" by simp
    have "for_each [0..<256] (\<lambda>i mem. bnd (load (histogram ?d) i) (\<lambda>c. store mem (p + 7 + i) (fl_div f32 (fl_of_word f32 c) ?size))) m =
        for_each [0..<256] (\<lambda>i mem. store mem (p + 7 + i) (fl_div f32 (fl_of_word f32 (histogram ?d ! i)) ?size)) m" for m
      by (rule for_each_cong) (simp add: load_def)
    moreover have "map (\<lambda>i. fl_div f32 (fl_of_word f32 (histogram ?d ! i)) ?size) [0..<256] = ?hist"
      by (rule nth_equalityI) simp_all
    ultimately show ?thesis using seg unfolding seven by (simp add: fill_loop del: upt_rec_numeral)
  qed
  have v: "blit (blit (blit seg 0 ?v3) 3 ?fst) 7 ?hist = general_vector log2f f ?d"
    using seg by (simp add: blit_def general_vector_def del: upt_rec_numeral)
  have fl: "(if isPEFile f then fl_one else fl_zero) = flag (isPEFile f)" by (simp add: flag_def)
  show ?thesis
    by (simp add: general_finalize_def Let_def bc_finalize_def bcat_finalize_def sz cs fl n [simplified] ent [simplified]
        NUM_FIRST_BYTES_TO_TAKE_def h1 [simplified] h2 h3 [simplified] v del: upt_rec_numeral)
qed

interpretation general: feature_type 263 general_reset general_start "general_finalize log2f" general_reduce
  "\<lambda>_. True" general_ready general_running "\<lambda>f bs. general_vector log2f f (concat bs)"
proof
  fix s and p :: nat and f and mem :: "fl list"
  show "\<exists>s'. general_reset p f (s, mem) = Inr (s', mem) \<and> general_ready s'"
    using want_four [of "gf_byteAtOffsetCatcher s"]
    by (simp add: general_reset_def general_ready_def bc_reset_histogram NUM_FIRST_BYTES_TO_TAKE_def)
next
  fix s and p :: nat and f and mem :: "fl list"
  assume "general_ready s" "fits p 263 mem"
  moreover obtain seg where "seg = take 263 (drop p mem)" by simp
  moreover note bcat_start_inv [of "gf_byteAtOffsetCatcher s"]
  ultimately have "general_start p f (s, mem) = Inr (s\<lparr>gf_byteCounter := bc_start (gf_byteCounter s),
      gf_byteAtOffsetCatcher := bcat_start (gf_byteAtOffsetCatcher s)\<rparr>, blit mem p seg) \<and> length seg = 263 \<and>
    general_running f p [] (s\<lparr>gf_byteCounter := bc_start (gf_byteCounter s),
      gf_byteAtOffsetCatcher := bcat_start (gf_byteAtOffsetCatcher s)\<rparr>) seg"
    by (auto simp: general_start_def general_ready_def general_running_def fits_def blit_self bc_start_def
        caught_nil bcat_start_def min_absorb2)
  then show "\<exists>s' seg. general_start p f (s, mem) = Inr (s', blit mem p seg) \<and> length seg = 263 \<and>
      general_running f p [] s' seg" by blast
next
  fix f and p :: nat and bs s and seg mem :: "fl list" and b :: bytes
  assume a: "general_running f p bs s seg" "length seg = 263" "length (concat bs) + length b < 2 ^ 61"
  let ?d = "concat bs" and ?c = "gf_byteAtOffsetCatcher s"
  have o: "unat (of_nat (length ?d) :: size_t) = length ?d" using a(3) by (intro unat_of_nat_small) simp
  define C where "C = map (caught (of_nat (length ?d)) b) (offsetToByteMap ?c)"
  have r: "bcat_reduce (of_nat (length ?d)) b ?c = Inr (?c\<lparr>offsetToByteMap := C\<rparr>)"
    using a unfolding C_def by (intro bcat_reduce_caught) (simp_all add: general_running_def o)
  have inv: "bcat_inv (?c\<lparr>offsetToByteMap := C\<rparr>)"
    using a unfolding C_def by (subst bcat_inv_map) (simp add: general_running_def)
  have "caught 0 (?d @ b) e = caught (of_nat (length ?d)) b (caught 0 ?d e)" for e
    using a(3) caught_append [of 0 ?d b e] by simp
  then have "C = map (caught 0 (concat (bs @ [b]))) [(0, 0), (1, 0), (2, 0), (3, 0)]"
    using a(1) by (simp add: C_def general_running_def)
  then have "general_reduce p f (of_nat (length ?d)) b (s, blit mem p seg) =
      Inr (s\<lparr>gf_byteCounter := bc_reduce b (gf_byteCounter s), gf_byteAtOffsetCatcher := ?c\<lparr>offsetToByteMap := C\<rparr>\<rparr>, blit mem p seg) \<and>
    general_running f p (bs @ [b])
      (s\<lparr>gf_byteCounter := bc_reduce b (gf_byteCounter s), gf_byteAtOffsetCatcher := ?c\<lparr>offsetToByteMap := C\<rparr>\<rparr>) seg"
    using a r inv by (simp add: general_reduce_def general_running_def bc_reduce_histogram)
  then show "\<exists>s' seg'. general_reduce p f (of_nat (length ?d)) b (s, blit mem p seg) = Inr (s', blit mem p seg') \<and>
      length seg' = 263 \<and> general_running f p (bs @ [b]) s' seg'"
    using a(2) by blast
next
  fix f and p :: nat and bs s and seg mem :: "fl list"
  assume "general_running f p bs s seg" "length seg = 263" "fits p 263 mem" "length (concat bs) < 2 ^ 61"
  then show "\<exists>s'. general_finalize log2f p f (s, blit mem p seg) =
      Inr (s', blit mem p (general_vector log2f f (concat bs))) \<and> True"
    using general_finalize_ok [of f p bs s seg mem log2f] by (auto simp: fits_def)
qed (simp add: general_vector_def)

text \<open>
  C15. The general features are a function of the file alone, whatever the object held and however
  the file is cut into blocks: its size as a float, the entropy of its bytes, whether it is a PE
  file, its first four bytes (zero past its end) and, per byte value, its count over the size.
  Up to \<open>2 ^ 24\<close> bytes the size is exact; of an empty file every relative count is NaN.
\<close>

theorem general_features:
  assumes "pe_ok f" "fits p 263 mem" "length (concat bs) < 2 ^ 61"
  shows "map_res snd (ft_run general_reset general_start (general_finalize log2f) general_reduce p f bs (s, mem)) =
    Inr (blit mem p (
      [fl_of_nat f32 (length (concat bs)), general_entropy log2f (concat bs), flag (isPEFile f)] @
      map (\<lambda>i. fl_of_word f32 (byte_at (concat bs) i)) [0..<4] @
      map (\<lambda>c. fl_div f32 (fl_of_word f32 c) (fl_of_nat f32 (length (concat bs)))) (histogram (concat bs)))) \<and>
    (length (concat bs) \<le> 2 ^ 24 \<longrightarrow> fl_of_nat f32 (length (concat bs)) = Fin False (of_nat (length (concat bs)))) \<and>
    (concat bs = [] \<longrightarrow> drop 7 (general_vector log2f f (concat bs)) = replicate 256 NaN)"
proof -
  have "fl_of_nat f32 n = Fin False (of_nat n)" if "n \<le> 2 ^ 24" for n
  proof (cases "n = 2 ^ 24")
    case True
    have "round_mag f32 (p2 24) = p2 24" by (intro round_rep rep_mag_p2) simp_all
    then show ?thesis using p2_less_iff [of 24 128] by (simp add: True fl_of_nat_def fl_round_def p2_def [of 24])
  qed (use that in \<open>auto intro: fl_of_nat_exact\<close>)
  moreover have "concat bs = [] \<longrightarrow> drop 7 (general_vector log2f f (concat bs)) = replicate 256 NaN"
  proof
    assume e: "concat bs = []"
    show "drop 7 (general_vector log2f f (concat bs)) = replicate 256 NaN"
      using fl_of_nat_exact [of f32 0] unfolding e
      by (simp add: general_vector_def rounded_size_def histogram_def fl_of_word_def map_replicate_const comp_def
          del: upt_rec_numeral)
  qed
  ultimately show ?thesis
    using general.run_features [OF TrueI assms, of log2f s]
    by (auto simp: general_vector_def rounded_size_def)
qed

theorem general_features_witness:
  "map_res (drop 7 \<circ> snd) (ft_run general_reset general_start (general_finalize log2f_floor) general_reduce 0 (pe_file_init 0) []
     (\<lparr>gf_byteCounter = bc_new (replicate 256 7), gf_byteAtOffsetCatcher = bcat_new\<rparr>, replicate 263 fl_zero)) = Inr (replicate 256 NaN)"
proof -
  have "map_res (drop 7 \<circ> snd) r = map_res (drop 7) (map_res snd r)" for r :: "(general_file_info \<times> fl list) res"
    by (cases r) simp_all
  then show ?thesis
    using general_features [OF pe_ok_init, of 0 "replicate 263 fl_zero" "[]" log2f_floor 0] 
    by (simp add: fits_def general_vector_def rounded_size_def blit_def histogram_def del: upt_rec_numeral)
qed

end
