(* ===== verification/ByteEntropyHistogram.thy ===== *)
theory ByteEntropyHistogram
  imports FeatureType SlidingWindow Entropy Meth
begin

text \<open>
  \<open>core/src/f_byte_entropy_histogram.cpp\<close>: the joint histogram of the entropy of a sliding window
  and the high nibbles of its bytes. The window object calls back into the feature object; its
  callback therefore works on the pair of the other members and the feature vector.
\<close>

section \<open>The feature type\<close>

definition BYTE_ENTROPY_DIM :: nat where "BYTE_ENTROPY_DIM = 256"
definition WINDOW_SIZE :: size_t where "WINDOW_SIZE = 2048"
definition WINDOW_STEP :: size_t where "WINDOW_STEP = 1024"

record byte_entropy_members =
  be_byteCounter :: byte_counter
  be_temp :: bytes
  withCompleteWindowCalled :: bool
  outputBuffer :: nat

type_synonym be_context = "byte_entropy_members \<times> fl list"
type_synonym byte_entropy_histogram = "be_context sliding_byte_window \<times> byte_entropy_members"

definition byteentropy_getName :: bytes where "byteentropy_getName = lit ''byteentropy''"

definition byteentropy_getMaxDim :: size_t where "byteentropy_getMaxDim = of_nat BYTE_ENTROPY_DIM"

text \<open>The cast to \<open>int\<close> is defined for a value within its range.\<close>

definition clamp_bin :: "int \<Rightarrow> int" where
  "clamp_bin H_bin = (if H_bin < 0 then 0 else if 15 < H_bin then 15 else H_bin)"

definition writeEntropyBinCounts :: "(fl \<Rightarrow> fl) \<Rightarrow> nat \<Rightarrow> bytes \<Rightarrow> be_context \<Rightarrow> be_context res" where
  "writeEntropyBinCounts log2f out w st = (case st of (s, mem) \<Rightarrow>
     let temp = map (\<lambda>b. drop_bit 4 b) w;
         c = bc_finalize (bc_reduce temp (bc_start (bc_reset (be_byteCounter s))))
     in bnd (calculateShannonEntropy log2f (totalNumBytes c) (byteCounts c) 16) (\<lambda>e.
        let H = fl_mul f32 e (Fin False 2)
        in bnd (fl_trunc (- (2 ^ 31)) (2 ^ 31 - 1) (fl_mul f32 H (Fin False 2))) (\<lambda>H_bin.
           map_res (Pair (s\<lparr>be_byteCounter := c, be_temp := temp\<rparr>))
             (for_each [0..<16] (\<lambda>i mem. bnd (load (byteCounts c) i) (\<lambda>n.
                let q = out + nat (clamp_bin H_bin) * 16
                in bnd (load mem (q + i)) (\<lambda>v. store mem (q + i) (fl_add f32 v (fl_of_word f32 n))))) mem))))"

definition withCompleteWindow :: "(fl \<Rightarrow> fl) \<Rightarrow> bytes \<Rightarrow> be_context \<Rightarrow> be_context res" where
  "withCompleteWindow log2f w st = (case st of (s, mem) \<Rightarrow>
     writeEntropyBinCounts log2f (outputBuffer s) w (s\<lparr>withCompleteWindowCalled := True\<rparr>, mem))"

definition byteentropy_reset :: "(fl \<Rightarrow> fl) \<Rightarrow> nat \<Rightarrow> pe_file \<Rightarrow>
    byte_entropy_histogram \<times> fl list \<Rightarrow> (byte_entropy_histogram \<times> fl list) res" where
  "byteentropy_reset log2f p f st = (case st of ((w, s), mem) \<Rightarrow>
     Inr ((setCallback (Some (withCompleteWindow log2f)) (setStep WINDOW_STEP (setWindowSize WINDOW_SIZE (sbw_reset w))), s), mem))"

definition byteentropy_start :: "nat \<Rightarrow> pe_file \<Rightarrow>
    byte_entropy_histogram \<times> fl list \<Rightarrow> (byte_entropy_histogram \<times> fl list) res" where
  "byteentropy_start p f st = (case st of ((w, s), mem) \<Rightarrow>
     let s = s\<lparr>withCompleteWindowCalled := False, outputBuffer := p\<rparr>
     in bnd (memset0 (outputBuffer s) BYTE_ENTROPY_DIM mem) (\<lambda>mem. bnd (sbw_start w) (\<lambda>w. Inr ((w, s), mem))))"

definition byteentropy_reduce :: "nat \<Rightarrow> pe_file \<Rightarrow> size_t \<Rightarrow> bytes \<Rightarrow>
    byte_entropy_histogram \<times> fl list \<Rightarrow> (byte_entropy_histogram \<times> fl list) res" where
  "byteentropy_reduce p f bufOffset block' st = (case st of ((w, s), mem) \<Rightarrow>
     map_res (\<lambda>(w, s, mem). ((w, s), mem)) (sbw_reduce bufOffset block' (w, s, mem)))"

definition byteentropy_finalize :: "(fl \<Rightarrow> fl) \<Rightarrow> nat \<Rightarrow> pe_file \<Rightarrow>
    byte_entropy_histogram \<times> fl list \<Rightarrow> (byte_entropy_histogram \<times> fl list) res" where
  "byteentropy_finalize log2f p f st = (case st of ((w, s), mem) \<Rightarrow>
     bnd (sbw_finalize w (s, mem)) (\<lambda>(s, mem).
     bnd (if withCompleteWindowCalled s then Inr (s, mem)
          else writeEntropyBinCounts log2f (outputBuffer s) (getLastBlockAnyway w) (s, mem)) (\<lambda>(s, mem).
     bnd (load_list mem (outputBuffer s) BYTE_ENTROPY_DIM) (\<lambda>cells.
     let total = fl_to f32 (arraySum (fl_add f64) (fl_to f64) fl_zero cells)
     in if fl_eq total fl_zero then Inr ((w, s), mem)
        else map_res (Pair (w, s)) (for_each [0..<BYTE_ENTROPY_DIM] (\<lambda>i mem.
          bnd (load mem (outputBuffer s + i)) (\<lambda>v. store mem (outputBuffer s + i) (fl_div f32 v total))) mem)))))"

section \<open>One window\<close>

text \<open>The row a block is counted in, and its sixteen nibble counts.\<close>

definition nibble_counts :: "bytes \<Rightarrow> size_t list" where
  "nibble_counts b = take 16 (histogram (map (\<lambda>x. drop_bit 4 x) b))"

definition entropy_bin :: "(fl \<Rightarrow> fl) \<Rightarrow> bytes \<Rightarrow> nat" where
  "entropy_bin log2f b =
     (case fl_trunc (- (2 ^ 31)) (2 ^ 31 - 1)
        (fl_mul f32 (fl_mul f32 (entropy_value log2f (of_nat (length b)) (nibble_counts b)) (Fin False 2)) (Fin False 2)) of
        Inr i \<Rightarrow> nat (clamp_bin i) | Inl e \<Rightarrow> 0)"

definition add_block :: "(fl \<Rightarrow> fl) \<Rightarrow> feature_t list \<Rightarrow> bytes \<Rightarrow> feature_t list" where
  "add_block log2f v b = (let k = 16 * entropy_bin log2f b
     in blit v k (map (\<lambda>i. fl_add f32 (v ! (k + i)) (fl_of_word f32 (nibble_counts b ! i))) [0..<16]))"

lemma length_nibble_counts [simp]: "length (nibble_counts b) = 16"
  by (simp add: nibble_counts_def)

lemma nibble_counts_nth:
  "k < 16 \<Longrightarrow> nibble_counts b ! k = of_nat (count_list (map unat (map (\<lambda>x. drop_bit 4 x) b)) k)"
  by (simp add: nibble_counts_def histogram_def del: upt_rec_numeral)

lemma entropy_bin_less: "entropy_bin log2f b < 16"
  by (auto simp: entropy_bin_def clamp_bin_def split: sum.split)

lemma length_add_block [simp]: "length v = 256 \<Longrightarrow> length (add_block log2f v b) = 256"
  using entropy_bin_less [of log2f b] by (simp add: add_block_def Let_def)

text \<open>The bin of a block of the usual size never leaves the range of \<open>int\<close>.\<close>

lemma fl_double:
  assumes "0 \<le> q" "q \<le> p2 k" "0 \<le> k" "k < 100"
  shows "\<exists>r. fl_mul f32 (Fin False q) (Fin False 2) = Fin False r \<and> 0 \<le> r \<and> r \<le> p2 (k + 1)"
proof -
  have "q * 2 \<le> p2 (k + 1)" using assms(2) by (simp add: p2_Suc)
  then have "round_mag f32 (q * 2) \<le> p2 (k + 1)"
    using assms by (intro round_le_rep rep_mag_p2) simp_all
  moreover have "p2 (k + 1) < p2 128" using assms(4) by (simp add: p2_less_iff)
  ultimately show ?thesis using assms(1) by (auto simp: fl_round_def Let_def round_nonneg)
qed

lemma entropy_bin_defined:
  assumes "log2f_ok log2f" "length b < 2 ^ 64"
  shows "\<exists>i. fl_trunc (- (2 ^ 31)) (2 ^ 31 - 1)
    (fl_mul f32 (fl_mul f32 (entropy_value log2f (of_nat (length b)) (nibble_counts b)) (Fin False 2)) (Fin False 2)) = Inr i"
proof -
  have c: "unat x \<le> unat (of_nat (length b) :: size_t)" if x: "x \<in> set (nibble_counts b)" for x
  proof -
    obtain k where "x = of_nat (count_list (map unat (map (\<lambda>x. drop_bit 4 x) b)) k)"
      using x by (auto simp: nibble_counts_nth in_set_conv_nth)
    moreover have "count_list (map unat (map (\<lambda>x. drop_bit 4 x) b)) k \<le> length b"
      using count_le_length [of "map unat (map (\<lambda>x. drop_bit 4 x) b)" k] by simp
    ultimately show ?thesis using assms(2) by (simp add: unat_of_nat_small)
  qed
  have "\<exists>e. entropy_value log2f (of_nat (length b)) (nibble_counts b) = Fin False e \<and> 0 \<le> e \<and> e \<le> of_nat (0 + 64 * 16)"
    using entropy_loop_finite [OF assms(1), of "nibble_counts b" "of_nat (length b)" 0 0] frac_okI c
    by (auto simp: entropy_value_def fl_zero_def)
  then obtain e where e: "entropy_value log2f (of_nat (length b)) (nibble_counts b) = Fin False e" "0 \<le> e" "e \<le> p2 10"
    by (auto simp: p2_def)
  obtain r where r: "fl_mul f32 (Fin False e) (Fin False 2) = Fin False r" "0 \<le> r" "r \<le> p2 (10 + 1)"
    using fl_double [OF e(2,3)] by auto
  obtain q where q: "fl_mul f32 (Fin False r) (Fin False 2) = Fin False q" "0 \<le> q" "q \<le> p2 (10 + 1 + 1)"
    using fl_double [OF r(2,3)] by auto
  have "\<lfloor>q\<rfloor> \<le> 4096" using q(3) by (simp add: p2_def floor_le_iff)
  moreover have "0 \<le> \<lfloor>q\<rfloor>" using q(2) by simp
  ultimately show ?thesis by (simp only: e(1) r(1) q(1) fl_trunc.simps Let_def) simp
qed

text \<open>A loop that replaces consecutive cells by a function of their old values.\<close>

lemma update_loop:
  fixes g :: "nat \<Rightarrow> 'a \<Rightarrow> 'a"
  assumes "q + n \<le> length mem"
  shows "for_each [0..<n] (\<lambda>i mem. bnd (load mem (q + i)) (\<lambda>v. store mem (q + i) (g i v))) mem =
    Inr (blit mem q (map (\<lambda>i. g i (mem ! (q + i))) [0..<n]))"
  using assms
proof (induction n)
  case (Suc n)
  let ?L = "map (\<lambda>i. g i (mem ! (q + i))) [0..<n]" and ?x = "g n (mem ! (q + n))"
  have "(blit mem q ?L)[q + n := ?x] = blit mem q (?L @ [?x])"
    using Suc.prems by (auto intro!: nth_equalityI simp: nth_blit nth_list_update nth_append)
  then show ?case
    using Suc by (simp add: for_each_append load_def store_def nth_blit)
qed simp

lemma update_loop_segment:
  fixes g :: "nat \<Rightarrow> 'a \<Rightarrow> 'a"
  assumes "j + n \<le> length v" "p + length v \<le> length mem"
  shows "for_each [0..<n] (\<lambda>i mem. bnd (load mem (p + j + i)) (\<lambda>v. store mem (p + j + i) (g i v))) (blit mem p v) =
    Inr (blit mem p (blit v j (map (\<lambda>i. g i (v ! (j + i))) [0..<n])))"
proof -
  have m: "map (\<lambda>i. g i (blit mem p v ! (p + j + i))) [0..<n] = map (\<lambda>i. g i (v ! (j + i))) [0..<n]"
    using assms by (auto simp: nth_blit)
  have q: "p + j + n \<le> length (blit mem p v)" using assms by simp
  show ?thesis using assms unfolding update_loop [OF q] m by (simp add: blit_blit_sub del: map_eq_conv)
qed

lemma writeEntropyBinCounts_add:
  assumes "log2f_ok log2f" "length b < 2 ^ 64" "length v = 256" "p + 256 \<le> length mem"
  shows "\<exists>s'. writeEntropyBinCounts log2f p b (s, blit mem p v) = Inr (s', blit mem p (add_block log2f v b)) \<and>
    outputBuffer s' = outputBuffer s \<and> withCompleteWindowCalled s' = withCompleteWindowCalled s"
proof -
  let ?c = "\<lparr>totalNumBytes = of_nat (length b), byteCounts = histogram (map (\<lambda>x. drop_bit 4 x) b)\<rparr>"
  let ?k = "entropy_bin log2f b"
  obtain i where i: "fl_trunc (- (2 ^ 31)) (2 ^ 31 - 1)
      (fl_mul f32 (fl_mul f32 (entropy_value log2f (of_nat (length b)) (nibble_counts b)) (Fin False 2)) (Fin False 2)) = Inr i"
    using entropy_bin_defined [OF assms(1,2)] by blast
  have k: "nat (clamp_bin i) = ?k" by (simp only: entropy_bin_def i sum.case)
  have c: "bc_reduce (map (\<lambda>x. drop_bit 4 x) b) (bc_start (bc_reset s')) = ?c" for s'
    by (simp add: bc_run)
  have e: "calculateShannonEntropy log2f (of_nat (length b)) (histogram (map (\<lambda>x. drop_bit 4 x) b)) 16 =
      Inr (entropy_value log2f (of_nat (length b)) (nibble_counts b))"
    by (simp add: calculateShannonEntropy_value nibble_counts_def)
  have "for_each [0..<16] (\<lambda>i mem. bnd (load (histogram (map (\<lambda>x. drop_bit 4 x) b)) i) (\<lambda>n.
          bnd (load mem (p + ?k * 16 + i)) (\<lambda>v. store mem (p + ?k * 16 + i) (fl_add f32 v (fl_of_word f32 n))))) (blit mem p v) =
      for_each [0..<16] (\<lambda>i mem. bnd (load mem (p + ?k * 16 + i)) (\<lambda>v. store mem (p + ?k * 16 + i)
          (fl_add f32 v (fl_of_word f32 (nibble_counts b ! i))))) (blit mem p v)"
    by (rule for_each_cong) (simp add: load_def nibble_counts_def)
  also have "\<dots> = Inr (blit mem p (add_block log2f v b))"
    using entropy_bin_less [of log2f b] assms(3,4)
    by (subst update_loop_segment) (simp_all add: add_block_def Let_def mult.commute)
  finally show ?thesis
    by (simp add: writeEntropyBinCounts_def Let_def bc_finalize_def c e i [simplified] k)
qed

section \<open>The windows of a file\<close>

definition be_config :: "(fl \<Rightarrow> fl) \<Rightarrow> be_context sliding_byte_window \<Rightarrow> bool" where
  "be_config log2f w \<longleftrightarrow> callback w = Some (withCompleteWindow log2f) \<and> windowSize w = 2048 \<and> step w = 1024"

definition be_raw :: "(fl \<Rightarrow> fl) \<Rightarrow> bytes list \<Rightarrow> feature_t list" where
  "be_raw log2f ws = foldl (add_block log2f) (replicate 256 fl_zero) ws"

lemma length_be_raw [simp]: "length (be_raw log2f ws) = 256"
  unfolding be_raw_def by (rule foldl_append_invariant) simp_all

lemma calls_add_blocks:
  assumes "log2f_ok log2f" "be_config log2f w" "p + 256 \<le> length mem"
    "\<forall>b \<in> set ws. length b < 2 ^ 64" "length v = 256" "outputBuffer s = p"
  shows "\<exists>s'. calls (the_callback w) ws (s, blit mem p v) = Inr (s', blit mem p (foldl (add_block log2f) v ws)) \<and>
    outputBuffer s' = p \<and> (withCompleteWindowCalled s' \<longleftrightarrow> withCompleteWindowCalled s \<or> ws \<noteq> [])"
  using assms(4-)
proof (induction ws arbitrary: s v)
  case (Cons b ws)
  let ?s = "s\<lparr>withCompleteWindowCalled := True\<rparr>"
  obtain s1 where s1: "writeEntropyBinCounts log2f p b (?s, blit mem p v) = Inr (s1, blit mem p (add_block log2f v b))"
    "outputBuffer s1 = outputBuffer ?s" "withCompleteWindowCalled s1 = withCompleteWindowCalled ?s"
    using writeEntropyBinCounts_add [OF assms(1), of b v p mem ?s] Cons.prems(1,2) assms(3) by auto
  have "the_callback w b (s, blit mem p v) = Inr (s1, blit mem p (add_block log2f v b))"
    using assms(2) Cons.prems(3) s1(1)
    by (simp add: the_callback_def callTheCallback_def be_config_def withCompleteWindow_def)
  then show ?case using Cons.IH [of "add_block log2f v b" s1] Cons.prems s1 by auto
qed simp

text \<open>The blocks that are counted: the windows, or the whole file when none fits.\<close>

definition be_blocks :: "bytes \<Rightarrow> bytes list" where
  "be_blocks d = (let ws = windows 2048 1024 d in if ws = [] then [d] else ws)"

definition be_vector :: "(fl \<Rightarrow> fl) \<Rightarrow> bytes \<Rightarrow> feature_t list" where
  "be_vector log2f d = (let v = be_raw log2f (be_blocks d);
       total = fl_to f32 (arraySum (fl_add f64) (fl_to f64) fl_zero v)
     in if fl_eq total fl_zero then v else map (\<lambda>x. fl_div f32 x total) v)"

definition be_running :: "(fl \<Rightarrow> fl) \<Rightarrow> pe_file \<Rightarrow> nat \<Rightarrow> bytes list \<Rightarrow> byte_entropy_histogram \<Rightarrow> fl list \<Rightarrow> bool" where
  "be_running log2f f p bs st seg \<longleftrightarrow> (case st of (w, s) \<Rightarrow>
     log2f_ok log2f \<and> be_config log2f w \<and> block w = snd (slide 2048 1024 (concat bs)) \<and> outputBuffer s = p \<and>
     (withCompleteWindowCalled s \<longleftrightarrow> fst (slide 2048 1024 (concat bs)) \<noteq> []) \<and>
     seg = be_raw log2f (fst (slide 2048 1024 (concat bs))))"

lemma slide_length: "b \<in> set (fst (slide w st xs)) \<Longrightarrow> length b = w"
proof (induction w st xs rule: slide.induct)
  case (1 w st xs)
  show ?case
  proof (cases "st = 0 \<or> length xs \<le> w")
    case True
    then show ?thesis using 1(2) by (subst (asm) slide.simps) auto
  next
    case False
    then show ?thesis using 1 by (auto simp: slide_step)
  qed
qed

lemma be_config_inv:
  "be_config log2f w \<Longrightarrow> length (block w) \<le> 2048 \<Longrightarrow> sbw_inv (w, c)"
  by (simp add: be_config_def sbw_inv_def)

lemma be_reduce_ok:
  assumes run: "be_running log2f f p bs (w, s) seg" and m: "p + 256 \<le> length mem"
    and len: "length (concat bs) + length b < 2 ^ 61"
  shows "\<exists>w' s' seg'. byteentropy_reduce p f off b ((w, s), blit mem p seg) = Inr ((w', s'), blit mem p seg') \<and>
    length seg' = 256 \<and> be_running log2f f p (bs @ [b]) (w', s') seg'"
proof -
  let ?d = "concat bs"
  let ?r = "snd (slide 2048 1024 ?d)"
  have w: "log2f_ok log2f" "be_config log2f w" "block w = ?r" and sg: "length seg = 256"
    and c: "windowSize w = 2048" "step w = 1024"
    using run by (simp_all add: be_running_def be_config_def)
  have inv: "sbw_inv (w, c)" for c
    using w slide_rest [of 1024 2048 ?d] by (intro be_config_inv) simp_all
  have app: "slide 2048 1024 (?d @ b) = (fst (slide 2048 1024 ?d) @ fst (slide 2048 1024 (?r @ b)), snd (slide 2048 1024 (?r @ b)))"
    by (rule slide_append) simp_all
  obtain s' where s': "calls (the_callback w) (fst (slide 2048 1024 (?r @ b))) (s, blit mem p seg) =
      Inr (s', blit mem p (foldl (add_block log2f) seg (fst (slide 2048 1024 (?r @ b)))))" "outputBuffer s' = p"
    "withCompleteWindowCalled s' \<longleftrightarrow> withCompleteWindowCalled s \<or> fst (slide 2048 1024 (?r @ b)) \<noteq> []"
    using calls_add_blocks [OF w(1,2) m, of "fst (slide 2048 1024 (?r @ b))" seg s] run sg
    by (auto simp: be_running_def slide_length)
  have "byteentropy_reduce p f off b ((w, s), blit mem p seg) =
      Inr ((w\<lparr>block := snd (slide 2048 1024 (?r @ b))\<rparr>, s'), blit mem p (foldl (add_block log2f) seg (fst (slide 2048 1024 (?r @ b)))))"
    using len by (simp add: byteentropy_reduce_def sbw_reduce_slide [OF inv] c w(3) s'(1))
  moreover have "be_running log2f f p (bs @ [b]) (w\<lparr>block := snd (slide 2048 1024 (?r @ b))\<rparr>, s')
      (foldl (add_block log2f) seg (fst (slide 2048 1024 (?r @ b))))"
    using run s'(2,3) app by (simp add: be_running_def be_config_def be_raw_def)
  moreover have "length (foldl (add_block log2f) seg (fst (slide 2048 1024 (?r @ b)))) = 256"
    using run length_be_raw [of log2f "fst (slide 2048 1024 ?d) @ fst (slide 2048 1024 (?r @ b))"]
    by (simp add: be_running_def be_raw_def)
  ultimately show ?thesis by (intro exI conjI) assumption+
qed

lemma slide_none: "fst (slide w st xs) = [] \<Longrightarrow> snd (slide w st xs) = xs"
  by (subst (asm) slide.simps, subst slide.simps) (auto split: if_splits prod.splits)

lemma be_finalize_ok:
  assumes run: "be_running log2f f p bs (w, s) seg" and m: "p + 256 \<le> length mem"
    and len: "length (concat bs) < 2 ^ 61"
  shows "\<exists>w' s'. byteentropy_finalize log2f p f ((w, s), blit mem p seg) =
    Inr ((w', s'), blit mem p (be_vector log2f (concat bs)))"
proof -
  let ?d = "concat bs"
  let ?ws = "windows 2048 1024 ?d" and ?r = "snd (slide 2048 1024 ?d)"
  have w: "log2f_ok log2f" "be_config log2f w" "block w = ?r" and sg: "length seg = 256" "outputBuffer s = p"
    and c: "windowSize w = 2048" "step w = 1024"
    using run by (simp_all add: be_running_def be_config_def)
  have ws: "?ws = fst (slide 2048 1024 ?d) @ (if length ?r = 2048 then [?r] else [])"
    by (rule slide_windows) simp_all
  have "sbw_inv (w, c)" for c
    using w slide_rest [of 1024 2048 ?d] by (intro be_config_inv) simp_all
  then have "sbw_finalize w (s, blit mem p seg) =
      calls (the_callback w) (if length ?r = 2048 then [?r] else []) (s, blit mem p seg)"
    using sbw_finalize_call [of w "(s, blit mem p seg)"] by (simp add: c w(3))
  moreover obtain s1 where "calls (the_callback w) (if length ?r = 2048 then [?r] else []) (s, blit mem p seg) =
      Inr (s1, blit mem p (foldl (add_block log2f) seg (if length ?r = 2048 then [?r] else [])))"
    "outputBuffer s1 = p" "withCompleteWindowCalled s1 \<longleftrightarrow> withCompleteWindowCalled s \<or> length ?r = 2048"
    using calls_add_blocks [OF w(1,2) m, of "if length ?r = 2048 then [?r] else []" seg s] sg
    by (auto split: if_splits)
  moreover have "foldl (add_block log2f) seg (if length ?r = 2048 then [?r] else []) = be_raw log2f ?ws"
    using run by (simp add: be_running_def be_raw_def ws)
  moreover have "withCompleteWindowCalled s \<or> length ?r = 2048 \<longleftrightarrow> ?ws \<noteq> []"
    using run by (simp add: be_running_def ws)
  ultimately have fin: "sbw_finalize w (s, blit mem p seg) = Inr (s1, blit mem p (be_raw log2f ?ws))"
    and s1: "outputBuffer s1 = p" "withCompleteWindowCalled s1 \<longleftrightarrow> ?ws \<noteq> []" by simp_all
  obtain s2 where last: "(if withCompleteWindowCalled s1 then Inr (s1, blit mem p (be_raw log2f ?ws))
      else writeEntropyBinCounts log2f (outputBuffer s1) (getLastBlockAnyway w) (s1, blit mem p (be_raw log2f ?ws))) =
      Inr (s2, blit mem p (be_raw log2f (be_blocks ?d)))" "outputBuffer s2 = p"
  proof (cases "?ws = []")
    case True
    then have "?r = ?d" using ws by (intro slide_none) simp
    moreover obtain s2 where "writeEntropyBinCounts log2f p ?d (s1, blit mem p (be_raw log2f ?ws)) =
        Inr (s2, blit mem p (add_block log2f (be_raw log2f ?ws) ?d))" "outputBuffer s2 = outputBuffer s1"
      using writeEntropyBinCounts_add [OF w(1), of ?d "be_raw log2f ?ws" p mem s1] len m by auto
    ultimately show ?thesis using that [of s2] True s1
      by (simp add: getLastBlockAnyway_def w(3) be_blocks_def be_raw_def)
  next
    case False
    then show ?thesis using that [of s1] s1 by (simp add: be_blocks_def Let_def)
  qed
  let ?v = "be_raw log2f (be_blocks ?d)"
  let ?t = "fl_to f32 (arraySum (fl_add f64) (fl_to f64) fl_zero ?v)"
  have ll: "load_list (blit mem p ?v) p 256 = Inr ?v" using m by (simp add: load_list_blit)
  have norm: "for_each [0..<256] (\<lambda>i mem. bnd (load mem (p + i)) (\<lambda>v. store mem (p + i) (fl_div f32 v ?t))) (blit mem p ?v) =
      Inr (blit mem p (map (\<lambda>x. fl_div f32 x ?t) ?v))"
  proof -
    have "blit ?v 0 (map (\<lambda>i. fl_div f32 (?v ! (0 + i)) ?t) [0..<256]) = map (\<lambda>x. fl_div f32 x ?t) ?v"
      by (rule nth_equalityI) (simp_all add: nth_blit del: upt_rec_numeral)
    then show ?thesis using update_loop_segment [of 0 256 ?v p mem "\<lambda>i x. fl_div f32 x ?t"] m
      by (simp del: upt_rec_numeral)
  qed
  show ?thesis
    by (auto simp: byteentropy_finalize_def fin last ll norm BYTE_ENTROPY_DIM_def be_vector_def Let_def
        simp del: upt_rec_numeral)
qed

interpretation byteentropy: feature_type 256 "byteentropy_reset log2f" byteentropy_start "byteentropy_finalize log2f"
  byteentropy_reduce "\<lambda>_. log2f_ok log2f" "\<lambda>(w, s). log2f_ok log2f \<and> be_config log2f w"
  "be_running log2f" "\<lambda>f bs. be_vector log2f (concat bs)"
proof
  fix s :: byte_entropy_histogram and p :: nat and f and mem :: "fl list"
  assume "log2f_ok log2f"
  then show "\<exists>s'. byteentropy_reset log2f p f (s, mem) = Inr (s', mem) \<and>
      (case s' of (w, s) \<Rightarrow> log2f_ok log2f \<and> be_config log2f w)"
    by (cases s) (simp add: byteentropy_reset_def be_config_def setCallback_def setStep_def setWindowSize_def
        sbw_reset_def WINDOW_SIZE_def WINDOW_STEP_def)
next
  fix s :: byte_entropy_histogram and p :: nat and f and mem :: "fl list"
  assume a: "case s of (w, s) \<Rightarrow> log2f_ok log2f \<and> be_config log2f w" "fits p 256 mem"
  obtain w t where s: "s = (w, t)" by (cases s)
  have "sbw_start w = Inr (w\<lparr>block := []\<rparr>)" using a(1) by (simp add: s sbw_start_def be_config_def)
  then have "byteentropy_start p f (s, mem) =
      Inr ((w\<lparr>block := []\<rparr>, t\<lparr>withCompleteWindowCalled := False, outputBuffer := p\<rparr>), blit mem p (replicate 256 fl_zero))"
    using a(2) by (simp add: s byteentropy_start_def BYTE_ENTROPY_DIM_def memset0_fits Let_def)
  moreover have "be_running log2f f p [] (w\<lparr>block := []\<rparr>, t\<lparr>withCompleteWindowCalled := False, outputBuffer := p\<rparr>)
      (replicate 256 fl_zero)"
    using a(1) by (simp add: s be_running_def be_config_def slide_short be_raw_def)
  ultimately show "\<exists>s' seg. byteentropy_start p f (s, mem) = Inr (s', blit mem p seg) \<and> length seg = 256 \<and>
      be_running log2f f p [] s' seg" by (intro exI conjI) (assumption | simp)+
next
  fix f and p :: nat and bs and s :: byte_entropy_histogram and seg mem :: "fl list" and b :: bytes
  assume "be_running log2f f p bs s seg" "fits p 256 mem" "length (concat bs) + length b < 2 ^ 61"
  then show "\<exists>s' seg'. byteentropy_reduce p f (of_nat (length (concat bs))) b (s, blit mem p seg) =
      Inr (s', blit mem p seg') \<and> length seg' = 256 \<and> be_running log2f f p (bs @ [b]) s' seg'"
    using be_reduce_ok [of log2f f p bs "fst s" "snd s" seg mem b "of_nat (length (concat bs))"] by (auto simp: fits_def)
next
  fix f and p :: nat and bs and s :: byte_entropy_histogram and seg mem :: "fl list"
  assume "be_running log2f f p bs s seg" "fits p 256 mem" "length (concat bs) < 2 ^ 61"
  then show "\<exists>s'. byteentropy_finalize log2f p f (s, blit mem p seg) =
      Inr (s', blit mem p (be_vector log2f (concat bs))) \<and> log2f_ok log2f"
    using be_finalize_ok [of log2f f p bs "fst s" "snd s" seg mem]
    by (cases s) (auto simp: fits_def be_running_def)
qed (simp add: be_vector_def Let_def)

section \<open>Exact counts\<close>

text \<open>How many bytes with high nibble \<open>k mod 16\<close> the blocks of entropy bin \<open>k div 16\<close> hold.\<close>

definition be_count :: "(fl \<Rightarrow> fl) \<Rightarrow> bytes list \<Rightarrow> nat \<Rightarrow> nat" where
  "be_count log2f ws k =
     sum_list (map (\<lambda>b. if entropy_bin log2f b = k div 16
       then length (filter (\<lambda>x. unat (drop_bit 4 x) = k mod 16) b) else 0) ws)"

lemma be_count_snoc:
  "be_count log2f (ws @ [b]) k = be_count log2f ws k +
     (if entropy_bin log2f b = k div 16 then length (filter (\<lambda>x. unat (drop_bit 4 x) = k mod 16) b) else 0)"
  by (simp add: be_count_def)

lemma be_count_le: "be_count log2f ws k \<le> sum_list (map length ws)"
  unfolding be_count_def by (intro sum_list_mono) simp

lemma nibble_counts_length:
  "k < 16 \<Longrightarrow> nibble_counts b ! k = of_nat (length (filter (\<lambda>x. unat (drop_bit 4 x) = k) b))"
  by (simp add: nibble_counts_nth count_list_eq_length_filter filter_map o_def eq_commute)

lemma be_raw_exact:
  assumes "sum_list (map length ws) < 2 ^ 24" "k < 256"
  shows "be_raw log2f ws ! k = Fin False (of_nat (be_count log2f ws k))"
  using assms
proof (induction ws arbitrary: k rule: rev_induct)
  case Nil
  then show ?case by (simp add: be_raw_def be_count_def fl_zero_def)
next
  case (snoc b ws)
  let ?n = "length (filter (\<lambda>x. unat (drop_bit 4 x) = k mod 16) b)" and ?e = "entropy_bin log2f b"
  have ih: "be_raw log2f ws ! k = Fin False (of_nat (be_count log2f ws k))" using snoc by simp
  have raw: "be_raw log2f (ws @ [b]) = add_block log2f (be_raw log2f ws) b" by (simp add: be_raw_def)
  have n: "?n \<le> length b" by simp
  have l: "sum_list (map length ws) + length b < 2 ^ 24" using snoc.prems(1) by simp
  show ?case
  proof (cases "?e = k div 16")
    case True
    then have k: "16 * ?e \<le> k" "k < 16 * ?e + 16" "k - 16 * ?e = k mod 16" "16 * ?e + k mod 16 = k"
      by (auto simp: minus_mult_div_eq_mod)
    have b24: "be_count log2f ws k + ?n < 2 ^ 24" "?n < 2 ^ 24"
      using l n be_count_le [of log2f ws k] by linarith+
    then have "fl_of_word f32 (nibble_counts b ! (k mod 16)) = Fin False (of_nat ?n)"
      by (simp add: nibble_counts_length fl_of_word_def unat_of_nat_small fl_of_nat_exact)
    moreover have "add_block log2f (be_raw log2f ws) b ! k =
        fl_add f32 (be_raw log2f ws ! k) (fl_of_word f32 (nibble_counts b ! (k mod 16)))"
      using entropy_bin_less [of log2f b] snoc.prems(2) k
      by (simp add: add_block_def Let_def nth_blit del: upt_rec_numeral)
    moreover have "fl_add f32 (Fin False (of_nat (be_count log2f ws k))) (Fin False (of_nat ?n)) =
        Fin False (of_nat (be_count log2f ws k + ?n))"
      using b24(1) by (intro fl_add_nat_exact) simp_all
    ultimately show ?thesis
      using True by (simp only: raw ih be_count_snoc refl if_True)
  next
    case False
    then have "\<not> (16 * ?e \<le> k \<and> k < 16 * ?e + 16)" by auto
    then have "add_block log2f (be_raw log2f ws) b ! k = be_raw log2f ws ! k"
      using entropy_bin_less [of log2f b] snoc.prems(2) by (auto simp: add_block_def Let_def nth_blit)
    then show ?thesis using False by (simp add: raw ih be_count_snoc)
  qed
qed

lemma sum_nibbles: "(\<Sum>j < 16. length (filter (\<lambda>x. unat (drop_bit 4 (x :: u8)) = j) b)) = length b"
proof (induction b)
  case (Cons x b)
  have "unat (drop_bit 4 x) < 16"
  proof -
    have "unat (drop_bit 4 x) = unat x div 16"
      using unat_u8_less [of x] by (simp only: unsigned_drop_bit_eq) (simp add: drop_bit_eq_div take_bit_nat_eq_self)
    then show ?thesis using unat_u8_less [of x] by linarith
  qed
  then have "(\<Sum>j < 16. if unat (drop_bit 4 x) = j then 1 else 0 :: nat) = 1" by simp
  moreover have "length (filter (\<lambda>x. unat (drop_bit 4 x) = j) (x # b)) =
      length (filter (\<lambda>x. unat (drop_bit 4 x) = j) b) + (if unat (drop_bit 4 x) = j then 1 else 0)" for j by simp
  ultimately show ?case using Cons by (simp only: sum.distrib list.size)
qed simp

lemma be_count_total: "sum_list (map (be_count log2f ws) [0..<256]) = sum_list (map length ws)"
proof -
  have row: "(\<Sum>k < 256. if e = k div 16 then f (k mod 16) else 0) = (\<Sum>j < 16. f j)" if "e < 16" for e and f :: "nat \<Rightarrow> nat"
  proof -
    have "(\<Sum>k < 256. if e = k div 16 then f (k mod 16) else 0) = (\<Sum>k \<in> {k. k < 256 \<and> e = k div 16}. f (k mod 16))"
      by (subst sum.inter_filter [symmetric]) (simp_all add: lessThan_def Collect_conj_eq Int_commute)
    also have "{k. k < 256 \<and> e = k div 16} = (\<lambda>j. 16 * e + j) ` {..<16}"
    proof -
      have "k \<in> (\<lambda>j. 16 * e + j) ` {..<16}" if "e = k div 16" for k
        using that by (intro image_eqI [of _ _ "k mod 16"]) simp_all
      then show ?thesis using \<open>e < 16\<close> by auto
    qed
    also have "(\<Sum>k \<in> (\<lambda>j. 16 * e + j) ` {..<16}. f (k mod 16)) = (\<Sum>j < 16. f j)"
      by (subst sum.reindex) (auto simp: inj_on_def)
    finally show ?thesis .
  qed
  have "sum_list (map (be_count log2f ws) [0..<256]) = (\<Sum>k < 256. be_count log2f ws k)"
    by (simp add: interv_sum_list_conv_sum_set_nat atLeast0LessThan del: upt_rec_numeral)
  also have "\<dots> = sum_list (map length ws)"
  proof (induction ws rule: rev_induct)
    case (snoc b ws)
    then show ?case
      using row [OF entropy_bin_less, of log2f b "\<lambda>j. length (filter (\<lambda>x. unat (drop_bit 4 x) = j) b)"]
      by (simp add: be_count_snoc sum.distrib sum_nibbles)
  qed (simp add: be_count_def)
  finally show ?thesis .
qed

lemma arraySum_exact:
  "m + sum_list ns < 2 ^ 53 \<Longrightarrow>
   arraySum (fl_add f64) (fl_to f64) (Fin False (of_nat m)) (map (\<lambda>n. Fin False (of_nat n)) ns) =
     Fin False (of_nat (m + sum_list ns))"
proof (induction ns arbitrary: m)
  case (Cons n ns)
  have "fl_to f64 (Fin False (of_nat n)) = Fin False (of_nat n)"
    using fl_of_nat_exact [of f64 n] Cons.prems by (simp add: fl_of_nat_def)
  moreover have "fl_add f64 (Fin False (of_nat m)) (Fin False (of_nat n)) = Fin False (of_nat (m + n))"
    using Cons.prems by (intro fl_add_nat_exact) simp_all
  ultimately show ?case using Cons.IH [of "m + n"] Cons.prems by (simp add: add.assoc)
qed simp

lemma be_blocks_total:
  assumes "length d \<le> 2 ^ 23"
  shows "sum_list (map length (be_blocks d)) < 2 ^ 24 \<and> (sum_list (map length (be_blocks d)) = 0 \<longleftrightarrow> d = [])"
proof (cases "length d < 2048")
  case False
  let ?n = "Suc ((length d - 2048) div 1024)"
  have ws: "windows 2048 1024 d = map (\<lambda>i. take 2048 (drop (i * 1024) d)) [0..<?n]"
    using False windows_nth [of 1024 2048 d] by (simp del: upt_Suc)
  have len: "length (take 2048 (drop (i * 1024) d)) = 2048" if "i < ?n" for i
  proof -
    have "i * 1024 \<le> (length d - 2048) div 1024 * 1024" using that by (intro mult_right_mono) simp_all
    then have "i * 1024 \<le> length d - 2048" by (meson div_times_less_eq_dividend order_trans)
    then show ?thesis using False by simp
  qed
  have "sum_list (map length (windows 2048 1024 d)) = sum_list (map (\<lambda>i. 2048) [0..<?n])"
    unfolding ws map_map comp_def by (intro arg_cong [of _ _ sum_list] map_cong refl len) (simp del: upt_Suc)
  then have "sum_list (map length (windows 2048 1024 d)) = 2048 * ?n" by (simp add: sum_list_triv del: upt_Suc)
  moreover have "2048 * ?n = 2 * ((length d - 2048) div 1024 * 1024) + 2048" by simp
  moreover have "(length d - 2048) div 1024 * 1024 \<le> length d - 2048" by simp
  moreover have "be_blocks d = windows 2048 1024 d" by (simp add: be_blocks_def Let_def ws del: upt_Suc)
  ultimately show ?thesis using assms False by auto
qed (simp add: be_blocks_def windows_short)

text \<open>
  C9. The byte-entropy features of a file of up to eight megabytes are exact, however it is cut
  into blocks and whatever the object held. The counted blocks are the windows of 2048 bytes at
  the multiples of 1024 or, of a file shorter than a window, the file itself; cell \<open>16 e + j\<close> is
  the number of bytes with high nibble \<open>j\<close> in the blocks whose entropy falls in bin \<open>e\<close>, over the
  number of bytes counted, which the 256 counts add up to. An empty file gives zeros.
\<close>

theorem byte_entropy_features:
  assumes "log2f_ok log2f" "pe_ok f" "fits p 256 mem" "length (concat bs) \<le> 2 ^ 23"
  shows "map_res snd (ft_run (byteentropy_reset log2f) byteentropy_start (byteentropy_finalize log2f) byteentropy_reduce
      p f bs (s, mem)) =
    Inr (blit mem p (map (\<lambda>k. if concat bs = [] then fl_zero
      else fl_div f32 (Fin False (of_nat (be_count log2f (be_blocks (concat bs)) k)))
             (Fin False (of_nat (sum_list (map length (be_blocks (concat bs))))))) [0..<256])) \<and>
    sum_list (map (be_count log2f (be_blocks (concat bs))) [0..<256]) = sum_list (map length (be_blocks (concat bs)))"
proof -
  let ?d = "concat bs"
  let ?ws = "be_blocks ?d"
  let ?T = "sum_list (map length ?ws)"
  have T: "?T < 2 ^ 24" "?T = 0 \<longleftrightarrow> ?d = []" using be_blocks_total [OF assms(4)] by blast+
  have raw: "be_raw log2f ?ws = map (\<lambda>n. Fin False (of_nat n)) (map (be_count log2f ?ws) [0..<256])"
    by (rule nth_equalityI) (simp_all add: be_raw_exact [OF T(1)] del: upt_rec_numeral)
  have tot: "fl_to f32 (arraySum (fl_add f64) (fl_to f64) fl_zero (be_raw log2f ?ws)) = Fin False (of_nat ?T)"
  proof -
    have "arraySum (fl_add f64) (fl_to f64) (Fin False (of_nat 0)) (be_raw log2f ?ws) = Fin False (of_nat (0 + ?T))"
      using arraySum_exact [of 0 "map (be_count log2f ?ws) [0..<256]"] T(1) be_count_total [of log2f ?ws]
      unfolding raw by (simp del: upt_rec_numeral map_map)
    then show ?thesis using fl_of_nat_exact [of f32 ?T] T(1) by (simp add: fl_zero_def fl_of_nat_def)
  qed
  have z: "be_count log2f ?ws k = 0" if "?d = []" for k
    using be_count_le [of log2f ?ws k] T(2) that by (metis le_zero_eq)
  have "be_vector log2f ?d = map (\<lambda>k. if ?d = [] then fl_zero
      else fl_div f32 (Fin False (of_nat (be_count log2f ?ws k))) (Fin False (of_nat ?T))) [0..<256]"
  proof (cases "?d = []")
    case True
    then have "?T = 0" using T(2) by blast
    then have "(of_nat ?T :: rat) = 0" by (simp only: of_nat_0)
    then have "fl_to f32 (arraySum (fl_add f64) (fl_to f64) fl_zero (be_raw log2f ?ws)) = Fin False 0"
      unfolding tot by (simp only:)
    then have "be_vector log2f ?d = be_raw log2f ?ws" by (simp add: be_vector_def fl_zero_def)
    then show ?thesis unfolding raw map_map using z [OF True] True
      by (simp add: o_def fl_zero_def del: upt_rec_numeral concat_eq_Nil_conv)
  next
    case False
    then have "?T \<noteq> 0" using T(2) by blast
    then have "\<not> fl_eq (Fin False (of_nat ?T)) fl_zero" by (simp only: fl_zero_def fl_eq.simps signed_def) simp
    then have "be_vector log2f ?d = map (\<lambda>x. fl_div f32 x (Fin False (of_nat ?T))) (be_raw log2f ?ws)"
      by (simp only: be_vector_def Let_def tot if_False)
    then show ?thesis by (simp only: raw map_map comp_def False if_False)
  qed
  then show ?thesis
    using byteentropy.run_features [OF assms(1-3), of bs s] assms(4) be_count_total [of log2f ?ws] by auto
qed

text \<open>A file shorter than a window is counted whole.\<close>

theorem byte_entropy_features_witness:
  "\<forall>s. sum_list (map (be_count log2f_floor (be_blocks [65, 65, 65])) [0..<256]) = 3 \<and>
    (\<exists>v. map_res snd (ft_run (byteentropy_reset log2f_floor) byteentropy_start (byteentropy_finalize log2f_floor)
      byteentropy_reduce 0 (pe_file_init 3) [[65, 65], [65]] (s, replicate 256 NaN)) = Inr v \<and> length v = 256)"
proof
  fix s
  have "be_blocks [65, 65, 65] = [[65, 65, 65]]" by (simp add: be_blocks_def windows_short)
  then show "sum_list (map (be_count log2f_floor (be_blocks [65, 65, 65])) [0..<256]) = 3 \<and>
    (\<exists>v. map_res snd (ft_run (byteentropy_reset log2f_floor) byteentropy_start (byteentropy_finalize log2f_floor)
      byteentropy_reduce 0 (pe_file_init 3) [[65, 65], [65]] (s, replicate 256 NaN)) = Inr v \<and> length v = 256)"
    using byte_entropy_features [OF log2f_floor_ok pe_ok_init, of 0 "replicate 256 NaN" "[[65, 65], [65]]" 3 s]
    by (simp add: fits_def del: upt_rec_numeral)
qed

end
