(* ===== verification/StringExtractor.thy ===== *)
theory StringExtractor
  imports FeatureType Entropy Meth
begin

text \<open>
  \<open>core/src/f_string_extractor.cpp\<close>: the readable strings of the file and which of them match the
  interesting patterns. The regular expressions are run by the RE2 library: \<open>findAndConsume\<close> is
  \<open>FindAndConsume\<close> with the first expression (the match and the input left), \<open>matches\<close> is
  \<open>PartialMatch\<close>; \<open>find_ok\<close> states what RE2 documents of a leftmost-longest search.
\<close>

section \<open>The regular expressions\<close>

text \<open>A pattern and whether it ignores case; \<open>%\<close> stands for a backslash and \<open>^\<close> for an apostrophe.\<close>

type_synonym regex = "bytes \<times> bool"

definition pattern :: "string \<Rightarrow> bytes" where
  "pattern = map (\<lambda>c. if c = CHR ''%'' then 0x5C else if c = CHR ''^'' then 0x27 else of_char c)"

abbreviation IGNORECASE :: "string \<Rightarrow> regex" where "IGNORECASE s \<equiv> (pattern s, True)"
abbreviation regex :: "string \<Rightarrow> regex" where "regex s \<equiv> (pattern s, False)"

definition interesting_regexes :: "regex list" where
  "interesting_regexes =
    [IGNORECASE ''.click'', regex ''/EmbeddedFile'', regex ''/FlateDecode'', regex ''/URI'', regex ''/bin/'',
     regex ''/dev/'', regex ''/proc/'', regex ''/tmp/'', regex ''/usr/'', IGNORECASE ''<script'',
     regex ''Invoke-Command'', regex ''Invoke-Expression'', regex ''Start-process'', IGNORECASE ''base64'',
     regex ''ABCDEFGHIJKLMNOPQRSTUVWXYZabcdefghijklmnopqrstuvwxyz0123456789+/'',
     regex ''[13][a-km-zA-HJ-NP-Z1-9]{25,34}'', IGNORECASE ''cache'', IGNORECASE ''certificate'',
     IGNORECASE ''clipboard'', IGNORECASE ''command'', IGNORECASE ''connect'', IGNORECASE ''cookie'',
     IGNORECASE ''create'', regex ''crypt'', IGNORECASE ''debug'', IGNORECASE ''decode'', IGNORECASE ''delete'',
     IGNORECASE ''desktop'', IGNORECASE ''directory'', IGNORECASE ''disk'', regex ''!This program '',
     IGNORECASE ''download'', regex ''%b(?:[0-9A-Fa-f]{2}[:-]){5}(?:[0-9A-Fa-f]{2})%b'', IGNORECASE ''encode'',
     IGNORECASE ''enum'', IGNORECASE ''environment'', IGNORECASE ''exit'', IGNORECASE ''file'', regex ''%bC:/'',
     IGNORECASE ''ftp:'', IGNORECASE ''GET /'', IGNORECASE ''hidden'', IGNORECASE ''hostname'', IGNORECASE ''html'',
     IGNORECASE ''HTTP/'', IGNORECASE ''http://'', IGNORECASE ''https://'', IGNORECASE ''install'',
     IGNORECASE ''internet'',
     regex ''%b(?:(?:25[0-5]|2[0-4][0-9]|[01]?[0-9][0-9]?)%.){3}(?:25[0-5]|2[0-4][0-9]|[01]?[0-9][0-9]?)%b'',
     regex ''%b(?:[A-Fa-f0-9]{1,4}:){7}[A-Fa-f0-9]{1,4}%b|%b(?:[A-Fa-f0-9]{1,4}:){1,7}:%b|%b:[A-Fa-f0-9]{1,4}(?::[A-Fa-f0-9]{1,4}){1,6}%b'',
     IGNORECASE ''javascript'', IGNORECASE ''keyboard'', regex ''%b(?:[0-9A-Fa-f]{2}[:-]){5}(?:[0-9A-Fa-f]{2})%b'',
     IGNORECASE ''memory'', IGNORECASE ''module'', IGNORECASE ''mutex'', IGNORECASE ''onclick'',
     IGNORECASE ''password'', IGNORECASE ''POST /'', IGNORECASE ''powershell'', IGNORECASE ''privilege'',
     IGNORECASE ''process'', regex ''%b(?:KHEY_|KHLM|HKCU)'', IGNORECASE ''remote'', IGNORECASE ''resource'',
     IGNORECASE ''security'', IGNORECASE ''service'', IGNORECASE ''shell'', IGNORECASE ''snapshot'',
     IGNORECASE ''system'', IGNORECASE ''thread'', IGNORECASE ''token'',
     regex ''%b(?:http|https|ftp):%/%/[a-zA-Z0-9-._~:?#[%]@!$&^()*+,;=]+'', IGNORECASE ''User-Agent'',
     IGNORECASE ''wallet'', IGNORECASE ''window'']"

lemma length_interesting_regexes [simp]: "length interesting_regexes = 77"
  by (simp add: interesting_regexes_def)

section \<open>The feature type\<close>

record string_extractor =
  interestingStringRegexes :: "regex list"
  NUM_INTERESTING_STRING_REGEXES :: size_t
  sumReadableStringLengths :: fl
  numReadableStrings :: size_t
  readableByteCounter :: byte_counter
  interestingStringCounter :: byte_counter

text \<open>The constructor; the counters and the two sums hold what the memory held.\<close>

definition string_extractor_new :: "fl \<Rightarrow> size_t \<Rightarrow> size_t list \<Rightarrow> size_t list \<Rightarrow> string_extractor" where
  "string_extractor_new d n junk1 junk2 =
     \<lparr>interestingStringRegexes = interesting_regexes,
      NUM_INTERESTING_STRING_REGEXES = of_nat (length interesting_regexes),
      sumReadableStringLengths = d, numReadableStrings = n,
      readableByteCounter = bc_new junk1, interestingStringCounter = bc_new junk2\<rparr>"

definition strings_getName :: bytes where "strings_getName = lit ''strings''"

definition strings_reset :: "nat \<Rightarrow> pe_file \<Rightarrow> string_extractor \<times> fl list \<Rightarrow> (string_extractor \<times> fl list) res" where
  "strings_reset p f st = (case st of (s, mem) \<Rightarrow>
     Inr (s\<lparr>sumReadableStringLengths := fl_zero, numReadableStrings := 0,
            readableByteCounter := bc_reset (readableByteCounter s),
            interestingStringCounter := bc_reset (interestingStringCounter s)\<rparr>, mem))"

definition strings_start :: "nat \<Rightarrow> pe_file \<Rightarrow> string_extractor \<times> fl list \<Rightarrow> (string_extractor \<times> fl list) res" where
  "strings_start p f st = (case st of (s, mem) \<Rightarrow>
     Inr (s\<lparr>readableByteCounter := bc_start (readableByteCounter s),
            interestingStringCounter := bc_start (interestingStringCounter s)\<rparr>, mem))"

text \<open>The body of the loop for one match; the index of a pattern is counted as a byte.\<close>

definition count_string :: "(regex \<Rightarrow> bytes \<Rightarrow> bool) \<Rightarrow> bytes \<Rightarrow> string_extractor \<Rightarrow> string_extractor res" where
  "count_string matches m s =
     (let s = s\<lparr>sumReadableStringLengths := fl_add f64 (sumReadableStringLengths s) (fl_of_nat f64 (length m)),
                numReadableStrings := numReadableStrings s + 1,
                readableByteCounter := bc_reduce m (readableByteCounter s)\<rparr>
      in for_each [0..<unat (NUM_INTERESTING_STRING_REGEXES s)] (\<lambda>i s.
           bnd (load (interestingStringRegexes s) i) (\<lambda>r.
             Inr (if matches r m
                  then s\<lparr>interestingStringCounter := bc_reduce [of_nat i] (interestingStringCounter s)\<rparr>
                  else s))) s)"

partial_function (option) strings_loop ::
  "(bytes \<Rightarrow> (bytes \<times> bytes) option) \<Rightarrow> (regex \<Rightarrow> bytes \<Rightarrow> bool) \<Rightarrow> bytes \<Rightarrow> string_extractor \<Rightarrow>
   string_extractor res option" where
  [code]: "strings_loop findAndConsume matches input s =
     (case findAndConsume input of
        None \<Rightarrow> Some (Inr s)
      | Some (m, rest) \<Rightarrow>
          (case count_string matches m s of Inl e \<Rightarrow> Some (Inl e) | Inr s' \<Rightarrow> strings_loop findAndConsume matches rest s'))"

definition strings_reduce ::
  "(bytes \<Rightarrow> (bytes \<times> bytes) option) \<Rightarrow> (regex \<Rightarrow> bytes \<Rightarrow> bool) \<Rightarrow>
   nat \<Rightarrow> pe_file \<Rightarrow> size_t \<Rightarrow> bytes \<Rightarrow> string_extractor \<times> fl list \<Rightarrow> (string_extractor \<times> fl list) res" where
  "strings_reduce findAndConsume matches p f bufOffset block' st = (case st of (s, mem) \<Rightarrow>
     map_res (\<lambda>s. (s, mem)) (returned (strings_loop findAndConsume matches block' s)))"

text \<open>\<open>arrayCopy\<close> to a pointer into the vector.\<close>

definition copy_to :: "('a \<Rightarrow> fl) \<Rightarrow> nat \<Rightarrow> 'a list \<Rightarrow> fl list \<Rightarrow> fl list res" where
  "copy_to cast q src mem = map_res ((@) (take q mem)) (arrayCopy cast (drop q mem) src)"

definition FIRST_READABLE_BYTE :: nat where "FIRST_READABLE_BYTE = 0x20"
definition LAST_READABLE_BYTE :: nat where "LAST_READABLE_BYTE = 0x7f"

definition readableHistogramSize :: nat where
  "readableHistogramSize = LAST_READABLE_BYTE + 1 - FIRST_READABLE_BYTE"

definition strings_finalize ::
  "(fl \<Rightarrow> fl) \<Rightarrow> nat \<Rightarrow> pe_file \<Rightarrow> string_extractor \<times> fl list \<Rightarrow> (string_extractor \<times> fl list) res" where
  "strings_finalize log2f p f st = (case st of (s, mem) \<Rightarrow>
     let s = s\<lparr>readableByteCounter := bc_finalize (readableByteCounter s),
               interestingStringCounter := bc_finalize (interestingStringCounter s)\<rparr>;
         n = numReadableStrings s;
         totalNumReadableBytes = totalNumBytes (readableByteCounter s);
         invTotal = fl_to f32 (if totalNumReadableBytes = 0 then fl_one
                               else fl_div f64 fl_one (fl_of_word f64 totalNumReadableBytes))
     in bnd (store mem p (fl_of_word f32 n)) (\<lambda>mem.
        bnd (store mem (p + 1) (fl_to f32 (if n = 0 then fl_zero
               else fl_div f64 (sumReadableStringLengths s) (fl_of_word f64 n)))) (\<lambda>mem.
        bnd (store mem (p + 2) (fl_of_word f32 totalNumReadableBytes)) (\<lambda>mem.
        bnd (load_list (byteCounts (readableByteCounter s)) FIRST_READABLE_BYTE readableHistogramSize) (\<lambda>readableHistogram.
        bnd (copy_to (fl_of_word f32) (p + 3) readableHistogram mem) (\<lambda>mem.
        bnd (load_list mem (p + 3) readableHistogramSize) (\<lambda>xs.
        bnd (store_list mem (p + 3) (arrayMul (fl_mul f32) invTotal xs)) (\<lambda>mem.
        bnd (calculateShannonEntropy log2f totalNumReadableBytes readableHistogram readableHistogramSize) (\<lambda>e.
        bnd (store mem (p + 3 + readableHistogramSize) e) (\<lambda>mem.
        bnd (load_list (byteCounts (interestingStringCounter s)) 0 (unat (NUM_INTERESTING_STRING_REGEXES s))) (\<lambda>counts.
          map_res (Pair s) (copy_to (fl_of_word f32) (p + 3 + readableHistogramSize + 1) counts mem))))))))))))"

definition strings_getMaxDim :: "string_extractor \<Rightarrow> size_t" where
  "strings_getMaxDim s = 3 + 96 + 1 + NUM_INTERESTING_STRING_REGEXES s"

section \<open>The search RE2 documents\<close>

definition readable :: "u8 \<Rightarrow> bool" where
  "readable b \<longleftrightarrow> 0x20 \<le> b \<and> b \<le> 0x7f"

definition readable_match :: "bytes \<Rightarrow> bool" where
  "readable_match m \<longleftrightarrow> 5 \<le> length m \<and> (\<forall>b \<in> set m. readable b)"

text \<open>The leftmost match and, of those that start there, the longest.\<close>

definition search_result :: "bytes \<Rightarrow> (bytes \<times> bytes) option \<Rightarrow> bool" where
  "search_result inp r \<longleftrightarrow> (case r of
     None \<Rightarrow> \<forall>pre m rest. inp = pre @ m @ rest \<longrightarrow> \<not> readable_match m
   | Some (m, rest) \<Rightarrow> readable_match m \<and> (\<exists>pre. inp = pre @ m @ rest \<and>
       (\<forall>pre' m' rest'. inp = pre' @ m' @ rest' \<longrightarrow> readable_match m' \<longrightarrow>
          length pre \<le> length pre' \<and> (length pre' = length pre \<longrightarrow> length m' \<le> length m))))"

definition find_ok :: "(bytes \<Rightarrow> (bytes \<times> bytes) option) \<Rightarrow> bool" where
  "find_ok findAndConsume \<longleftrightarrow> (\<forall>inp. search_result inp (findAndConsume inp))"

text \<open>A search that meets it.\<close>

fun find_readable :: "bytes \<Rightarrow> (bytes \<times> bytes) option" where
  "find_readable [] = None"
| "find_readable (x # xs) =
     (if 5 \<le> length (takeWhile readable (x # xs))
      then Some (takeWhile readable (x # xs), dropWhile readable (x # xs)) else find_readable xs)"

lemma readable_match_prefix:
  "x = m @ rest \<Longrightarrow> readable_match m \<Longrightarrow> length m \<le> length (takeWhile readable x) \<and> 5 \<le> length (takeWhile readable x)"
  by (auto simp: readable_match_def)

lemma find_readable_result: "search_result inp (find_readable inp)"
proof (induction inp)
  case Nil
  then show ?case by (auto simp: search_result_def readable_match_def)
next
  case (Cons x xs)
  let ?t = "takeWhile readable (x # xs)"
  show ?case
  proof (cases "5 \<le> length ?t")
    case True
    have "readable_match ?t" using True by (auto simp: readable_match_def dest: set_takeWhileD split: if_splits)
    moreover have "x # xs = [] @ ?t @ dropWhile readable (x # xs)" by simp
    moreover have "length m \<le> length ?t" if "x # xs = m @ rest" "readable_match m" for m rest
      using readable_match_prefix [OF that] by simp
    ultimately show ?thesis
      unfolding search_result_def find_readable.simps if_P [OF True] option.case prod.case
      by (intro conjI exI [of _ "[]"]) auto
  next
    case False
    have shift: "\<exists>pre'. pre = x # pre' \<and> xs = pre' @ m @ rest" if "x # xs = pre @ m @ rest" "readable_match m" for pre m rest
      using that False readable_match_prefix [of "x # xs" m rest] by (cases pre) auto
    show ?thesis
    proof (cases "find_readable xs")
      case None
      then have "\<not> readable_match m" if "xs = pre @ m @ rest" for pre m rest
        using Cons that by (simp add: search_result_def) blast
      then have "\<not> readable_match m" if "x # xs = pre @ m @ rest" for pre m rest
        using shift [OF that] by blast
      moreover have "find_readable (x # xs) = None" using None False by simp
      ultimately show ?thesis by (simp only: search_result_def option.case) blast
    next
      case (Some r)
      obtain m rest where r: "r = (m, rest)" by (cases r)
      obtain pre where m: "readable_match m" "xs = pre @ m @ rest"
        "\<And>pre' m' rest'. xs = pre' @ m' @ rest' \<Longrightarrow> readable_match m' \<Longrightarrow>
          length pre \<le> length pre' \<and> (length pre' = length pre \<longrightarrow> length m' \<le> length m)"
        using Cons Some by (auto simp: search_result_def r)
      have "length (x # pre) \<le> length pre' \<and> (length pre' = length (x # pre) \<longrightarrow> length m' \<le> length m)"
        if "x # xs = pre' @ m' @ rest'" "readable_match m'" for pre' m' rest'
        using shift [OF that] m(3) that(2) by fastforce
      then show ?thesis
        using False Some m(1,2) by (auto simp: search_result_def r intro!: exI [of _ "x # pre"])
    qed
  qed
qed

lemma search_result_unique:
  assumes "search_result inp r" "search_result inp r'"
  shows "r = r'"
proof (cases r)
  case None
  then show ?thesis using assms by (cases r') (auto simp: search_result_def)
next
  case (Some x)
  obtain m rest where x: "x = (m, rest)" by (cases x)
  obtain m' rest' where r': "r' = Some (m', rest')"
    using assms Some x by (cases r') (auto simp: search_result_def)
  obtain pre where m: "readable_match m" "inp = pre @ m @ rest"
    "\<forall>q n t. inp = q @ n @ t \<longrightarrow> readable_match n \<longrightarrow> length pre \<le> length q \<and> (length q = length pre \<longrightarrow> length n \<le> length m)"
    using assms(1) by (auto simp: search_result_def Some x)
  obtain pre' where m': "readable_match m'" "inp = pre' @ m' @ rest'"
    "\<forall>q n t. inp = q @ n @ t \<longrightarrow> readable_match n \<longrightarrow> length pre' \<le> length q \<and> (length q = length pre' \<longrightarrow> length n \<le> length m')"
    using assms(2) by (auto simp: search_result_def r')
  have a: "length pre \<le> length pre' \<and> (length pre' = length pre \<longrightarrow> length m' \<le> length m)"
    using m(3) [rule_format, OF m'(2,1)] .
  moreover have b: "length pre' \<le> length pre \<and> (length pre = length pre' \<longrightarrow> length m \<le> length m')"
    using m'(3) [rule_format, OF m(2,1)] .
  ultimately have "length pre = length pre'" "length m = length m'" by auto
  then show ?thesis using m(2) m'(2) by (simp add: Some x r')
qed

lemma find_readable_ok: "find_ok find_readable"
  by (simp add: find_ok_def find_readable_result)

lemma find_ok_readable: "find_ok findAndConsume \<Longrightarrow> findAndConsume = find_readable"
  by (rule ext) (auto simp: find_ok_def intro: search_result_unique find_readable_result)

section \<open>The readable strings of a block\<close>

text \<open>The maximal runs of readable bytes that are at least five long.\<close>

function readable_strings :: "bytes \<Rightarrow> bytes list" where
  "readable_strings [] = []"
| "readable_strings (x # xs) =
     (if readable x
      then (if 5 \<le> length (takeWhile readable (x # xs)) then [takeWhile readable (x # xs)] else []) @
           readable_strings (dropWhile readable xs)
      else readable_strings xs)"
  by pat_completeness auto
termination
  by (relation "measure length") (auto simp: less_Suc_eq_le length_dropWhile_le)

declare readable_strings.simps [simp del]

lemma readable_strings_find:
  "readable_strings inp =
     (case find_readable inp of None \<Rightarrow> [] | Some (m, rest) \<Rightarrow> m # readable_strings rest)"
proof (induction inp)
  case Nil
  then show ?case by (simp add: readable_strings.simps)
next
  case (Cons x xs)
  have skip: "readable_strings (dropWhile readable xs) = readable_strings xs" if "length (takeWhile readable xs) < 5"
    using that by (cases xs) (auto simp: readable_strings.simps)
  show ?case
    using Cons skip by (auto simp: readable_strings.simps(2) split: if_splits)
qed

lemma find_readable_shorter: "find_readable inp = Some (m, rest) \<Longrightarrow> length m + length rest \<le> length inp \<and> 5 \<le> length m"
proof (induction inp)
  case (Cons x xs)
  have "length (takeWhile readable xs) + length (dropWhile readable xs) = length xs"
    by (metis length_append takeWhile_dropWhile_id)
  then show ?case using Cons by (auto split: if_splits)
qed simp

lemma readable_strings_length: "length (concat (readable_strings inp)) \<le> length inp"
proof (induction inp rule: length_induct)
  case (1 inp)
  show ?case
  proof (cases "find_readable inp")
    case (Some r)
    obtain m rest where r: "r = (m, rest)" by (cases r)
    have "length m + length rest \<le> length inp" "5 \<le> length m" using find_readable_shorter Some r by blast+
    then show ?thesis using 1 [rule_format, of rest] Some r by (subst readable_strings_find) simp
  qed (subst readable_strings_find, simp)
qed

lemma readable_strings_count: "5 * length (readable_strings inp) \<le> length (concat (readable_strings inp))"
proof (induction inp rule: length_induct)
  case (1 inp)
  show ?case
  proof (cases "find_readable inp")
    case (Some r)
    obtain m rest where r: "r = (m, rest)" by (cases r)
    have "length m + length rest \<le> length inp" "5 \<le> length m" using find_readable_shorter Some r by blast+
    then show ?thesis using 1 [rule_format, of rest] Some r by (subst (1 2) readable_strings_find) simp
  qed (subst (1 2) readable_strings_find, simp)
qed

section \<open>What the object holds\<close>

text \<open>The patterns that match, string by string, in the order in which they are counted.\<close>

definition matched :: "(regex \<Rightarrow> bytes \<Rightarrow> bool) \<Rightarrow> bytes \<Rightarrow> bytes" where
  "matched matches m = map of_nat (filter (\<lambda>i. matches (interesting_regexes ! i) m) [0..<77])"

definition total_length :: "bytes list \<Rightarrow> fl" where
  "total_length S = foldl (\<lambda>d m. fl_add f64 d (fl_of_nat f64 (length m))) fl_zero S"

definition strings_held :: "(regex \<Rightarrow> bytes \<Rightarrow> bool) \<Rightarrow> bytes list \<Rightarrow> string_extractor \<Rightarrow> bool" where
  "strings_held matches S s \<longleftrightarrow>
     interestingStringRegexes s = interesting_regexes \<and> NUM_INTERESTING_STRING_REGEXES s = 77 \<and>
     sumReadableStringLengths s = total_length S \<and> numReadableStrings s = of_nat (length S) \<and>
     readableByteCounter s = \<lparr>totalNumBytes = of_nat (length (concat S)), byteCounts = histogram (concat S)\<rparr> \<and>
     interestingStringCounter s = \<lparr>totalNumBytes = of_nat (length (concat (map (matched matches) S))),
       byteCounts = histogram (concat (map (matched matches) S))\<rparr>"

lemma count_string_held:
  assumes "strings_held matches S s"
  shows "\<exists>s'. count_string matches m s = Inr s' \<and> strings_held matches (S @ [m]) s'"
proof -
  let ?s = "s\<lparr>sumReadableStringLengths := fl_add f64 (sumReadableStringLengths s) (fl_of_nat f64 (length m)),
      numReadableStrings := numReadableStrings s + 1, readableByteCounter := bc_reduce m (readableByteCounter s)\<rparr>"
  let ?body = "\<lambda>i s. bnd (load (interestingStringRegexes s) i) (\<lambda>r. Inr (if matches r m
      then s\<lparr>interestingStringCounter := bc_reduce [of_nat i] (interestingStringCounter s)\<rparr> else s))"
  let ?J = "concat (map (matched matches) S)"
  let ?held = "\<lambda>n. map of_nat (filter (\<lambda>i. matches (interesting_regexes ! i) m) [0..<n]) :: bytes"
  have "for_each [0..<n] ?body ?s = Inr (?s\<lparr>interestingStringCounter :=
      \<lparr>totalNumBytes = of_nat (length (?J @ ?held n)), byteCounts = histogram (?J @ ?held n)\<rparr>\<rparr>)" if "n \<le> 77" for n
    using that
  proof (induction n)
    case 0
    then show ?case using assms by (simp add: strings_held_def)
  next
    case (Suc n)
    then show ?case
      using assms bc_reduce_histogram [of "[of_nat n]" "?J @ ?held n"]
      by (simp add: for_each_append load_def strings_held_def)
  qed
  from this [of 77] show ?thesis
    using assms bc_reduce_histogram [of m "concat S"]
    by (simp add: count_string_def Let_def strings_held_def total_length_def matched_def del: upt_rec_numeral)
qed

lemma strings_loop_held:
  assumes "find_ok findAndConsume" "strings_held matches S s"
  shows "\<exists>s'. strings_loop findAndConsume matches inp s = Some (Inr s') \<and> strings_held matches (S @ readable_strings inp) s'"
  using assms(2)
proof (induction inp arbitrary: S s rule: length_induct)
  case (1 inp)
  have f: "findAndConsume = find_readable" by (rule find_ok_readable [OF assms(1)])
  show ?case
  proof (cases "find_readable inp")
    case None
    then show ?thesis using 1(2)
      by (subst strings_loop.simps, subst readable_strings_find) (simp add: f)
  next
    case (Some r)
    obtain m rest where r: "r = (m, rest)" by (cases r)
    have "length rest < length inp" using find_readable_shorter [of inp m rest] Some r by simp
    moreover obtain s1 where s1: "count_string matches m s = Inr s1" "strings_held matches (S @ [m]) s1"
      using count_string_held [OF 1(2)] by blast
    ultimately obtain s' where "strings_loop findAndConsume matches rest s1 = Some (Inr s')"
      "strings_held matches ((S @ [m]) @ readable_strings rest) s'"
      using 1(1) by blast
    then show ?thesis
      by (subst strings_loop.simps, subst readable_strings_find) (simp add: f Some r s1(1))
  qed
qed

section \<open>The features\<close>

definition strings_inv_total :: "nat \<Rightarrow> feature_t" where
  "strings_inv_total n = fl_to f32 (if n = 0 then fl_one else fl_div f64 fl_one (fl_of_nat f64 n))"

definition printable_counts :: "bytes \<Rightarrow> size_t list" where
  "printable_counts d = map (\<lambda>j. of_nat (count_list (map unat d) (32 + j))) [0..<96]"

definition strings_vector :: "(fl \<Rightarrow> fl) \<Rightarrow> (regex \<Rightarrow> bytes \<Rightarrow> bool) \<Rightarrow> bytes list \<Rightarrow> feature_t list" where
  "strings_vector log2f matches S =
     [fl_of_nat f32 (length S),
      fl_to f32 (if S = [] then fl_zero else fl_div f64 (total_length S) (fl_of_nat f64 (length S))),
      fl_of_nat f32 (length (concat S))] @
     map (\<lambda>c. fl_mul f32 (fl_of_word f32 c) (strings_inv_total (length (concat S)))) (printable_counts (concat S)) @
     [entropy_value log2f (of_nat (length (concat S))) (printable_counts (concat S))] @
     map (\<lambda>i. fl_of_nat f32 (length (filter (matches (interesting_regexes ! i)) S))) [0..<77]"

lemma copy_to_segment:
  "j + length src \<le> length vs \<Longrightarrow> p + length vs \<le> length xs \<Longrightarrow>
   copy_to cast (p + j) src (blit xs p vs) = Inr (blit xs p (blit vs j (map cast src)))"
proof -
  assume a: "j + length src \<le> length vs" "p + length vs \<le> length xs"
  have "copy_to cast q src ms = store_list ms q (map cast src)" if "q \<le> length ms" for q and ms :: "fl list"
    using that by (auto simp: copy_to_def arrayCopy_def store_list_def blit_def add.commute)
  then show ?thesis using a by (simp add: store_list_blit)
qed

lemma count_list_matched:
  assumes "i < 77"
  shows "count_list (map unat (concat (map (matched matches) S))) i =
    length (filter (matches (interesting_regexes ! i)) S)"
proof (induction S)
  case (Cons m S)
  have u: "unat (of_nat j :: u8) = j" if "j < 77" for j using that by (intro unat_of_nat_small) simp
  have "map unat (matched matches m) = filter (\<lambda>i. matches (interesting_regexes ! i) m) [0..<77]"
    unfolding matched_def map_map by (rule map_idI) (simp add: u)
  moreover have "count_list (filter P [0..<n]) i = (if i < n \<and> P i then 1 else 0)" for P n
    by (induction n) (auto simp: less_Suc_eq)
  ultimately show ?case using Cons assms by (simp del: upt_rec_numeral)
qed simp

lemma load_list_segment:
  "j + n \<le> length vs \<Longrightarrow> p + length vs \<le> length xs \<Longrightarrow>
   load_list (blit xs p vs) (p + j) n = Inr (take n (drop j vs))"
  by (simp add: load_list_def blit_def)

lemma strings_finalize_ok:
  assumes held: "strings_held matches S s" and sg: "length seg = 177" "p + 177 \<le> length mem"
    and len: "length S \<le> length (concat S)" "length (concat S) < 2 ^ 61"
  shows "\<exists>s'. strings_finalize log2f p f (s, blit mem p seg) = Inr (s', blit mem p (strings_vector log2f matches S)) \<and>
    interestingStringRegexes s' = interesting_regexes \<and> NUM_INTERESTING_STRING_REGEXES s' = 77"
proof -
  let ?d = "concat S" and ?J = "concat (map (matched matches) S)"
  let ?h = "map (fl_of_word f32) (printable_counts ?d)"
  let ?h' = "map (\<lambda>c. fl_mul f32 (fl_of_word f32 c) (strings_inv_total (length ?d))) (printable_counts ?d)"
  let ?c = "map (\<lambda>i. fl_of_nat f32 (length (filter (matches (interesting_regexes ! i)) S))) [0..<77]"
  define a b n e where "a = fl_of_nat f32 (length S)"
    and "b = fl_to f32 (if S = [] then fl_zero else fl_div f64 (total_length S) (fl_of_nat f64 (length S)))"
    and "n = fl_of_nat f32 (length ?d)" and "e = entropy_value log2f (of_nat (length ?d)) (printable_counts ?d)"
  have u: "unat (of_nat (length S) :: size_t) = length S" "unat (of_nat (length ?d) :: size_t) = length ?d"
    using len by (auto intro!: unat_of_nat_small)
  have z: "(of_nat (length S) :: size_t) = 0 \<longleftrightarrow> S = []" "(of_nat (length ?d) :: size_t) = 0 \<longleftrightarrow> length ?d = 0"
    by (simp_all only: unat_eq_0 [symmetric] u length_0_conv)
  obtain x y w h v t where seg: "seg = x # y # w # h @ v # t" "length h = 96" "length t = 77"
  proof -
    let ?g = "take 3 seg" and ?h = "take 96 (drop 3 seg)" and ?v = "take 1 (drop 96 (drop 3 seg))"
      and ?t = "drop 1 (drop 96 (drop 3 seg))"
    have "seg = ?g @ ?h @ ?v @ ?t" by (simp only: append_take_drop_id)
    moreover obtain x y w where "?g = [x, y, w]"
      using sg(1) length_Suc_conv [of ?g 2] by (auto simp: length_Suc_conv numeral_2_eq_2)
    moreover obtain v where "?v = [v]" using sg(1) length_Suc_conv [of ?v 0] by auto
    moreover have "length ?h = 96" "length ?t = 77" using sg(1) by simp_all
    ultimately show ?thesis using that [of x y w ?h v ?t] by simp
  qed
  have pc: "take 96 (drop 32 (histogram ?d)) = printable_counts ?d" "length (printable_counts ?d) = 96"
    by (auto simp: histogram_def printable_counts_def drop_map take_map intro!: nth_equalityI simp del: upt_rec_numeral)
  have ic: "map (fl_of_word f32) (take 77 (histogram ?J)) = ?c"
  proof (rule nth_equalityI)
    fix i assume i: "i < length (map (fl_of_word f32) (take 77 (histogram ?J)))"
    have "length (filter (matches (interesting_regexes ! i)) S) < 2 ^ 64"
      using len by (intro le_less_trans [OF length_filter_le]) simp
    then show "map (fl_of_word f32) (take 77 (histogram ?J)) ! i = ?c ! i"
      using i by (simp add: histogram_def count_list_matched fl_of_word_def unat_of_nat_small del: upt_rec_numeral)
  qed simp
  let ?V = "\<lambda>h v t. a # b # n # h @ v # t"
  have l: "length ?h = 96" "length ?h' = 96" "length ?c = 77" using pc(2) by simp_all
  have V: "p + length (?V h v t) \<le> length mem" if "length h = 96" "length t = 77" for h v t
    using that sg(2) by simp
  have same: "s\<lparr>readableByteCounter := bc_finalize (readableByteCounter s),
      interestingStringCounter := bc_finalize (interestingStringCounter s)\<rparr> = s"
    by (simp add: bc_finalize_def)
  have held': "interestingStringRegexes s = interesting_regexes" "unat (NUM_INTERESTING_STRING_REGEXES s) = 77"
    "NUM_INTERESTING_STRING_REGEXES s = 77"
    "sumReadableStringLengths s = total_length S" "numReadableStrings s = of_nat (length S)"
    "totalNumBytes (readableByteCounter s) = of_nat (length ?d)"
    "byteCounts (readableByteCounter s) = histogram ?d" "byteCounts (interestingStringCounter s) = histogram ?J"
    using held by (simp_all add: strings_held_def)
  have w: "fl_of_word f32 (of_nat (length S) :: size_t) = a" "fl_of_word f32 (of_nat (length ?d) :: size_t) = n"
    "fl_to f32 (if (of_nat (length S) :: size_t) = 0 then fl_zero
       else fl_div f64 (total_length S) (fl_of_word f64 (of_nat (length S) :: size_t))) = b"
    "fl_to f32 (if (of_nat (length ?d) :: size_t) = 0 then fl_one
       else fl_div f64 fl_one (fl_of_word f64 (of_nat (length ?d) :: size_t))) = strings_inv_total (length ?d)"
    by (simp_all only: a_def n_def b_def fl_of_word_def u z strings_inv_total_def)
  have s1: "store (blit mem p seg) p a = Inr (blit mem p (a # y # w # h @ v # t))"
    using store_blit [of 0 seg p mem a] sg by (simp add: seg(1))
  have s2: "store (blit mem p (a # y # w # h @ v # t)) (p + 1) b = Inr (blit mem p (a # b # w # h @ v # t))"
    using store_blit [of 1 "a # y # w # h @ v # t" p mem b] V [OF seg(2,3)] by simp
  have s3: "store (blit mem p (a # b # w # h @ v # t)) (p + 2) n = Inr (blit mem p (?V h v t))"
    using store_blit [of 2 "a # b # w # h @ v # t" p mem n] V [OF seg(2,3)] by simp
  have l1: "load_list (histogram ?d) 32 96 = Inr (printable_counts ?d)" by (simp add: load_list_def pc(1))
  have c1: "copy_to (fl_of_word f32) (p + 3) (printable_counts ?d) (blit mem p (?V h v t)) = Inr (blit mem p (?V ?h v t))"
    using copy_to_segment [of 3 "printable_counts ?d" "?V h v t" p mem "fl_of_word f32"] V [OF seg(2,3)] seg(2) pc(2)
    by (simp add: blit_def)
  have l2: "load_list (blit mem p (?V ?h v t)) (p + 3) 96 = Inr ?h"
    using load_list_segment [of 3 96 "?V ?h v t" p mem] V [OF l(1) seg(3)] l(1) by simp
  have s4: "store_list (blit mem p (?V ?h v t)) (p + 3) (arrayMul (fl_mul f32) (strings_inv_total (length ?d)) ?h) =
      Inr (blit mem p (?V ?h' v t))"
    using store_list_blit [of 3 ?h' "?V ?h v t" p mem] V [OF l(1) seg(3)] l(1,2) pc(2)
    by (simp add: arrayMul_map o_def blit_def)
  have ent: "calculateShannonEntropy log2f (of_nat (length ?d)) (printable_counts ?d) 96 = Inr e"
    using pc(2) by (simp add: calculateShannonEntropy_value e_def)
  have off: "p + 3 + 96 = p + 99" "p + 99 + 1 = p + 100" by simp_all
  have s5: "store (blit mem p (?V ?h' v t)) (p + 3 + 96) e = Inr (blit mem p (?V ?h' e t))"
    using store_blit [of 99 "?V ?h' v t" p mem e] V [OF l(2) seg(3)] l(2)
    unfolding off by (simp add: list_update_append)
  have l3: "load_list (histogram ?J) 0 77 = Inr (take 77 (histogram ?J))" by (simp add: load_list_def)
  have c2: "copy_to (fl_of_word f32) (p + 3 + 96 + 1) (take 77 (histogram ?J)) (blit mem p (?V ?h' e t)) =
      Inr (blit mem p (?V ?h' e ?c))"
    using copy_to_segment [of 100 "take 77 (histogram ?J)" "?V ?h' e t" p mem "fl_of_word f32"] V [OF l(2) seg(3)] l(2) seg(3) ic
    unfolding off by (simp add: blit_def add.commute [of p 177])
  have vec: "?V ?h' e ?c = strings_vector log2f matches S"
    by (simp only: strings_vector_def a_def b_def n_def e_def append.simps)
  have size: "readableHistogramSize = 96" "FIRST_READABLE_BYTE = 32"
    by (simp_all add: readableHistogramSize_def FIRST_READABLE_BYTE_def LAST_READABLE_BYTE_def)
  have "strings_finalize log2f p f (s, blit mem p seg) = Inr (s, blit mem p (?V ?h' e ?c))"
    by (simp only: strings_finalize_def prod.case Let_def same held'(2,4-) w size s1 bnd.simps s2 s3 l1 c1 l2 s4 ent s5 l3 c2 map_res_simps)
  then show ?thesis using held'(1,3) vec by auto
qed

definition strings_ok :: "(bytes \<Rightarrow> (bytes \<times> bytes) option) \<Rightarrow> string_extractor \<Rightarrow> bool" where
  "strings_ok findAndConsume s \<longleftrightarrow> find_ok findAndConsume \<and>
     interestingStringRegexes s = interesting_regexes \<and> NUM_INTERESTING_STRING_REGEXES s = 77"

definition strings_of :: "bytes list \<Rightarrow> bytes list" where
  "strings_of bs = concat (map readable_strings bs)"

lemma strings_of_bounds:
  "length (strings_of bs) \<le> length (concat (strings_of bs)) \<and> length (concat (strings_of bs)) \<le> length (concat bs)"
proof (induction bs)
  case (Cons b bs)
  then show ?case using readable_strings_count [of b] readable_strings_length [of b] by (simp add: strings_of_def)
qed (simp add: strings_of_def)

interpretation strings: feature_type 177 strings_reset strings_start "strings_finalize log2f"
  "strings_reduce findAndConsume matches" "strings_ok findAndConsume"
  "\<lambda>s. find_ok findAndConsume \<and> strings_held matches [] s"
  "\<lambda>f p bs s seg. find_ok findAndConsume \<and> strings_held matches (strings_of bs) s"
  "\<lambda>f bs. strings_vector log2f matches (strings_of bs)"
proof
  fix s and p :: nat and f and mem :: "fl list"
  assume "strings_ok findAndConsume s"
  then show "\<exists>s'. strings_reset p f (s, mem) = Inr (s', mem) \<and> find_ok findAndConsume \<and> strings_held matches [] s'"
    by (simp add: strings_reset_def strings_ok_def strings_held_def bc_reset_histogram total_length_def)
next
  fix s and p :: nat and f and mem :: "fl list"
  assume a: "find_ok findAndConsume \<and> strings_held matches [] s" "fits p 177 mem"
  have "strings_start p f (s, mem) = Inr (s, blit mem p (take 177 (drop p mem)))"
    using a by (simp add: strings_start_def bc_start_def fits_def blit_self)
  moreover have "length (take 177 (drop p mem)) = 177" using a(2) by (auto simp: fits_def)
  moreover have "strings_held matches (strings_of []) s" using a(1) by (simp add: strings_of_def)
  ultimately show "\<exists>s' seg. strings_start p f (s, mem) = Inr (s', blit mem p seg) \<and> length seg = 177 \<and>
      find_ok findAndConsume \<and> strings_held matches (strings_of []) s'" using a(1) by blast
next
  fix f and p :: nat and bs s and seg mem :: "fl list" and b :: bytes
  assume a: "find_ok findAndConsume \<and> strings_held matches (strings_of bs) s" "length seg = 177"
  then obtain s' where "strings_loop findAndConsume matches b s = Some (Inr s')"
    "strings_held matches (strings_of (bs @ [b])) s'"
    using strings_loop_held [of findAndConsume matches "strings_of bs" s b] by (auto simp: strings_of_def)
  then show "\<exists>s' seg'. strings_reduce findAndConsume matches p f (of_nat (length (concat bs))) b (s, blit mem p seg) =
      Inr (s', blit mem p seg') \<and> length seg' = 177 \<and>
      find_ok findAndConsume \<and> strings_held matches (strings_of (bs @ [b])) s'"
    using a by (intro exI [of _ s'] exI [of _ seg]) (simp add: strings_reduce_def)
next
  fix f and p :: nat and bs s and seg mem :: "fl list"
  assume "find_ok findAndConsume \<and> strings_held matches (strings_of bs) s" "length seg = 177" "fits p 177 mem"
    "length (concat bs) < 2 ^ 61"
  then show "\<exists>s'. strings_finalize log2f p f (s, blit mem p seg) =
      Inr (s', blit mem p (strings_vector log2f matches (strings_of bs))) \<and> strings_ok findAndConsume s'"
    using strings_finalize_ok [of matches "strings_of bs" s seg p mem log2f f] strings_of_bounds [of bs]
    by (auto simp: fits_def strings_ok_def)
qed (simp add: strings_vector_def printable_counts_def)

text \<open>The sum of the lengths is exact in a \<open>double\<close> below \<open>2 ^ 53\<close> bytes.\<close>

lemma total_length_exact:
  "length (concat S) < 2 ^ 53 \<Longrightarrow> total_length S = Fin False (of_nat (length (concat S)))"
proof (induction S rule: rev_induct)
  case (snoc m S)
  have "fl_of_nat f64 (length m) = Fin False (of_nat (length m))"
    using snoc.prems by (intro fl_of_nat_exact) simp_all
  moreover have "fl_add f64 (Fin False (of_nat (length (concat S)))) (Fin False (of_nat (length m))) =
      Fin False (of_nat (length (concat S) + length m))"
    using snoc.prems by (intro fl_add_nat_exact) simp_all
  ultimately show ?case using snoc by (simp add: total_length_def)
qed (simp add: total_length_def fl_zero_def)

text \<open>
  C10. With a regular-expression library that searches leftmost-longest, the string features come
  from the maximal runs of at least five bytes \<open>0x20..0x7f\<close> within each block of the file (a string
  across two blocks counts as two): their number, their mean length computed from exact integers,
  their total length, the share of each printable byte (one rounded reciprocal times the count),
  the entropy of those counts, and per pattern the number of strings that match it. Without a
  string everything is zero.
\<close>

theorem strings_features:
  fixes bs
  defines "S \<equiv> concat (map readable_strings bs)"
  defines "n \<equiv> length (concat S)"
  assumes "find_ok findAndConsume" "pe_ok f" "fits p 177 mem" "length (concat bs) < 2 ^ 53"
  shows "\<forall>d k junk1 junk2. map_res snd (ft_run strings_reset strings_start (strings_finalize log2f)
      (strings_reduce findAndConsume matches) p f bs (string_extractor_new d k junk1 junk2, mem)) =
    Inr (blit mem p (
      [fl_of_nat f32 (length S),
       fl_to f32 (if S = [] then fl_zero else fl_div f64 (Fin False (of_nat n)) (Fin False (of_nat (length S)))),
       fl_of_nat f32 n] @
      map (\<lambda>j. fl_mul f32 (fl_of_nat f32 (count_list (map unat (concat S)) (32 + j))) (strings_inv_total n)) [0..<96] @
      [entropy_value log2f (of_nat n) (printable_counts (concat S))] @
      map (\<lambda>i. fl_of_nat f32 (length (filter (matches (interesting_regexes ! i)) S))) [0..<77]))"
proof (intro allI)
  fix d k junk1 junk2
  have S: "strings_of bs = S" by (simp add: strings_of_def S_def)
  have b: "length S \<le> n" "n < 2 ^ 53" using strings_of_bounds [of bs] assms(6) by (auto simp: S n_def)
  have ok: "strings_ok findAndConsume (string_extractor_new d k junk1 junk2)"
    using assms(3) by (simp add: strings_ok_def string_extractor_new_def)
  have l: "fl_of_nat f64 (length S) = Fin False (of_nat (length S))" using b by (intro fl_of_nat_exact) simp_all
  have c: "fl_of_word f32 (of_nat (count_list (map unat (concat S)) j) :: size_t) = fl_of_nat f32 (count_list (map unat (concat S)) j)" for j
  proof -
    have "count_list (map unat (concat S)) j < 2 ^ 64"
      using count_le_length [of "map unat (concat S)" j] b(2) by (simp add: n_def)
    then show ?thesis by (simp add: fl_of_word_def unat_of_nat_small)
  qed
  obtain s' where run: "ft_run strings_reset strings_start (strings_finalize log2f) (strings_reduce findAndConsume matches)
      p f bs (string_extractor_new d k junk1 junk2, mem) = Inr (s', blit mem p (strings_vector log2f matches S))"
    using strings.run_features [OF ok assms(4,5), of bs log2f matches] assms(6) by (auto simp: S)
  have t: "total_length S = Fin False (of_nat n)" using total_length_exact [of S] b(2) by (simp add: n_def)
  show "map_res snd (ft_run strings_reset strings_start (strings_finalize log2f)
      (strings_reduce findAndConsume matches) p f bs (string_extractor_new d k junk1 junk2, mem)) =
    Inr (blit mem p (
      [fl_of_nat f32 (length S),
       fl_to f32 (if S = [] then fl_zero else fl_div f64 (Fin False (of_nat n)) (Fin False (of_nat (length S)))),
       fl_of_nat f32 n] @
      map (\<lambda>j. fl_mul f32 (fl_of_nat f32 (count_list (map unat (concat S)) (32 + j))) (strings_inv_total n)) [0..<96] @
      [entropy_value log2f (of_nat n) (printable_counts (concat S))] @
      map (\<lambda>i. fl_of_nat f32 (length (filter (matches (interesting_regexes ! i)) S))) [0..<77]))"
    by (simp only: run map_res_simps snd_conv strings_vector_def t l printable_counts_def map_map comp_def c n_def [symmetric])
qed

theorem strings_features_witness:
  "map_res (take 3 \<circ> snd) (ft_run strings_reset strings_start (strings_finalize log2f_floor)
     (strings_reduce find_readable (\<lambda>r m. False)) 0 (pe_file_init 3) [lit ''hello'', lit ''abc'']
     (string_extractor_new NaN 7 [] [], replicate 177 NaN)) = Inr [Fin False 1, Fin False 5, Fin False 5]"
proof -
  have S: "concat (map readable_strings [lit ''hello'', lit ''abc'']) = [lit ''hello'']"
    by (simp add: lit_def readable_strings.simps readable_def)
  have e: "map_res (take 3 \<circ> snd) r = map_res (take 3) (map_res snd r)" for r :: "(string_extractor \<times> fl list) res"
    by (cases r) simp_all
  have n: "fl_of_nat f32 (Suc 0) = Fin False 1" "fl_of_nat f32 (Suc (Suc (Suc (Suc (Suc 0))))) = Fin False 5" "fl_round f32 False 5 = Fin False 5"
    "fl_round f64 False 5 = Fin False 5"
    using fl_of_nat_exact [of f32 "Suc 0"] fl_of_nat_exact [of f32 "Suc (Suc (Suc (Suc (Suc 0))))"]
      fl_of_nat_exact [of f32 5] fl_of_nat_exact [of f64 5] by (simp_all add: fl_of_nat_def)
  show ?thesis
    unfolding e
    using strings_features [OF find_readable_ok pe_ok_init, of 0 "replicate 177 NaN" "[lit ''hello'', lit ''abc'']" log2f_floor
        "\<lambda>r m. False" 3, unfolded S, rule_format, of NaN 7 "[]" "[]"]
    by (simp add: fits_def lit_def blit_def n del: upt_rec_numeral)
qed

end
