(* ===== verification/AllFeatures.thy ===== *)
theory AllFeatures
  imports GeneralFileInfo ByteEntropyHistogram StringExtractor SectionInfo DirectoryFeatures HashedFeatures
begin

text \<open>
  \<open>core/src/all_feature_types.cpp\<close>: the composite feature type. It owns one object of each of the
  eleven classes, calls each operation on all of them in order, and hands every object the pointer
  behind the cells of its predecessors. A virtual call is a case distinction on the class of the
  object; the operations of the library functions the classes use are the parameter \<open>L\<close>.
\<close>

section \<open>The objects and their virtual operations\<close>

record libraries =
  lib_log2f :: "fl \<Rightarrow> fl"
  lib_find :: "bytes \<Rightarrow> (bytes \<times> bytes) option"
  lib_matches :: "regex \<Rightarrow> bytes \<Rightarrow> bool"

datatype feature_object =
    F_GeneralFileInfo general_file_info
  | F_ByteEntropyHistogram byte_entropy_histogram
  | F_StringExtractor string_extractor
  | F_HeaderFileInfo unit
  | F_SectionInfo unit
  | F_ImportsInfo imports_info
  | F_ExportsInfo exports_info
  | F_DataDirectories unit
  | F_RichHeaderFeatureType unit
  | F_AuthenticodeSignature unit
  | F_PEFormatWarnings unit

definition as_object :: "('s \<Rightarrow> feature_object) \<Rightarrow> ('s \<times> fl list) res \<Rightarrow> (feature_object \<times> fl list) res" where
  "as_object C r = map_res (\<lambda>(s, mem). (C s, mem)) r"

fun object_getName :: "feature_object \<Rightarrow> bytes" where
  "object_getName (F_GeneralFileInfo s) = general_getName"
| "object_getName (F_ByteEntropyHistogram s) = byteentropy_getName"
| "object_getName (F_StringExtractor s) = strings_getName"
| "object_getName (F_HeaderFileInfo s) = header_getName"
| "object_getName (F_SectionInfo s) = section_getName"
| "object_getName (F_ImportsInfo s) = imports_getName"
| "object_getName (F_ExportsInfo s) = exports_getName"
| "object_getName (F_DataDirectories s) = datadirectories_getName"
| "object_getName (F_RichHeaderFeatureType s) = richheader_getName"
| "object_getName (F_AuthenticodeSignature s) = authenticode_getName"
| "object_getName (F_PEFormatWarnings s) = pefilewarnings_getName"

fun object_getMaxDim :: "feature_object \<Rightarrow> size_t" where
  "object_getMaxDim (F_GeneralFileInfo s) = general_getMaxDim"
| "object_getMaxDim (F_ByteEntropyHistogram s) = byteentropy_getMaxDim"
| "object_getMaxDim (F_StringExtractor s) = strings_getMaxDim s"
| "object_getMaxDim (F_HeaderFileInfo s) = header_getMaxDim"
| "object_getMaxDim (F_SectionInfo s) = section_getMaxDim"
| "object_getMaxDim (F_ImportsInfo s) = imports_getMaxDim"
| "object_getMaxDim (F_ExportsInfo s) = exports_getMaxDim"
| "object_getMaxDim (F_DataDirectories s) = datadirectories_getMaxDim"
| "object_getMaxDim (F_RichHeaderFeatureType s) = richheader_getMaxDim"
| "object_getMaxDim (F_AuthenticodeSignature s) = authenticode_getMaxDim"
| "object_getMaxDim (F_PEFormatWarnings s) = pefilewarnings_getMaxDim"

fun object_reset :: "libraries \<Rightarrow> nat \<Rightarrow> pe_file \<Rightarrow> feature_object \<times> fl list \<Rightarrow> (feature_object \<times> fl list) res" where
  "object_reset L p f (F_GeneralFileInfo s, mem) = as_object F_GeneralFileInfo (general_reset p f (s, mem))"
| "object_reset L p f (F_ByteEntropyHistogram s, mem) = as_object F_ByteEntropyHistogram (byteentropy_reset (lib_log2f L) p f (s, mem))"
| "object_reset L p f (F_StringExtractor s, mem) = as_object F_StringExtractor (strings_reset p f (s, mem))"
| "object_reset L p f (F_HeaderFileInfo s, mem) = as_object F_HeaderFileInfo (header_reset p f (s, mem))"
| "object_reset L p f (F_SectionInfo s, mem) = as_object F_SectionInfo (section_reset p f (s, mem))"
| "object_reset L p f (F_ImportsInfo s, mem) = as_object F_ImportsInfo (imports_reset p f (s, mem))"
| "object_reset L p f (F_ExportsInfo s, mem) = as_object F_ExportsInfo (exports_reset p f (s, mem))"
| "object_reset L p f (F_DataDirectories s, mem) = as_object F_DataDirectories (datadirectories_reset p f (s, mem))"
| "object_reset L p f (F_RichHeaderFeatureType s, mem) = as_object F_RichHeaderFeatureType (richheader_reset p f (s, mem))"
| "object_reset L p f (F_AuthenticodeSignature s, mem) = as_object F_AuthenticodeSignature (authenticode_reset p f (s, mem))"
| "object_reset L p f (F_PEFormatWarnings s, mem) = as_object F_PEFormatWarnings (pefilewarnings_reset p f (s, mem))"

fun object_start :: "libraries \<Rightarrow> nat \<Rightarrow> pe_file \<Rightarrow> feature_object \<times> fl list \<Rightarrow> (feature_object \<times> fl list) res" where
  "object_start L p f (F_GeneralFileInfo s, mem) = as_object F_GeneralFileInfo (general_start p f (s, mem))"
| "object_start L p f (F_ByteEntropyHistogram s, mem) = as_object F_ByteEntropyHistogram (byteentropy_start p f (s, mem))"
| "object_start L p f (F_StringExtractor s, mem) = as_object F_StringExtractor (strings_start p f (s, mem))"
| "object_start L p f (F_HeaderFileInfo s, mem) = as_object F_HeaderFileInfo (header_start p f (s, mem))"
| "object_start L p f (F_SectionInfo s, mem) = as_object F_SectionInfo (section_start (lib_log2f L) p f (s, mem))"
| "object_start L p f (F_ImportsInfo s, mem) = as_object F_ImportsInfo (imports_start p f (s, mem))"
| "object_start L p f (F_ExportsInfo s, mem) = as_object F_ExportsInfo (exports_start p f (s, mem))"
| "object_start L p f (F_DataDirectories s, mem) = as_object F_DataDirectories (datadirectories_start p f (s, mem))"
| "object_start L p f (F_RichHeaderFeatureType s, mem) = as_object F_RichHeaderFeatureType (richheader_start p f (s, mem))"
| "object_start L p f (F_AuthenticodeSignature s, mem) = as_object F_AuthenticodeSignature (authenticode_start p f (s, mem))"
| "object_start L p f (F_PEFormatWarnings s, mem) = as_object F_PEFormatWarnings (pefilewarnings_start p f (s, mem))"

fun object_reduce :: "libraries \<Rightarrow> nat \<Rightarrow> pe_file \<Rightarrow> size_t \<Rightarrow> bytes \<Rightarrow> feature_object \<times> fl list \<Rightarrow> (feature_object \<times> fl list) res" where
  "object_reduce L p f off block' (F_GeneralFileInfo s, mem) = as_object F_GeneralFileInfo (general_reduce p f off block' (s, mem))"
| "object_reduce L p f off block' (F_ByteEntropyHistogram s, mem) = as_object F_ByteEntropyHistogram (byteentropy_reduce p f off block' (s, mem))"
| "object_reduce L p f off block' (F_StringExtractor s, mem) = as_object F_StringExtractor (strings_reduce (lib_find L) (lib_matches L) p f off block' (s, mem))"
| "object_reduce L p f off block' (F_HeaderFileInfo s, mem) = as_object F_HeaderFileInfo (header_reduce p f off block' (s, mem))"
| "object_reduce L p f off block' (F_SectionInfo s, mem) = as_object F_SectionInfo (section_reduce p f off block' (s, mem))"
| "object_reduce L p f off block' (F_ImportsInfo s, mem) = as_object F_ImportsInfo (imports_reduce p f off block' (s, mem))"
| "object_reduce L p f off block' (F_ExportsInfo s, mem) = as_object F_ExportsInfo (exports_reduce p f off block' (s, mem))"
| "object_reduce L p f off block' (F_DataDirectories s, mem) = as_object F_DataDirectories (datadirectories_reduce p f off block' (s, mem))"
| "object_reduce L p f off block' (F_RichHeaderFeatureType s, mem) = as_object F_RichHeaderFeatureType (richheader_reduce p f off block' (s, mem))"
| "object_reduce L p f off block' (F_AuthenticodeSignature s, mem) = as_object F_AuthenticodeSignature (authenticode_reduce p f off block' (s, mem))"
| "object_reduce L p f off block' (F_PEFormatWarnings s, mem) = as_object F_PEFormatWarnings (pefilewarnings_reduce p f off block' (s, mem))"

fun object_finalize :: "libraries \<Rightarrow> nat \<Rightarrow> pe_file \<Rightarrow> feature_object \<times> fl list \<Rightarrow> (feature_object \<times> fl list) res" where
  "object_finalize L p f (F_GeneralFileInfo s, mem) = as_object F_GeneralFileInfo (general_finalize (lib_log2f L) p f (s, mem))"
| "object_finalize L p f (F_ByteEntropyHistogram s, mem) = as_object F_ByteEntropyHistogram (byteentropy_finalize (lib_log2f L) p f (s, mem))"
| "object_finalize L p f (F_StringExtractor s, mem) = as_object F_StringExtractor (strings_finalize (lib_log2f L) p f (s, mem))"
| "object_finalize L p f (F_HeaderFileInfo s, mem) = as_object F_HeaderFileInfo (header_finalize p f (s, mem))"
| "object_finalize L p f (F_SectionInfo s, mem) = as_object F_SectionInfo (section_finalize p f (s, mem))"
| "object_finalize L p f (F_ImportsInfo s, mem) = as_object F_ImportsInfo (imports_finalize p f (s, mem))"
| "object_finalize L p f (F_ExportsInfo s, mem) = as_object F_ExportsInfo (exports_finalize p f (s, mem))"
| "object_finalize L p f (F_DataDirectories s, mem) = as_object F_DataDirectories (datadirectories_finalize p f (s, mem))"
| "object_finalize L p f (F_RichHeaderFeatureType s, mem) = as_object F_RichHeaderFeatureType (richheader_finalize p f (s, mem))"
| "object_finalize L p f (F_AuthenticodeSignature s, mem) = as_object F_AuthenticodeSignature (authenticode_finalize p f (s, mem))"
| "object_finalize L p f (F_PEFormatWarnings s, mem) = as_object F_PEFormatWarnings (pefilewarnings_finalize p f (s, mem))"

section \<open>The composite\<close>

record all_feature_types =
  featureTypes :: "feature_object list"
  af_dim :: size_t

text \<open>The range-based \<open>for\<close> loop: one operation on every object, \<open>vec\<close> moving on.\<close>

fun for_all_types ::
  "(nat \<Rightarrow> feature_object \<times> fl list \<Rightarrow> (feature_object \<times> fl list) res) \<Rightarrow>
   nat \<Rightarrow> feature_object list \<Rightarrow> fl list \<Rightarrow> (feature_object list \<times> fl list) res" where
  "for_all_types op vec [] mem = Inr ([], mem)"
| "for_all_types op vec (ft # fts) mem =
     bnd (op vec (ft, mem)) (\<lambda>(ft, mem).
     bnd (for_all_types op (vec + unat (object_getMaxDim ft)) fts mem) (\<lambda>(fts, mem). Inr (ft # fts, mem)))"

definition NUM_FEATURES :: size_t where "NUM_FEATURES = 2568"

text \<open>The constructor, from the freshly constructed objects.\<close>

definition all_feature_types_new :: "feature_object list \<Rightarrow> all_feature_types" where
  "all_feature_types_new fts = \<lparr>featureTypes = fts, af_dim = sum_list (map object_getMaxDim fts)\<rparr>"

definition all_getName :: bytes where "all_getName = lit ''all''"

definition all_reset :: "libraries \<Rightarrow> nat \<Rightarrow> pe_file \<Rightarrow> all_feature_types \<times> fl list \<Rightarrow> (all_feature_types \<times> fl list) res" where
  "all_reset L p f st = (case st of (a, mem) \<Rightarrow>
     map_res (\<lambda>(fts, mem). (a\<lparr>featureTypes := fts\<rparr>, mem))
       (for_all_types (\<lambda>vec. object_reset L vec f) p (featureTypes a) mem))"

definition all_start :: "libraries \<Rightarrow> nat \<Rightarrow> pe_file \<Rightarrow> all_feature_types \<times> fl list \<Rightarrow> (all_feature_types \<times> fl list) res" where
  "all_start L p f st = (case st of (a, mem) \<Rightarrow>
     map_res (\<lambda>(fts, mem). (a\<lparr>featureTypes := fts\<rparr>, mem))
       (for_all_types (\<lambda>vec. object_start L vec f) p (featureTypes a) mem))"

definition all_reduce :: "libraries \<Rightarrow> nat \<Rightarrow> pe_file \<Rightarrow> size_t \<Rightarrow> bytes \<Rightarrow> all_feature_types \<times> fl list \<Rightarrow> (all_feature_types \<times> fl list) res" where
  "all_reduce L p f off block' st = (case st of (a, mem) \<Rightarrow>
     map_res (\<lambda>(fts, mem). (a\<lparr>featureTypes := fts\<rparr>, mem))
       (for_all_types (\<lambda>vec. object_reduce L vec f off block') p (featureTypes a) mem))"

definition all_finalize :: "libraries \<Rightarrow> nat \<Rightarrow> pe_file \<Rightarrow> all_feature_types \<times> fl list \<Rightarrow> (all_feature_types \<times> fl list) res" where
  "all_finalize L p f st = (case st of (a, mem) \<Rightarrow>
     map_res (\<lambda>(fts, mem). (a\<lparr>featureTypes := fts\<rparr>, mem))
       (for_all_types (\<lambda>vec. object_finalize L vec f) p (featureTypes a) mem))"

definition all_getMaxDim :: "all_feature_types \<Rightarrow> size_t" where "all_getMaxDim a = af_dim a"

text \<open>The object and its offset, or a \<open>std::runtime_error\<close>.\<close>

fun find_feature_type :: "bytes \<Rightarrow> feature_object list \<Rightarrow> size_t \<Rightarrow> (feature_object \<times> size_t) res" where
  "find_feature_type name [] offset = Inl Throw"
| "find_feature_type name (ft # fts) offset =
     (if object_getName ft = c_str name then Inr (ft, offset)
      else find_feature_type name fts (offset + object_getMaxDim ft))"

definition getFeatureTypeAndOffsetByName :: "bytes \<Rightarrow> all_feature_types \<Rightarrow> (feature_object \<times> size_t) res" where
  "getFeatureTypeAndOffsetByName featureName a = find_feature_type featureName (featureTypes a) 0"

section \<open>The contract of one object\<close>

datatype feature_kind =
  K_GeneralFileInfo | K_ByteEntropyHistogram | K_StringExtractor | K_HeaderFileInfo | K_SectionInfo | K_ImportsInfo
  | K_ExportsInfo | K_DataDirectories | K_RichHeaderFeatureType | K_AuthenticodeSignature | K_PEFormatWarnings

fun kind_of :: "feature_object \<Rightarrow> feature_kind" where
  "kind_of (F_GeneralFileInfo s) = K_GeneralFileInfo"
| "kind_of (F_ByteEntropyHistogram s) = K_ByteEntropyHistogram"
| "kind_of (F_StringExtractor s) = K_StringExtractor"
| "kind_of (F_HeaderFileInfo s) = K_HeaderFileInfo"
| "kind_of (F_SectionInfo s) = K_SectionInfo"
| "kind_of (F_ImportsInfo s) = K_ImportsInfo"
| "kind_of (F_ExportsInfo s) = K_ExportsInfo"
| "kind_of (F_DataDirectories s) = K_DataDirectories"
| "kind_of (F_RichHeaderFeatureType s) = K_RichHeaderFeatureType"
| "kind_of (F_AuthenticodeSignature s) = K_AuthenticodeSignature"
| "kind_of (F_PEFormatWarnings s) = K_PEFormatWarnings"

fun kind_dim :: "feature_kind \<Rightarrow> nat" where
  "kind_dim K_GeneralFileInfo = 263"
| "kind_dim K_ByteEntropyHistogram = 256"
| "kind_dim K_StringExtractor = 177"
| "kind_dim K_HeaderFileInfo = 74"
| "kind_dim K_SectionInfo = 224"
| "kind_dim K_ImportsInfo = 1282"
| "kind_dim K_ExportsInfo = 129"
| "kind_dim K_DataDirectories = 34"
| "kind_dim K_RichHeaderFeatureType = 33"
| "kind_dim K_AuthenticodeSignature = 8"
| "kind_dim K_PEFormatWarnings = 88"

definition all_kinds :: "feature_kind list" where
  "all_kinds = [K_GeneralFileInfo, K_ByteEntropyHistogram, K_StringExtractor, K_HeaderFileInfo, K_SectionInfo,
     K_ImportsInfo, K_ExportsInfo, K_DataDirectories, K_RichHeaderFeatureType, K_AuthenticodeSignature, K_PEFormatWarnings]"

text \<open>The features of each class, as its own theory computes them.\<close>

fun kind_features :: "libraries \<Rightarrow> pe_file \<Rightarrow> bytes list \<Rightarrow> feature_kind \<Rightarrow> feature_t list" where
  "kind_features L f bs K_GeneralFileInfo = general_vector (lib_log2f L) f (concat bs)"
| "kind_features L f bs K_ByteEntropyHistogram = be_vector (lib_log2f L) (concat bs)"
| "kind_features L f bs K_StringExtractor = strings_vector (lib_log2f L) (lib_matches L) (strings_of bs)"
| "kind_features L f bs K_SectionInfo = section_vector (lib_log2f L) f"
| "kind_features L f bs K_HeaderFileInfo = header_vector f"
| "kind_features L f bs K_ImportsInfo = imports_vector f"
| "kind_features L f bs K_ExportsInfo = exports_vector f"
| "kind_features L f bs K_DataDirectories = datadirectories_vector f"
| "kind_features L f bs K_RichHeaderFeatureType = richheader_vector f"
| "kind_features L f bs K_AuthenticodeSignature = authenticode_vector f"
| "kind_features L f bs K_PEFormatWarnings = pefilewarnings_vector f"

fun object_ok :: "libraries \<Rightarrow> feature_object \<Rightarrow> bool" where
  "object_ok L (F_ByteEntropyHistogram s) \<longleftrightarrow> log2f_ok (lib_log2f L)"
| "object_ok L (F_StringExtractor s) \<longleftrightarrow> strings_ok (lib_find L) s"
| "object_ok L ft \<longleftrightarrow> True"

fun object_ready :: "libraries \<Rightarrow> feature_object \<Rightarrow> bool" where
  "object_ready L (F_GeneralFileInfo s) \<longleftrightarrow> general_ready s"
| "object_ready L (F_ByteEntropyHistogram st) \<longleftrightarrow> (case st of (w, s) \<Rightarrow> log2f_ok (lib_log2f L) \<and> be_config (lib_log2f L) w)"
| "object_ready L (F_StringExtractor s) \<longleftrightarrow> find_ok (lib_find L) \<and> strings_held (lib_matches L) [] s"
| "object_ready L ft \<longleftrightarrow> True"

fun object_running :: "libraries \<Rightarrow> pe_file \<Rightarrow> nat \<Rightarrow> bytes list \<Rightarrow> feature_object \<Rightarrow> fl list \<Rightarrow> bool" where
  "object_running L f p bs (F_GeneralFileInfo s) seg \<longleftrightarrow> general_running f p bs s seg"
| "object_running L f p bs (F_ByteEntropyHistogram s) seg \<longleftrightarrow> be_running (lib_log2f L) f p bs s seg"
| "object_running L f p bs (F_StringExtractor s) seg \<longleftrightarrow> find_ok (lib_find L) \<and> strings_held (lib_matches L) (strings_of bs) s"
| "object_running L f p bs ft seg \<longleftrightarrow> seg = kind_features L f bs (kind_of ft)"

lemma as_object_ok:
  assumes "\<exists>s'. r = Inr (s', m) \<and> P s'" "\<And>s'. P s' \<Longrightarrow> Q (C s')"
  shows "\<exists>ft'. as_object C r = Inr (ft', m) \<and> Q ft'"
  using assms by (auto simp: as_object_def)

lemma as_object_segment:
  assumes "\<exists>s' seg. r = Inr (s', m seg) \<and> length seg = d \<and> P s' seg" "\<And>s' seg. P s' seg \<Longrightarrow> Q (C s') seg"
  shows "\<exists>ft' seg. as_object C r = Inr (ft', m seg) \<and> length seg = d \<and> Q ft' seg"
proof -
  obtain s' seg where "r = Inr (s', m seg)" "length seg = d" "P s' seg" using assms(1) by blast
  then show ?thesis
    by (intro exI [of _ "C s'"] exI [of _ seg]) (simp add: as_object_def assms(2))
qed

lemmas object_dims = header_dim_def section_dim_def imports_dim_def exports_dim_def data_directories_dim_def
  richheader_dim_def authenticode_dim_def pefilewarnings_dim_def

text \<open>The laws, one interpretation each, carried over to the objects.\<close>

lemma object_reset_ok:
  assumes a: "kind_of ft = k" "object_ok L ft"
  shows "\<exists>ft'. object_reset L p f (ft, mem) = Inr (ft', mem) \<and> kind_of ft' = k \<and> object_ready L ft'"
proof (cases ft)
  case (F_GeneralFileInfo s)
  have k: "k = K_GeneralFileInfo" using a(1) F_GeneralFileInfo by simp
  show ?thesis unfolding F_GeneralFileInfo k object_reset.simps kind_dim.simps
    by (rule as_object_ok [OF general.reset_ok]) (use a F_GeneralFileInfo in \<open>auto split: prod.splits\<close>)
next
  case (F_ByteEntropyHistogram s)
  have k: "k = K_ByteEntropyHistogram" using a(1) F_ByteEntropyHistogram by simp
  show ?thesis unfolding F_ByteEntropyHistogram k object_reset.simps kind_dim.simps
    by (rule as_object_ok [OF byteentropy.reset_ok]) (use a F_ByteEntropyHistogram in \<open>auto split: prod.splits\<close>)
next
  case (F_StringExtractor s)
  have k: "k = K_StringExtractor" using a(1) F_StringExtractor by simp
  show ?thesis unfolding F_StringExtractor k object_reset.simps kind_dim.simps
    by (rule as_object_ok [OF strings.reset_ok]) (use a F_StringExtractor in \<open>auto split: prod.splits\<close>)
next
  case (F_HeaderFileInfo s)
  have k: "k = K_HeaderFileInfo" using a(1) F_HeaderFileInfo by simp
  show ?thesis unfolding F_HeaderFileInfo k object_reset.simps kind_dim.simps
    by (rule as_object_ok [OF header.reset_ok [unfolded object_dims]]) (use a F_HeaderFileInfo in \<open>auto split: prod.splits\<close>)
next
  case (F_SectionInfo s)
  have k: "k = K_SectionInfo" using a(1) F_SectionInfo by simp
  show ?thesis unfolding F_SectionInfo k object_reset.simps kind_dim.simps
    by (rule as_object_ok [OF section_info.reset_ok [unfolded object_dims]]) (use a F_SectionInfo in \<open>auto split: prod.splits\<close>)
next
  case (F_ImportsInfo s)
  have k: "k = K_ImportsInfo" using a(1) F_ImportsInfo by simp
  show ?thesis unfolding F_ImportsInfo k object_reset.simps kind_dim.simps
    by (rule as_object_ok [OF imported.reset_ok [unfolded object_dims]]) (use a F_ImportsInfo in \<open>auto split: prod.splits\<close>)
next
  case (F_ExportsInfo s)
  have k: "k = K_ExportsInfo" using a(1) F_ExportsInfo by simp
  show ?thesis unfolding F_ExportsInfo k object_reset.simps kind_dim.simps
    by (rule as_object_ok [OF exported.reset_ok [unfolded object_dims]]) (use a F_ExportsInfo in \<open>auto split: prod.splits\<close>)
next
  case (F_DataDirectories s)
  have k: "k = K_DataDirectories" using a(1) F_DataDirectories by simp
  show ?thesis unfolding F_DataDirectories k object_reset.simps kind_dim.simps
    by (rule as_object_ok [OF datadirectories.reset_ok [unfolded object_dims]]) (use a F_DataDirectories in \<open>auto split: prod.splits\<close>)
next
  case (F_RichHeaderFeatureType s)
  have k: "k = K_RichHeaderFeatureType" using a(1) F_RichHeaderFeatureType by simp
  show ?thesis unfolding F_RichHeaderFeatureType k object_reset.simps kind_dim.simps
    by (rule as_object_ok [OF richheader.reset_ok [unfolded object_dims]]) (use a F_RichHeaderFeatureType in \<open>auto split: prod.splits\<close>)
next
  case (F_AuthenticodeSignature s)
  have k: "k = K_AuthenticodeSignature" using a(1) F_AuthenticodeSignature by simp
  show ?thesis unfolding F_AuthenticodeSignature k object_reset.simps kind_dim.simps
    by (rule as_object_ok [OF authenticode.reset_ok [unfolded object_dims]]) (use a F_AuthenticodeSignature in \<open>auto split: prod.splits\<close>)
next
  case (F_PEFormatWarnings s)
  have k: "k = K_PEFormatWarnings" using a(1) F_PEFormatWarnings by simp
  show ?thesis unfolding F_PEFormatWarnings k object_reset.simps kind_dim.simps
    by (rule as_object_ok [OF pefilewarnings.reset_ok [unfolded object_dims]]) (use a F_PEFormatWarnings in \<open>auto split: prod.splits\<close>)
qed

lemma object_start_ok:
  assumes a: "kind_of ft = k" "object_ready L ft" "pe_ok f" "fits p (kind_dim k) mem"
  shows "\<exists>ft' seg. object_start L p f (ft, mem) = Inr (ft', blit mem p seg) \<and> length seg = kind_dim k \<and>
    kind_of ft' = k \<and> object_running L f p [] ft' seg"
proof (cases ft)
  case (F_GeneralFileInfo s)
  have k: "k = K_GeneralFileInfo" using a(1) F_GeneralFileInfo by simp
  show ?thesis unfolding F_GeneralFileInfo k object_start.simps kind_dim.simps
    by (rule as_object_segment [OF general.start_ok]) (use a F_GeneralFileInfo in \<open>auto split: prod.splits\<close>)
next
  case (F_ByteEntropyHistogram s)
  have k: "k = K_ByteEntropyHistogram" using a(1) F_ByteEntropyHistogram by simp
  show ?thesis unfolding F_ByteEntropyHistogram k object_start.simps kind_dim.simps
    by (rule as_object_segment [OF byteentropy.start_ok]) (use a F_ByteEntropyHistogram in \<open>auto split: prod.splits\<close>)
next
  case (F_StringExtractor s)
  have k: "k = K_StringExtractor" using a(1) F_StringExtractor by simp
  show ?thesis unfolding F_StringExtractor k object_start.simps kind_dim.simps
    by (rule as_object_segment [OF strings.start_ok]) (use a F_StringExtractor in \<open>auto split: prod.splits\<close>)
next
  case (F_HeaderFileInfo s)
  have k: "k = K_HeaderFileInfo" using a(1) F_HeaderFileInfo by simp
  show ?thesis unfolding F_HeaderFileInfo k object_start.simps kind_dim.simps
    by (rule as_object_segment [OF header.start_ok [unfolded object_dims]]) (use a F_HeaderFileInfo in \<open>auto split: prod.splits\<close>)
next
  case (F_SectionInfo s)
  have k: "k = K_SectionInfo" using a(1) F_SectionInfo by simp
  show ?thesis unfolding F_SectionInfo k object_start.simps kind_dim.simps
    by (rule as_object_segment [OF section_info.start_ok [unfolded object_dims]]) (use a F_SectionInfo in \<open>auto split: prod.splits\<close>)
next
  case (F_ImportsInfo s)
  have k: "k = K_ImportsInfo" using a(1) F_ImportsInfo by simp
  show ?thesis unfolding F_ImportsInfo k object_start.simps kind_dim.simps
    by (rule as_object_segment [OF imported.start_ok [unfolded object_dims]]) (use a F_ImportsInfo in \<open>auto split: prod.splits\<close>)
next
  case (F_ExportsInfo s)
  have k: "k = K_ExportsInfo" using a(1) F_ExportsInfo by simp
  show ?thesis unfolding F_ExportsInfo k object_start.simps kind_dim.simps
    by (rule as_object_segment [OF exported.start_ok [unfolded object_dims]]) (use a F_ExportsInfo in \<open>auto split: prod.splits\<close>)
next
  case (F_DataDirectories s)
  have k: "k = K_DataDirectories" using a(1) F_DataDirectories by simp
  show ?thesis unfolding F_DataDirectories k object_start.simps kind_dim.simps
    by (rule as_object_segment [OF datadirectories.start_ok [unfolded object_dims]]) (use a F_DataDirectories in \<open>auto split: prod.splits\<close>)
next
  case (F_RichHeaderFeatureType s)
  have k: "k = K_RichHeaderFeatureType" using a(1) F_RichHeaderFeatureType by simp
  show ?thesis unfolding F_RichHeaderFeatureType k object_start.simps kind_dim.simps
    by (rule as_object_segment [OF richheader.start_ok [unfolded object_dims]]) (use a F_RichHeaderFeatureType in \<open>auto split: prod.splits\<close>)
next
  case (F_AuthenticodeSignature s)
  have k: "k = K_AuthenticodeSignature" using a(1) F_AuthenticodeSignature by simp
  show ?thesis unfolding F_AuthenticodeSignature k object_start.simps kind_dim.simps
    by (rule as_object_segment [OF authenticode.start_ok [unfolded object_dims]]) (use a F_AuthenticodeSignature in \<open>auto split: prod.splits\<close>)
next
  case (F_PEFormatWarnings s)
  have k: "k = K_PEFormatWarnings" using a(1) F_PEFormatWarnings by simp
  show ?thesis unfolding F_PEFormatWarnings k object_start.simps kind_dim.simps
    by (rule as_object_segment [OF pefilewarnings.start_ok [unfolded object_dims]]) (use a F_PEFormatWarnings in \<open>auto split: prod.splits\<close>)
qed

lemma object_reduce_ok:
  assumes a: "kind_of ft = k" "object_running L f p bs ft seg" "pe_ok f" "length seg = kind_dim k"
    "fits p (kind_dim k) mem" "length (concat bs) + length b < 2 ^ 61"
  shows "\<exists>ft' seg'. object_reduce L p f (of_nat (length (concat bs))) b (ft, blit mem p seg) = Inr (ft', blit mem p seg') \<and>
    length seg' = kind_dim k \<and> kind_of ft' = k \<and> object_running L f p (bs @ [b]) ft' seg'"
proof (cases ft)
  case (F_GeneralFileInfo s)
  have k: "k = K_GeneralFileInfo" using a(1) F_GeneralFileInfo by simp
  show ?thesis unfolding F_GeneralFileInfo k object_reduce.simps kind_dim.simps
    by (rule as_object_segment [OF general.reduce_ok]) (use a F_GeneralFileInfo in \<open>auto split: prod.splits\<close>)
next
  case (F_ByteEntropyHistogram s)
  have k: "k = K_ByteEntropyHistogram" using a(1) F_ByteEntropyHistogram by simp
  show ?thesis unfolding F_ByteEntropyHistogram k object_reduce.simps kind_dim.simps
    by (rule as_object_segment [OF byteentropy.reduce_ok]) (use a F_ByteEntropyHistogram in \<open>auto split: prod.splits\<close>)
next
  case (F_StringExtractor s)
  have k: "k = K_StringExtractor" using a(1) F_StringExtractor by simp
  show ?thesis unfolding F_StringExtractor k object_reduce.simps kind_dim.simps
    by (rule as_object_segment [OF strings.reduce_ok]) (use a F_StringExtractor in \<open>auto split: prod.splits\<close>)
next
  case (F_HeaderFileInfo s)
  have k: "k = K_HeaderFileInfo" using a(1) F_HeaderFileInfo by simp
  show ?thesis unfolding F_HeaderFileInfo k object_reduce.simps kind_dim.simps
    by (rule as_object_segment [OF header.reduce_ok [unfolded object_dims]]) (use a F_HeaderFileInfo in \<open>auto split: prod.splits\<close>)
next
  case (F_SectionInfo s)
  have k: "k = K_SectionInfo" using a(1) F_SectionInfo by simp
  show ?thesis unfolding F_SectionInfo k object_reduce.simps kind_dim.simps
    by (rule as_object_segment [OF section_info.reduce_ok [unfolded object_dims]]) (use a F_SectionInfo in \<open>auto split: prod.splits\<close>)
next
  case (F_ImportsInfo s)
  have k: "k = K_ImportsInfo" using a(1) F_ImportsInfo by simp
  show ?thesis unfolding F_ImportsInfo k object_reduce.simps kind_dim.simps
    by (rule as_object_segment [OF imported.reduce_ok [unfolded object_dims]]) (use a F_ImportsInfo in \<open>auto split: prod.splits\<close>)
next
  case (F_ExportsInfo s)
  have k: "k = K_ExportsInfo" using a(1) F_ExportsInfo by simp
  show ?thesis unfolding F_ExportsInfo k object_reduce.simps kind_dim.simps
    by (rule as_object_segment [OF exported.reduce_ok [unfolded object_dims]]) (use a F_ExportsInfo in \<open>auto split: prod.splits\<close>)
next
  case (F_DataDirectories s)
  have k: "k = K_DataDirectories" using a(1) F_DataDirectories by simp
  show ?thesis unfolding F_DataDirectories k object_reduce.simps kind_dim.simps
    by (rule as_object_segment [OF datadirectories.reduce_ok [unfolded object_dims]]) (use a F_DataDirectories in \<open>auto split: prod.splits\<close>)
next
  case (F_RichHeaderFeatureType s)
  have k: "k = K_RichHeaderFeatureType" using a(1) F_RichHeaderFeatureType by simp
  show ?thesis unfolding F_RichHeaderFeatureType k object_reduce.simps kind_dim.simps
    by (rule as_object_segment [OF richheader.reduce_ok [unfolded object_dims]]) (use a F_RichHeaderFeatureType in \<open>auto split: prod.splits\<close>)
next
  case (F_AuthenticodeSignature s)
  have k: "k = K_AuthenticodeSignature" using a(1) F_AuthenticodeSignature by simp
  show ?thesis unfolding F_AuthenticodeSignature k object_reduce.simps kind_dim.simps
    by (rule as_object_segment [OF authenticode.reduce_ok [unfolded object_dims]]) (use a F_AuthenticodeSignature in \<open>auto split: prod.splits\<close>)
next
  case (F_PEFormatWarnings s)
  have k: "k = K_PEFormatWarnings" using a(1) F_PEFormatWarnings by simp
  show ?thesis unfolding F_PEFormatWarnings k object_reduce.simps kind_dim.simps
    by (rule as_object_segment [OF pefilewarnings.reduce_ok [unfolded object_dims]]) (use a F_PEFormatWarnings in \<open>auto split: prod.splits\<close>)
qed

lemma object_finalize_ok:
  assumes a: "kind_of ft = k" "object_running L f p bs ft seg" "pe_ok f" "length seg = kind_dim k"
    "fits p (kind_dim k) mem" "length (concat bs) < 2 ^ 61"
  shows "\<exists>ft'. object_finalize L p f (ft, blit mem p seg) = Inr (ft', blit mem p (kind_features L f bs k)) \<and>
    kind_of ft' = k \<and> object_ok L ft'"
proof (cases ft)
  case (F_GeneralFileInfo s)
  have k: "k = K_GeneralFileInfo" using a(1) F_GeneralFileInfo by simp
  show ?thesis unfolding F_GeneralFileInfo k object_finalize.simps kind_dim.simps kind_features.simps
    by (rule as_object_ok [OF general.finalize_ok]) (use a F_GeneralFileInfo in \<open>auto split: prod.splits\<close>)
next
  case (F_ByteEntropyHistogram s)
  have k: "k = K_ByteEntropyHistogram" using a(1) F_ByteEntropyHistogram by simp
  show ?thesis unfolding F_ByteEntropyHistogram k object_finalize.simps kind_dim.simps kind_features.simps
    by (rule as_object_ok [OF byteentropy.finalize_ok]) (use a F_ByteEntropyHistogram in \<open>auto split: prod.splits\<close>)
next
  case (F_StringExtractor s)
  have k: "k = K_StringExtractor" using a(1) F_StringExtractor by simp
  show ?thesis unfolding F_StringExtractor k object_finalize.simps kind_dim.simps kind_features.simps
    by (rule as_object_ok [OF strings.finalize_ok]) (use a F_StringExtractor in \<open>auto split: prod.splits\<close>)
next
  case (F_HeaderFileInfo s)
  have k: "k = K_HeaderFileInfo" using a(1) F_HeaderFileInfo by simp
  show ?thesis unfolding F_HeaderFileInfo k object_finalize.simps kind_dim.simps kind_features.simps
    by (rule as_object_ok [OF header.finalize_ok [unfolded object_dims]]) (use a F_HeaderFileInfo in \<open>auto split: prod.splits\<close>)
next
  case (F_SectionInfo s)
  have k: "k = K_SectionInfo" using a(1) F_SectionInfo by simp
  show ?thesis unfolding F_SectionInfo k object_finalize.simps kind_dim.simps kind_features.simps
    by (rule as_object_ok [OF section_info.finalize_ok [unfolded object_dims]]) (use a F_SectionInfo in \<open>auto split: prod.splits\<close>)
next
  case (F_ImportsInfo s)
  have k: "k = K_ImportsInfo" using a(1) F_ImportsInfo by simp
  show ?thesis unfolding F_ImportsInfo k object_finalize.simps kind_dim.simps kind_features.simps
    by (rule as_object_ok [OF imported.finalize_ok [unfolded object_dims]]) (use a F_ImportsInfo in \<open>auto split: prod.splits\<close>)
next
  case (F_ExportsInfo s)
  have k: "k = K_ExportsInfo" using a(1) F_ExportsInfo by simp
  show ?thesis unfolding F_ExportsInfo k object_finalize.simps kind_dim.simps kind_features.simps
    by (rule as_object_ok [OF exported.finalize_ok [unfolded object_dims]]) (use a F_ExportsInfo in \<open>auto split: prod.splits\<close>)
next
  case (F_DataDirectories s)
  have k: "k = K_DataDirectories" using a(1) F_DataDirectories by simp
  show ?thesis unfolding F_DataDirectories k object_finalize.simps kind_dim.simps kind_features.simps
    by (rule as_object_ok [OF datadirectories.finalize_ok [unfolded object_dims]]) (use a F_DataDirectories in \<open>auto split: prod.splits\<close>)
next
  case (F_RichHeaderFeatureType s)
  have k: "k = K_RichHeaderFeatureType" using a(1) F_RichHeaderFeatureType by simp
  show ?thesis unfolding F_RichHeaderFeatureType k object_finalize.simps kind_dim.simps kind_features.simps
    by (rule as_object_ok [OF richheader.finalize_ok [unfolded object_dims]]) (use a F_RichHeaderFeatureType in \<open>auto split: prod.splits\<close>)
next
  case (F_AuthenticodeSignature s)
  have k: "k = K_AuthenticodeSignature" using a(1) F_AuthenticodeSignature by simp
  show ?thesis unfolding F_AuthenticodeSignature k object_finalize.simps kind_dim.simps kind_features.simps
    by (rule as_object_ok [OF authenticode.finalize_ok [unfolded object_dims]]) (use a F_AuthenticodeSignature in \<open>auto split: prod.splits\<close>)
next
  case (F_PEFormatWarnings s)
  have k: "k = K_PEFormatWarnings" using a(1) F_PEFormatWarnings by simp
  show ?thesis unfolding F_PEFormatWarnings k object_finalize.simps kind_dim.simps kind_features.simps
    by (rule as_object_ok [OF pefilewarnings.finalize_ok [unfolded object_dims]]) (use a F_PEFormatWarnings in \<open>auto split: prod.splits\<close>)
qed

lemma kind_features_length:
  assumes "pe_ok f" "length (concat bs) < 2 ^ 61"
  shows "length (kind_features L f bs k) = kind_dim k"
  using assms general.length_features byteentropy.length_features strings.length_features
    header.length_features section_info.length_features imported.length_features exported.length_features
    datadirectories.length_features richheader.length_features authenticode.length_features pefilewarnings.length_features
  by (cases k) (simp_all add: object_dims)

interpretation object: feature_type "kind_dim k" "object_reset L" "object_start L" "object_finalize L" "object_reduce L"
  "\<lambda>ft. kind_of ft = k \<and> object_ok L ft" "\<lambda>ft. kind_of ft = k \<and> object_ready L ft"
  "\<lambda>f p bs ft seg. kind_of ft = k \<and> object_running L f p bs ft seg" "\<lambda>f bs. kind_features L f bs k"
  by (unfold_locales; (elim conjE)?;
      (rule object_reset_ok object_start_ok object_reduce_ok object_finalize_ok kind_features_length; assumption))

text \<open>What \<open>getMaxDim\<close> returns while the invariant holds.\<close>

lemmas max_dims = general_getMaxDim_def byteentropy_getMaxDim_def strings_getMaxDim_def header_getMaxDim_def
  section_getMaxDim_def imports_getMaxDim_def exports_getMaxDim_def datadirectories_getMaxDim_def richheader_getMaxDim_def
  authenticode_getMaxDim_def pefilewarnings_getMaxDim_def object_dims NUM_FIRST_BYTES_TO_TAKE_def BYTE_ENTROPY_DIM_def

lemma getMaxDim_ok: "object_ok L ft \<Longrightarrow> unat (object_getMaxDim ft) = kind_dim (kind_of ft)"
  by (cases ft) (simp_all add: max_dims strings_ok_def)

lemma getMaxDim_ready: "object_ready L ft \<Longrightarrow> unat (object_getMaxDim ft) = kind_dim (kind_of ft)"
  by (cases ft) (simp_all add: max_dims strings_held_def)

lemma getMaxDim_running: "object_running L f p bs ft seg \<Longrightarrow> unat (object_getMaxDim ft) = kind_dim (kind_of ft)"
  by (cases ft) (simp_all add: max_dims strings_held_def)

section \<open>The contract of the composite\<close>

abbreviation odim :: "feature_object \<Rightarrow> nat" where "odim ft \<equiv> kind_dim (kind_of ft)"

definition total_dim :: "feature_object list \<Rightarrow> nat" where
  "total_dim fts = sum_list (map odim fts)"

lemma total_dim_simps [simp]: "total_dim [] = 0" "total_dim (ft # fts) = odim ft + total_dim fts"
  by (simp_all add: total_dim_def)

text \<open>A property of every object and its own cells.\<close>

fun each_segment :: "(nat \<Rightarrow> feature_object \<Rightarrow> fl list \<Rightarrow> bool) \<Rightarrow> nat \<Rightarrow> feature_object list \<Rightarrow> fl list \<Rightarrow> bool" where
  "each_segment R p [] seg \<longleftrightarrow> seg = []"
| "each_segment R p (ft # fts) seg \<longleftrightarrow>
     odim ft \<le> length seg \<and> R p ft (take (odim ft) seg) \<and> each_segment R (p + odim ft) fts (drop (odim ft) seg)"

lemma each_segment_length: "each_segment R p fts seg \<Longrightarrow> length seg = total_dim fts"
proof (induction fts arbitrary: p seg)
  case (Cons ft fts)
  have "length (drop (odim ft) seg) = total_dim fts" by (rule Cons.IH [of "p + odim ft"]) (use Cons.prems in simp)
  then show ?case using Cons.prems by auto
qed simp

lemma for_all_segments:
  assumes step: "\<And>q ft s1 m. R q ft s1 \<Longrightarrow> length s1 = odim ft \<Longrightarrow> fits q (odim ft) m \<Longrightarrow>
      \<exists>ft' s1'. op q (ft, blit m q s1) = Inr (ft', blit m q s1') \<and> length s1' = odim ft \<and> kind_of ft' = kind_of ft \<and>
        unat (object_getMaxDim ft') = odim ft \<and> R' q ft' s1'"
  shows "each_segment R p fts seg \<Longrightarrow> fits p (total_dim fts) mem \<Longrightarrow>
    \<exists>fts' seg'. for_all_types op p fts (blit mem p seg) = Inr (fts', blit mem p seg') \<and> length seg' = total_dim fts \<and>
      map kind_of fts' = map kind_of fts \<and> each_segment R' p fts' seg'"
proof (induction fts arbitrary: p seg mem)
  case (Cons ft fts)
  let ?d = "odim ft"
  let ?s1 = "take ?d seg" and ?s2 = "drop ?d seg"
  have prem: "R p ft ?s1" "each_segment R (p + ?d) fts ?s2" using Cons.prems(1) by simp_all
  have len: "length seg = ?d + total_dim fts" using each_segment_length [OF Cons.prems(1)] by simp
  have seg: "?s1 @ ?s2 = seg" "length ?s1 = ?d" "length ?s2 = total_dim fts" using len by simp_all
  have room: "p + ?d + total_dim fts \<le> length mem" "length mem < 2 ^ 61" using Cons.prems(2) by (simp_all add: fits_def)
  have first: "blit mem p seg = blit (blit mem (p + ?d) ?s2) p ?s1"
    using blit_split [of p ?s1 ?s2 mem] room(1) len by (simp only: seg)
  have "fits p ?d (blit mem (p + ?d) ?s2)" using room seg(3) by (simp add: fits_def)
  then obtain ft' s1' where s1': "op p (ft, blit mem p seg) = Inr (ft', blit (blit mem (p + ?d) ?s2) p s1')"
    "length s1' = ?d" "kind_of ft' = kind_of ft" "unat (object_getMaxDim ft') = ?d" "R' p ft' s1'"
    using step [OF prem(1) seg(2)] unfolding first by blast
  have swap: "blit (blit mem (p + ?d) t) p s1' = blit (blit mem p s1') (p + ?d) t" if "length t = total_dim fts" for t
    using blit_split [of p s1' t mem] blit_split2 [of p s1' t mem] that room s1'(2) by simp
  have "fits (p + ?d) (total_dim fts) (blit mem p s1')" using room s1'(2) by (simp add: fits_def)
  then obtain fts' seg' where rest: "for_all_types op (p + ?d) fts (blit (blit mem p s1') (p + ?d) ?s2) =
      Inr (fts', blit (blit mem p s1') (p + ?d) seg')" "length seg' = total_dim fts"
    "map kind_of fts' = map kind_of fts" "each_segment R' (p + ?d) fts' seg'"
    using Cons.IH [OF prem(2)] by blast
  have "for_all_types op p (ft # fts) (blit mem p seg) = Inr (ft' # fts', blit mem p (s1' @ seg'))"
    using s1'(1,2,4) rest(1,2) swap [OF seg(3)] blit_split2 [of p s1' seg' mem] room(1) by simp
  moreover have "each_segment R' p (ft' # fts') (s1' @ seg')" using s1'(2,3,5) rest(4) by simp
  ultimately show ?case using s1'(2,3) rest(2,3) by (intro exI [of _ "ft' # fts'"] exI [of _ "s1' @ seg'"]) simp
qed simp

definition all_ok :: "libraries \<Rightarrow> all_feature_types \<Rightarrow> bool" where
  "all_ok L a \<longleftrightarrow> map kind_of (featureTypes a) = all_kinds \<and> (\<forall>ft \<in> set (featureTypes a). object_ok L ft)"

definition all_ready :: "libraries \<Rightarrow> all_feature_types \<Rightarrow> bool" where
  "all_ready L a \<longleftrightarrow> map kind_of (featureTypes a) = all_kinds \<and> (\<forall>ft \<in> set (featureTypes a). object_ready L ft)"

definition all_running :: "libraries \<Rightarrow> pe_file \<Rightarrow> nat \<Rightarrow> bytes list \<Rightarrow> all_feature_types \<Rightarrow> fl list \<Rightarrow> bool" where
  "all_running L f p bs a seg \<longleftrightarrow> map kind_of (featureTypes a) = all_kinds \<and>
     each_segment (\<lambda>q ft s. object_running L f q bs ft s) p (featureTypes a) seg"

definition all_features :: "libraries \<Rightarrow> pe_file \<Rightarrow> bytes list \<Rightarrow> feature_t list" where
  "all_features L f bs = concat (map (kind_features L f bs) all_kinds)"

lemma total_dim_all: "map kind_of fts = all_kinds \<Longrightarrow> total_dim fts = 2568"
proof -
  assume "map kind_of fts = all_kinds"
  then have "map odim fts = map kind_dim all_kinds" by (simp flip: map_map add: comp_def [of kind_dim kind_of, symmetric])
  then show ?thesis by (simp add: total_dim_def all_kinds_def)
qed

lemma each_segment_const:
  "length seg = total_dim fts \<Longrightarrow> \<forall>ft \<in> set fts. P ft \<Longrightarrow> each_segment (\<lambda>q ft s. P ft) p fts seg"
  by (induction fts arbitrary: p seg) auto

lemma each_segment_const_all: "each_segment (\<lambda>q ft s. P ft) p fts seg \<Longrightarrow> \<forall>ft \<in> set fts. P ft"
  by (induction fts arbitrary: p seg) auto

lemma each_segment_features:
  "each_segment (\<lambda>q ft s. s = g (kind_of ft) \<and> P ft) p fts seg \<Longrightarrow>
   seg = concat (map g (map kind_of fts)) \<and> (\<forall>ft \<in> set fts. P ft)"
proof (induction fts arbitrary: p seg)
  case (Cons ft fts)
  have "drop (odim ft) seg = concat (map g (map kind_of fts)) \<and> (\<forall>ft \<in> set fts. P ft)"
    by (rule Cons.IH [of "p + odim ft"]) (use Cons.prems in simp)
  moreover have "take (odim ft) seg = g (kind_of ft)" "P ft" using Cons.prems by simp_all
  ultimately show ?case using append_take_drop_id [of "odim ft" seg] by simp
qed simp

interpretation all_types: feature_type 2568 "all_reset L" "all_start L" "all_finalize L" "all_reduce L" "all_ok L"
  "all_ready L" "all_running L" "all_features L"
proof
  fix a and p :: nat and f and mem :: "fl list"
  assume a: "all_ok L a"
  have "\<exists>fts'. for_all_types (\<lambda>vec. object_reset L vec f) p fts mem = Inr (fts', mem) \<and> map kind_of fts' = map kind_of fts \<and>
      (\<forall>ft \<in> set fts'. object_ready L ft)" if "\<forall>ft \<in> set fts. object_ok L ft" for fts
    using that
  proof (induction fts arbitrary: p)
    case (Cons ft fts)
    obtain ft' where ft': "object_reset L p f (ft, mem) = Inr (ft', mem)" "kind_of ft' = kind_of ft" "object_ready L ft'"
      using object_reset_ok [of ft "kind_of ft" L p f mem] Cons.prems by auto
    obtain fts' where "for_all_types (\<lambda>vec. object_reset L vec f) (p + unat (object_getMaxDim ft')) fts mem = Inr (fts', mem)"
      "map kind_of fts' = map kind_of fts" "\<forall>ft \<in> set fts'. object_ready L ft"
      using Cons by fastforce
    then show ?case using ft' by auto
  qed simp
  then show "\<exists>a'. all_reset L p f (a, mem) = Inr (a', mem) \<and> all_ready L a'"
    using a by (fastforce simp: all_reset_def all_ok_def all_ready_def)
next
  fix a and p :: nat and f and mem :: "fl list"
  assume a: "all_ready L a" "pe_ok f" "fits p 2568 mem"
  let ?fts = "featureTypes a" and ?seg = "take 2568 (drop p mem)"
  have td: "total_dim ?fts = 2568" using a(1) total_dim_all by (simp add: all_ready_def)
  have seg: "length ?seg = total_dim ?fts" "blit mem p ?seg = mem" using a(3) by (auto simp: td fits_def blit_self)
  have "\<exists>fts' seg'. for_all_types (\<lambda>vec. object_start L vec f) p ?fts (blit mem p ?seg) = Inr (fts', blit mem p seg') \<and>
      length seg' = total_dim ?fts \<and> map kind_of fts' = map kind_of ?fts \<and>
      each_segment (\<lambda>q ft s. object_running L f q [] ft s) p fts' seg'"
  proof (rule for_all_segments [where R = "\<lambda>q ft s. object_ready L ft"])
    fix q ft and s1 m :: "fl list"
    assume b: "object_ready L ft" "length s1 = odim ft" "fits q (odim ft) m"
    then obtain ft' s1' where s1': "object_start L q f (ft, blit m q s1) = Inr (ft', blit (blit m q s1) q s1')"
      "length s1' = odim ft" "kind_of ft' = kind_of ft" "object_running L f q [] ft' s1'"
      using object_start_ok [of ft "kind_of ft" L f q "blit m q s1"] a(2)
      by (auto simp: fits_def)
    moreover have "blit (blit m q s1) q s1' = blit m q s1'"
      using b(2,3) s1'(2) by (intro blit_blit_same) (simp_all add: fits_def)
    ultimately show "\<exists>ft' s1'. object_start L q f (ft, blit m q s1) = Inr (ft', blit m q s1') \<and> length s1' = odim ft \<and>
        kind_of ft' = kind_of ft \<and> unat (object_getMaxDim ft') = odim ft \<and> object_running L f q [] ft' s1'"
      using getMaxDim_running [OF s1'(4)] by auto
  qed (use a seg td in \<open>auto simp: all_ready_def intro: each_segment_const\<close>)
  then show "\<exists>a' seg. all_start L p f (a, mem) = Inr (a', blit mem p seg) \<and> length seg = 2568 \<and> all_running L f p [] a' seg"
    using a(1) unfolding seg(2) td by (fastforce simp: all_start_def all_running_def all_ready_def)
next
  fix f and p :: nat and bs a and seg mem :: "fl list" and b :: bytes
  assume a: "all_running L f p bs a seg" "pe_ok f" "length seg = 2568" "fits p 2568 mem" "length (concat bs) + length b < 2 ^ 61"
  let ?fts = "featureTypes a"
  have td: "total_dim ?fts = 2568" using a(1) total_dim_all by (simp add: all_running_def)
  have "\<exists>fts' seg'. for_all_types (\<lambda>vec. object_reduce L vec f (of_nat (length (concat bs))) b) p ?fts (blit mem p seg) =
      Inr (fts', blit mem p seg') \<and> length seg' = total_dim ?fts \<and> map kind_of fts' = map kind_of ?fts \<and>
      each_segment (\<lambda>q ft s. object_running L f q (bs @ [b]) ft s) p fts' seg'"
  proof (rule for_all_segments [where R = "\<lambda>q ft s. object_running L f q bs ft s"])
    fix q ft and s1 m :: "fl list"
    assume b: "object_running L f q bs ft s1" "length s1 = odim ft" "fits q (odim ft) m"
    then show "\<exists>ft' s1'. object_reduce L q f (of_nat (length (concat bs))) b (ft, blit m q s1) = Inr (ft', blit m q s1') \<and>
        length s1' = odim ft \<and> kind_of ft' = kind_of ft \<and> unat (object_getMaxDim ft') = odim ft \<and>
        object_running L f q (bs @ [b]) ft' s1'"
      using object_reduce_ok [of ft "kind_of ft" L f q bs s1 m b] a(2,5) getMaxDim_running [of L f q "bs @ [b]"] by metis
  qed (use a td in \<open>auto simp: all_running_def\<close>)
  then show "\<exists>a' seg'. all_reduce L p f (of_nat (length (concat bs))) b (a, blit mem p seg) = Inr (a', blit mem p seg') \<and>
      length seg' = 2568 \<and> all_running L f p (bs @ [b]) a' seg'"
    using a(1) unfolding td by (fastforce simp: all_reduce_def all_running_def)
next
  fix f and p :: nat and bs a and seg mem :: "fl list"
  assume a: "all_running L f p bs a seg" "pe_ok f" "length seg = 2568" "fits p 2568 mem" "length (concat bs) < 2 ^ 61"
  let ?fts = "featureTypes a"
  have td: "total_dim ?fts = 2568" using a(1) total_dim_all by (simp add: all_running_def)
  have "\<exists>fts' seg'. for_all_types (\<lambda>vec. object_finalize L vec f) p ?fts (blit mem p seg) =
      Inr (fts', blit mem p seg') \<and> length seg' = total_dim ?fts \<and> map kind_of fts' = map kind_of ?fts \<and>
      each_segment (\<lambda>q ft s. s = kind_features L f bs (kind_of ft) \<and> object_ok L ft) p fts' seg'"
  proof (rule for_all_segments [where R = "\<lambda>q ft s. object_running L f q bs ft s"])
    fix q ft and s1 m :: "fl list"
    assume b: "object_running L f q bs ft s1" "length s1 = odim ft" "fits q (odim ft) m"
    then show "\<exists>ft' s1'. object_finalize L q f (ft, blit m q s1) = Inr (ft', blit m q s1') \<and>
        length s1' = odim ft \<and> kind_of ft' = kind_of ft \<and> unat (object_getMaxDim ft') = odim ft \<and>
        s1' = kind_features L f bs (kind_of ft') \<and> object_ok L ft'"
      using object_finalize_ok [of ft "kind_of ft" L f q bs s1 m] a(2,5) getMaxDim_ok [of L] kind_features_length by metis
  qed (use a td in \<open>auto simp: all_running_def\<close>)
  then obtain fts' seg' where r: "for_all_types (\<lambda>vec. object_finalize L vec f) p ?fts (blit mem p seg) = Inr (fts', blit mem p seg')"
    "map kind_of fts' = all_kinds" "each_segment (\<lambda>q ft s. s = kind_features L f bs (kind_of ft) \<and> object_ok L ft) p fts' seg'"
    using a(1) by (auto simp: all_running_def)
  then show "\<exists>a'. all_finalize L p f (a, blit mem p seg) = Inr (a', blit mem p (all_features L f bs)) \<and> all_ok L a'"
    using each_segment_features [OF r(3)] by (auto simp: all_finalize_def all_ok_def all_features_def)
next
  fix f and bs :: "bytes list"
  assume a: "pe_ok f" "length (concat bs) < 2 ^ 61"
  show "length (all_features L f bs) = 2568"
    by (simp only: all_features_def length_concat map_map comp_def kind_features_length [OF a]) (simp add: all_kinds_def)
qed

section \<open>A whole run\<close>

text \<open>The objects right after their constructors; only that of the string extractor sets members.\<close>

definition constructed :: "feature_object list \<Rightarrow> bool" where
  "constructed fts \<longleftrightarrow> map kind_of fts = all_kinds \<and>
     (\<forall>s. F_StringExtractor s \<in> set fts \<longrightarrow> (\<exists>d n junk1 junk2. s = string_extractor_new d n junk1 junk2))"

lemma constructed_ok:
  assumes "log2f_ok (lib_log2f L)" "find_ok (lib_find L)" "constructed fts"
  shows "all_ok L (all_feature_types_new fts) \<and> af_dim (all_feature_types_new fts) = NUM_FEATURES"
proof -
  have ok: "object_ok L ft" if ft: "ft \<in> set fts" for ft
  proof (cases ft)
    case (F_StringExtractor s)
    then obtain d n junk1 junk2 where "s = string_extractor_new d n junk1 junk2"
      using ft assms(3) unfolding constructed_def by blast
    then show ?thesis using assms(2) by (simp add: F_StringExtractor strings_ok_def string_extractor_new_def)
  qed (use assms(1) in simp_all)
  have "map object_getMaxDim fts = map (\<lambda>k. of_nat (kind_dim k)) (map kind_of fts)"
  proof (simp, rule ballI)
    fix ft assume "ft \<in> set fts"
    then have "unat (object_getMaxDim ft) = odim ft" by (intro getMaxDim_ok [OF ok])
    then show "object_getMaxDim ft = of_nat (odim ft)" by (metis of_nat_unat ucast_id)
  qed
  then have "map object_getMaxDim fts = map (\<lambda>k. of_nat (kind_dim k)) all_kinds"
    using assms(3) unfolding constructed_def by metis
  then show ?thesis
    using ok assms(3) by (simp add: all_ok_def constructed_def all_feature_types_new_def NUM_FEATURES_def all_kinds_def)
qed

text \<open>
  C2. A run of the composite over any file in any blocks never fails. The sum of the dimensions is
  the 2568 of the header file, so the check of the constructor passes; the vector consists of the
  eleven segments in the order of the constructor, each what its own class computes, none touched
  by another class, whatever the objects and the vector held before.
\<close>

theorem all_types_run:
  assumes "log2f_ok (lib_log2f L)" "find_ok (lib_find L)" "constructed fts" "pe_ok f" "fits p 2568 mem"
    "length (concat bs) < 2 ^ 61"
  shows "af_dim (all_feature_types_new fts) = NUM_FEATURES \<and>
    map_res snd (ft_run (all_reset L) (all_start L) (all_finalize L) (all_reduce L) p f bs (all_feature_types_new fts, mem)) =
    Inr (blit mem p (general_vector (lib_log2f L) f (concat bs) @ be_vector (lib_log2f L) (concat bs) @
      strings_vector (lib_log2f L) (lib_matches L) (strings_of bs) @ header_vector f @ section_vector (lib_log2f L) f @
      imports_vector f @ exports_vector f @ datadirectories_vector f @ richheader_vector f @ authenticode_vector f @
      replicate 88 fl_zero))"
proof -
  have "all_features L f bs = general_vector (lib_log2f L) f (concat bs) @ be_vector (lib_log2f L) (concat bs) @
      strings_vector (lib_log2f L) (lib_matches L) (strings_of bs) @ header_vector f @ section_vector (lib_log2f L) f @
      imports_vector f @ exports_vector f @ datadirectories_vector f @ richheader_vector f @ authenticode_vector f @
      replicate 88 fl_zero"
    by (simp add: all_features_def all_kinds_def pefilewarnings_vector_def pefilewarnings_dim_def)
  then show ?thesis
    using constructed_ok [OF assms(1-3)] all_types.run_features [of L "all_feature_types_new fts" f p mem bs] assms(4-6)
    by auto
qed

definition example_objects :: "feature_object list" where
  "example_objects =
    [F_GeneralFileInfo \<lparr>gf_byteCounter = bc_new [], gf_byteAtOffsetCatcher = bcat_new\<rparr>,
     F_ByteEntropyHistogram (sbw_new, \<lparr>be_byteCounter = bc_new [], be_temp = [], withCompleteWindowCalled = True, outputBuffer = 7\<rparr>),
     F_StringExtractor (string_extractor_new NaN 3 [] []), F_HeaderFileInfo (), F_SectionInfo (),
     F_ImportsInfo \<lparr>im_librariesFH = fh_new 0, im_functionsFH = fh_new 0\<rparr>, F_ExportsInfo \<lparr>ex_functionsFH = fh_new 0\<rparr>,
     F_DataDirectories (), F_RichHeaderFeatureType (), F_AuthenticodeSignature (), F_PEFormatWarnings ()]"

definition example_libraries :: libraries where
  "example_libraries = \<lparr>lib_log2f = log2f_floor, lib_find = find_readable, lib_matches = \<lambda>r m. False\<rparr>"

lemma example_constructed: "constructed example_objects"
  by (auto simp: constructed_def example_objects_def all_kinds_def)

theorem all_types_run_witness:
  "\<exists>v. map_res snd (ft_run (all_reset example_libraries) (all_start example_libraries) (all_finalize example_libraries)
      (all_reduce example_libraries) 0 (pe_file_init 3) [lit ''abc''] (all_feature_types_new example_objects, replicate 2568 NaN)) =
      Inr v \<and> af_dim (all_feature_types_new example_objects) = 2568"
  using all_types_run [of example_libraries example_objects "pe_file_init 3" 0 "replicate 2568 NaN" "[lit ''abc'']"]
  by (simp add: example_libraries_def log2f_floor_ok find_readable_ok example_constructed pe_ok_init fits_def lit_def
      NUM_FEATURES_def)

section \<open>Names and offsets\<close>

text \<open>The classes by name: kind, offset of the segment, length of the segment.\<close>

definition feature_table :: "(bytes \<times> feature_kind \<times> nat \<times> nat) list" where
  "feature_table =
    [(lit ''general,histogram'', K_GeneralFileInfo, 0, 263),
     (lit ''byteentropy'', K_ByteEntropyHistogram, 263, 256),
     (lit ''strings'', K_StringExtractor, 519, 177),
     (lit ''header'', K_HeaderFileInfo, 696, 74),
     (lit ''section'', K_SectionInfo, 770, 224),
     (lit ''imports'', K_ImportsInfo, 994, 1282),
     (lit ''exports'', K_ExportsInfo, 2276, 129),
     (lit ''datadirectories'', K_DataDirectories, 2405, 34),
     (lit ''richheader'', K_RichHeaderFeatureType, 2439, 33),
     (lit ''authenticode'', K_AuthenticodeSignature, 2472, 8),
     (lit ''pefilewarnings'', K_PEFormatWarnings, 2480, 88)]"

lemma kind_of_iff:
  "kind_of ft = K_GeneralFileInfo \<longleftrightarrow> (\<exists>s. ft = F_GeneralFileInfo s)"
  "kind_of ft = K_ByteEntropyHistogram \<longleftrightarrow> (\<exists>s. ft = F_ByteEntropyHistogram s)"
  "kind_of ft = K_StringExtractor \<longleftrightarrow> (\<exists>s. ft = F_StringExtractor s)"
  "kind_of ft = K_HeaderFileInfo \<longleftrightarrow> (\<exists>s. ft = F_HeaderFileInfo s)"
  "kind_of ft = K_SectionInfo \<longleftrightarrow> (\<exists>s. ft = F_SectionInfo s)"
  "kind_of ft = K_ImportsInfo \<longleftrightarrow> (\<exists>s. ft = F_ImportsInfo s)"
  "kind_of ft = K_ExportsInfo \<longleftrightarrow> (\<exists>s. ft = F_ExportsInfo s)"
  "kind_of ft = K_DataDirectories \<longleftrightarrow> (\<exists>s. ft = F_DataDirectories s)"
  "kind_of ft = K_RichHeaderFeatureType \<longleftrightarrow> (\<exists>s. ft = F_RichHeaderFeatureType s)"
  "kind_of ft = K_AuthenticodeSignature \<longleftrightarrow> (\<exists>s. ft = F_AuthenticodeSignature s)"
  "kind_of ft = K_PEFormatWarnings \<longleftrightarrow> (\<exists>s. ft = F_PEFormatWarnings s)"
  by (cases ft; simp)+

lemmas getNames = general_getName_def byteentropy_getName_def strings_getName_def header_getName_def section_getName_def
  imports_getName_def exports_getName_def datadirectories_getName_def richheader_getName_def authenticode_getName_def
  pefilewarnings_getName_def

text \<open>
  Looking a class up by name finds it at the offset and with the length of its segment, for
  each of the eleven names; any other name raises the exception. The name ends at its first zero
  byte.
\<close>

theorem feature_lookup:
  assumes "all_ok L a"
  shows "map_res (\<lambda>(ft, off). (kind_of ft, unat off, unat (object_getMaxDim ft))) (getFeatureTypeAndOffsetByName name a) =
    (case find (\<lambda>(n, _). n = c_str name) feature_table of Some (n, r) \<Rightarrow> Inr r | None \<Rightarrow> Inl Throw)"
proof -
  obtain a0 a1 a2 a3 a4 a5 a6 a7 a8 a9 a10 where fts: "featureTypes a = [F_GeneralFileInfo a0, F_ByteEntropyHistogram a1,
      F_StringExtractor a2, F_HeaderFileInfo a3, F_SectionInfo a4, F_ImportsInfo a5, F_ExportsInfo a6, F_DataDirectories a7,
      F_RichHeaderFeatureType a8, F_AuthenticodeSignature a9, F_PEFormatWarnings a10]"
    using assms by (auto simp: all_ok_def all_kinds_def map_eq_Cons_conv kind_of_iff)
  have "strings_getMaxDim a2 = 177"
    using assms by (auto simp: all_ok_def fts strings_ok_def strings_getMaxDim_def)
  then show ?thesis
    by (simp add: getFeatureTypeAndOffsetByName_def fts feature_table_def getNames max_dims del: strings_getMaxDim_def)
qed

theorem feature_lookup_witness:
  "map_res (\<lambda>(ft, off). (kind_of ft, unat off, unat (object_getMaxDim ft)))
     (getFeatureTypeAndOffsetByName (lit ''strings'') (all_feature_types_new example_objects)) =
   Inr (K_StringExtractor, 519, 177)"
proof -
  have "all_ok example_libraries (all_feature_types_new example_objects)"
    using constructed_ok [OF _ _ example_constructed, of example_libraries]
    by (simp add: example_libraries_def log2f_floor_ok find_readable_ok)
  from feature_lookup [OF this, of "lit ''strings''"] show ?thesis
    by (simp add: feature_table_def lit_def c_str_def)
qed

end
