(* ===== verification/Engine.thy ===== *)
theory Engine
  imports AllFeatures BlockStream
begin

text \<open>
  \<open>core/src/core.cpp\<close>: the engine. A run parses the file, reads it in blocks of four megabytes and
  hands every block to the composite feature type; the run over a path maps the file into memory
  first. The parsers are arguments, as in the theory of the parsed file; the file system and the
  mapping library are the record \<open>system\<close>.
\<close>

section \<open>The engine and its runs\<close>

definition BUF_SIZE :: size_t where "BUF_SIZE = 1048576 * 4"

record engine =
  en_allFeatures :: all_feature_types
  en_dim :: size_t
  en_buf :: bytes
  en_output :: "fl list"

text \<open>\<open>std::make_unique<T[]>\<close> fills the arrays with zeros.\<close>

definition engine_new :: "feature_object list \<Rightarrow> engine" where
  "engine_new fts =
     (let all = all_feature_types_new fts
      in \<lparr>en_allFeatures = all, en_dim = all_getMaxDim all, en_buf = replicate (unat BUF_SIZE) 0,
          en_output = replicate (unat (all_getMaxDim all)) fl_zero\<rparr>)"

definition getDim :: "engine \<Rightarrow> size_t" where "getDim e = en_dim e"

text \<open>
  The first overload, over a buffer \<open>f\<close> of \<open>n\<close> bytes. It returns the pointer to its own output and
  never an error code; the loop is that of the block stream.
\<close>

definition run_memory ::
  "libraries \<Rightarrow> (bytes \<Rightarrow> parse_result) \<Rightarrow> (bytes \<Rightarrow> avast_result) \<Rightarrow> bytes \<Rightarrow> size_t \<Rightarrow> engine \<Rightarrow> engine res" where
  "run_memory L parse parse_authenticode f n e =
     bnd (new_PEFile parse parse_authenticode f n) (\<lambda>peFile.
     let blockStream = open_memory (Some f) n BUF_SIZE
     in bnd (all_reset L 0 peFile (en_allFeatures e, en_output e)) (\<lambda>st.
        bnd (all_start L 0 peFile st) (\<lambda>st.
        bnd (returned (read_loop doReadNext (all_reduce L 0 peFile) blockStream (en_buf e) st)) (\<lambda>(blockStream, buf', st).
        bnd (all_finalize L 0 peFile st) (\<lambda>(all, mem).
        let blockStream = stopReading doStopReading blockStream
        in Inr (e\<lparr>en_allFeatures := all, en_buf := buf', en_output := mem\<rparr>))))))"

datatype error_code = no_such_file_or_directory | no_message | message_size | system_error int

text \<open>
  What the file system answers; a query may throw. The mapping throws, sets a code or succeeds. The
  codes of the two failures are taken to be nonzero, as those of a failed system call are: a code of
  zero would not be an error to the caller.
\<close>

datatype mapping = Map_Throws int | Map_Fails int | Mapped bytes

record system =
  sys_absolute :: "bytes \<Rightarrow> bytes res"
  sys_exists :: "bytes \<Rightarrow> bool res"
  sys_file_size :: "bytes \<Rightarrow> u64 res"
  sys_map :: "bytes \<Rightarrow> mapping"

text \<open>The second overload returns the vector or a null pointer, and the error code.\<close>

definition run_path ::
  "libraries \<Rightarrow> (bytes \<Rightarrow> parse_result) \<Rightarrow> (bytes \<Rightarrow> avast_result) \<Rightarrow> system \<Rightarrow> bytes \<Rightarrow> engine \<Rightarrow>
   (engine \<times> fl list option \<times> error_code option) res" where
  "run_path L parse parse_authenticode sys filePath e =
     bnd (sys_absolute sys filePath) (\<lambda>filePath.
     bnd (sys_exists sys filePath) (\<lambda>there.
     if \<not> there then Inr (e, None, Some no_such_file_or_directory)
     else bnd (sys_file_size sys filePath) (\<lambda>fileSizeFromSystem.
       if fileSizeFromSystem = 0 then Inr (e, None, Some no_message)
       else (case sys_map sys filePath of
         Map_Throws c \<Rightarrow> Inr (e, None, Some (system_error c))
       | Map_Fails c \<Rightarrow> Inr (e, None, Some (system_error c))
       | Mapped fileContent \<Rightarrow>
           let mappedSize = of_nat (length fileContent)
           in if fileSizeFromSystem \<noteq> mappedSize then Inr (e, None, Some message_size)
              else map_res (\<lambda>e. (e, Some (en_output e), None))
                     (run_memory L parse parse_authenticode fileContent mappedSize e)))))"

definition getFeatureTypeOffsetAndLength :: "bytes \<Rightarrow> engine \<Rightarrow> (size_t \<times> size_t) res" where
  "getFeatureTypeOffsetAndLength featureName e =
     map_res (\<lambda>(featureType, offset). (offset, object_getMaxDim featureType))
       (getFeatureTypeAndOffsetByName featureName (en_allFeatures e))"

section \<open>The states of an engine\<close>

text \<open>Bounds that every binary in memory meets, and the entropy of a section is a \<open>double\<close>.\<close>

definition binary_ok :: "binary \<Rightarrow> bool" where
  "binary_ok b \<longleftrightarrow>
     length (b_sections b) < 2 ^ 50 \<and>
     (\<forall>s \<in> set (b_sections b). length (ls_name s) < 2 ^ 30 \<and> wf_fl f64 (ls_entropy s)) \<and>
     (\<forall>m \<in> set (b_imports b). length (lm_name m) < 2 ^ 30) \<and>
     length (b_imports b) < 2 ^ 60 \<and> length (concat (map lm_entries (b_imports b))) < 2 ^ 60 \<and>
     (\<forall>es. b_export b = Some es \<longrightarrow> length es < 2 ^ 60) \<and>
     (\<forall>raw key. b_rich_header b = Some (raw, key) \<longrightarrow> length raw < 2 ^ 60) \<and>
     length (b_overlay b) < 2 ^ 60"

definition parser_ok :: "(bytes \<Rightarrow> parse_result) \<Rightarrow> bool" where
  "parser_ok parse \<longleftrightarrow> (\<forall>f b. parse f = Parsed b \<longrightarrow> binary_ok b)"

definition libraries_ok :: "libraries \<Rightarrow> bool" where
  "libraries_ok L \<longleftrightarrow> log2f_ok (lib_log2f L) \<and> find_ok (lib_find L)"

text \<open>The engines a program can hold: freshly constructed ones, and those a run gave back.\<close>

inductive engine_reach :: "libraries \<Rightarrow> (bytes \<Rightarrow> parse_result) \<Rightarrow> (bytes \<Rightarrow> avast_result) \<Rightarrow> engine \<Rightarrow> bool"
  for L parse pa where
  reach_new: "constructed fts \<Longrightarrow> engine_reach L parse pa (engine_new fts)"
| reach_memory: "engine_reach L parse pa e \<Longrightarrow> length f < 2 ^ 61 \<Longrightarrow>
    run_memory L parse pa f (of_nat (length f)) e = Inr e' \<Longrightarrow> engine_reach L parse pa e'"
| reach_path: "engine_reach L parse pa e \<Longrightarrow> (\<And>p f. sys_map sys p = Mapped f \<Longrightarrow> length f < 2 ^ 61) \<Longrightarrow>
    run_path L parse pa sys path e = Inr (e', v, err) \<Longrightarrow> engine_reach L parse pa e'"

definition engine_inv :: "libraries \<Rightarrow> engine \<Rightarrow> bool" where
  "engine_inv L e \<longleftrightarrow> all_ok L (en_allFeatures e) \<and> en_dim e = 2568 \<and> length (en_output e) = 2568 \<and>
     length (en_buf e) = 4194304"

lemma new_PEFile_ok:
  assumes "parser_ok parse" "new_PEFile parse pa f n = Inr t"
  shows "pe_ok t"
proof (cases "parse f")
  case (Parsed b)
  have b: "binary_ok b" using assms(1) Parsed by (simp add: parser_ok_def)
  have names: "length (sec_name (section_of n s)) \<le> length (ls_name s)" "sec_entropy (section_of n s) = ls_entropy s" for s
    by (simp_all add: section_of_def length_takeWhile_le)
  have libs: "dllName (library_of m) = map tolower (lm_name m)" "lib_functions (library_of m) = map import_of (lm_entries m)" for m
    by (simp_all add: library_of_def)
  have fns: "length (concat (map lib_functions (map library_of ms))) = length (concat (map lm_entries ms))" for ms
    by (induction ms) (simp_all add: libs)
  obtain rva dos auth where
    "t = (pe_file_init n)\<lparr>pe := Some b, entrypointRVA := rva,
        sections := sections_listFromPEFile (b_sections b) n, pe_imports := imports_listFromPEFile (b_imports b),
        exportedFunctions := exports_listFromPEFile (b_export b), dosHeader := dos,
        coffHeader := coff_fromPEFile (b_header b), optionalHeader := optional_fromPEFile (b_optional_header b),
        dataDirectories := directories_listFromPEFile (b_data_directories b),
        richHeaderRaw := (case b_rich_header b of None \<Rightarrow> [] | Some (raw, key) \<Rightarrow> raw),
        authenticodeSignatureInfo := auth\<rparr>"
    using new_PEFile_parsed [OF Parsed assms(2)] by blast
  then have t: "pe t = Some b" "sections t = map (section_of n) (b_sections b)" "pe_imports t = map library_of (b_imports b)"
    "exportedFunctions t = exports_listFromPEFile (b_export b)"
    "richHeaderRaw t = (case b_rich_header b of None \<Rightarrow> [] | Some (raw, key) \<Rightarrow> raw)"
    by (simp_all add: sections_listFromPEFile_def imports_listFromPEFile_def)
  have "length (exportedFunctions t) < 2 ^ 60" "length (richHeaderRaw t) < 2 ^ 60"
    using b by (auto simp: t binary_ok_def exports_listFromPEFile_def split: option.splits)
  moreover have "\<forall>s \<in> set (sections t). length (sec_name s) < 2 ^ 30 \<and> wf_fl f64 (sec_entropy s)"
    using b by (auto simp: t binary_ok_def names intro: le_less_trans [OF names(1)])
  moreover have "\<forall>l \<in> set (pe_imports t). length (dllName l) < 2 ^ 30"
    using b by (auto simp: t binary_ok_def libs)
  moreover have "length (concat (map lib_functions (pe_imports t))) < 2 ^ 60"
    using b fns [of "b_imports b"] by (simp add: t binary_ok_def)
  ultimately show ?thesis
    using b unfolding pe_ok_def by (simp add: t(1,2) binary_ok_def getOverlayBytes_def pe_default_def) (simp add: t(3))
qed (use assms(2) in \<open>auto simp: new_PEFile_def pe_ok_init\<close>)

lemma readNext_length:
  "readNext doReadNext s bs = Inr (n, bs', s') \<Longrightarrow> length bs' = length bs"
  by (auto simp: readNext_def doReadNext_def Let_def bnd_Inr_iff store_list_def split: if_splits option.splits)

lemma read_loop_length:
  assumes "read_loop doReadNext body s bs st = Some (Inr (s', bs', st'))"
  shows "length bs' = length bs"
proof -
  have "doRead = doReadNext \<longrightarrow> (\<forall>s' bs' st'. r = Inr (s', bs', st') \<longrightarrow> length bs' = length bs)"
    if "read_loop doRead body s bs st = Some r" for doRead r
    using that
  proof (rule read_loop.raw_induct [where P = "\<lambda>doRead body s bs st r. doRead = doReadNext \<longrightarrow>
      (\<forall>s' bs' st'. r = Inr (s', bs', st') \<longrightarrow> length bs' = length bs)", rotated], goal_cases)
    case (1 loop doRead body s bs st r)
    show ?case
    proof (intro impI allI)
      fix s' bs' st'
      assume d: "doRead = doReadNext" and r: "r = Inr (s', bs', st')"
      obtain n bs1 s1 where n: "readNext doReadNext s bs = Inr (n, bs1, s1)"
        using 1(2) by (auto simp: d r split: sum.splits)
      then have l: "length bs1 = length bs" by (rule readNext_length)
      show "length bs' = length bs"
      proof (cases "n = 0")
        case True
        then show ?thesis using 1(2) l by (simp add: d r n)
      next
        case False
        then obtain st1 where st1: "loop doReadNext body s1 bs1 st1 = Some r"
          using 1(2) by (auto simp: d r n split: sum.splits)
        show ?thesis using 1(1) [OF st1] r l by simp
      qed
    qed
  qed
  then show ?thesis using assms by blast
qed

lemma blocks_engine: "concat (blocks 4194304 f) = f"
  by (rule concat_blocks) simp

lemma run_memory_result:
  assumes "parser_ok parse" "engine_inv L e" "length f < 2 ^ 61"
    and t: "new_PEFile parse pa f (of_nat (length f)) = Inr t"
  shows "\<exists>e'. run_memory L parse pa f (of_nat (length f)) e = Inr e' \<and> engine_inv L e' \<and>
    en_output e' = all_features L t (blocks 4194304 f)"
proof -
  let ?bs = "blocks 4194304 f" and ?st = "(en_allFeatures e, en_output e)"
  have inv: "all_ok L (en_allFeatures e)" "length (en_output e) = 2568" "length (en_buf e) = 4194304"
    using assms(2) by (simp_all add: engine_inv_def)
  have pe: "pe_ok t" by (rule new_PEFile_ok [OF assms(1) t])
  obtain a where "ft_run (all_reset L) (all_start L) (all_finalize L) (all_reduce L) 0 t ?bs ?st =
      Inr (a, blit (en_output e) 0 (all_features L t ?bs))" and a: "all_ok L a"
    using all_types.run_features [OF inv(1) pe, of 0 "en_output e" ?bs] inv(2) assms(3) by (auto simp: fits_def blocks_engine)
  then obtain st1 st2 st3 where r: "all_reset L 0 t ?st = Inr st1" "all_start L 0 t st1 = Inr st2"
    "feed (all_reduce L 0 t) 0 ?bs st2 = Inr st3"
    "all_finalize L 0 t st3 = Inr (a, blit (en_output e) 0 (all_features L t ?bs))"
    by (auto simp: ft_run_def bnd_Inr_iff)
  have len: "length (all_features L t ?bs) = 2568"
    by (rule all_types.length_features [OF pe]) (use assms(3) in \<open>simp add: blocks_engine\<close>)
  have n: "unat (of_nat (length f) :: size_t) = length f" using assms(3) by (intro unat_of_nat_small) simp
  obtain s' bs' where loop: "read_loop doReadNext (all_reduce L 0 t) (open_memory (Some f) (of_nat (length f)) BUF_SIZE) (en_buf e) st2 =
      Some (Inr (s', bs', st3))"
    using open_memory_run [of "of_nat (length f)" f BUF_SIZE "en_buf e" "all_reduce L 0 t" st2] n inv(3) r(3)
    by (auto simp: BUF_SIZE_def)
  have "run_memory L parse pa f (of_nat (length f)) e =
      Inr (e\<lparr>en_allFeatures := a, en_buf := bs', en_output := all_features L t ?bs\<rparr>)"
    using inv(2) len by (simp add: run_memory_def t r loop blit_whole)
  then show ?thesis
    using a len read_loop_length [OF loop] assms(2) by (simp add: engine_inv_def)
qed

lemma new_PEFile_cases:
  assumes "length f < 2 ^ 64"
  shows "if (\<exists>b. parse f = Parsed b) \<and> 0x68 < length f \<and> length f < 0x6c
    then new_PEFile parse pa f (of_nat (length f)) = Inl OutOfBounds
    else \<exists>t. new_PEFile parse pa f (of_nat (length f)) = Inr t"
proof (cases "parse f")
  case (Parsed b)
  obtain d where d: "dos_fromPEFile f (of_nat (length f)) = Inr d" using dos_total [OF assms] by blast
  obtain auth where "extractFromPEFile pa (b_signatures b) (lh_time_date_stamp (b_header b)) f = Inr auth"
    using extract_total by blast
  then show ?thesis using Parsed d by (simp add: new_PEFile_def read_entrypoint_value [OF assms])
qed (simp_all add: new_PEFile_def)

lemma engine_new_inv: "libraries_ok L \<Longrightarrow> constructed fts \<Longrightarrow> engine_inv L (engine_new fts)"
  using constructed_ok [of L fts]
  by (simp add: engine_inv_def engine_new_def libraries_ok_def all_getMaxDim_def NUM_FEATURES_def BUF_SIZE_def Let_def)

text \<open>What the run over a path can do to the engine.\<close>

lemma run_path_cases:
  assumes "run_path L parse pa sys path e = Inr (e', v, err)"
  shows "(e' = e \<and> v = None \<and> err \<noteq> None) \<or>
    (\<exists>p c. sys_absolute sys path = Inr p \<and> sys_exists sys p = Inr True \<and> sys_map sys p = Mapped c \<and>
       sys_file_size sys p = Inr (of_nat (length c)) \<and> (of_nat (length c) :: u64) \<noteq> 0 \<and>
       run_memory L parse pa c (of_nat (length c)) e = Inr e' \<and> v = Some (en_output e') \<and> err = None)"
proof -
  obtain p there where p: "sys_absolute sys path = Inr p" "sys_exists sys p = Inr there"
    using assms by (auto simp: run_path_def bnd_Inr_iff)
  show ?thesis
  proof (cases there)
    case True
    then obtain n where n: "sys_file_size sys p = Inr n" using assms by (auto simp: run_path_def p bnd_Inr_iff)
    show ?thesis
    proof (cases "n = 0")
      case False
      then show ?thesis using assms p n True
        by (cases "sys_map sys p") (auto simp: run_path_def bnd_Inr_iff map_res_def Let_def split: if_splits)
    qed (use assms p n True in \<open>auto simp: run_path_def\<close>)
  qed (use assms p in \<open>auto simp: run_path_def\<close>)
qed

lemma bnd_Inl_iff: "bnd r f = Inl x \<longleftrightarrow> r = Inl x \<or> (\<exists>y. r = Inr y \<and> f y = Inl x)"
  by (cases r) auto

lemma run_path_error:
  assumes "run_path L parse pa sys path e = Inl x"
  shows "sys_absolute sys path = Inl x \<or> (\<exists>p. sys_absolute sys path = Inr p \<and>
    (sys_exists sys p = Inl x \<or> sys_file_size sys p = Inl x \<or>
     (\<exists>c. sys_map sys p = Mapped c \<and> run_memory L parse pa c (of_nat (length c)) e = Inl x)))"
proof (cases "sys_absolute sys path")
  case (Inr p)
  show ?thesis
  proof (cases "sys_exists sys p")
    case ex: (Inr there)
    show ?thesis
    proof (cases "sys_file_size sys p")
      case n: (Inr n)
      show ?thesis
      proof (cases "there \<and> n \<noteq> 0")
        case True
        then show ?thesis using assms Inr ex n
          by (cases "sys_map sys p"; cases "\<exists>c. run_memory L parse pa c (of_nat (length c)) e = Inl x")
            (auto simp: run_path_def map_res_def Let_def bnd_Inl_iff split: if_splits)
      qed (use assms Inr ex n in \<open>auto simp: run_path_def split: if_splits\<close>)
    qed (use assms Inr ex in \<open>auto simp: run_path_def split: if_splits\<close>)
  qed (use assms Inr in \<open>auto simp: run_path_def\<close>)
qed (use assms in \<open>auto simp: run_path_def\<close>)

lemma engine_reach_inv:
  assumes "engine_reach L parse pa e" "libraries_ok L" "parser_ok parse"
  shows "engine_inv L e"
  using assms(1)
proof induction
  case (reach_new fts)
  then show ?case using assms(2) by (rule engine_new_inv [rotated])
next
  case (reach_memory e f e')
  then obtain t where "new_PEFile parse pa f (of_nat (length f)) = Inr t" by (auto simp: run_memory_def bnd_Inr_iff)
  then show ?case using run_memory_result [OF assms(3) reach_memory.IH reach_memory.hyps(2)] reach_memory.hyps(3) by force
next
  case (reach_path e sys path e' v err)
  show ?case
  proof (cases "e' = e")
    case True
    then show ?thesis using reach_path.IH by simp
  next
    case False
    then obtain p c where c: "sys_map sys p = Mapped c" "run_memory L parse pa c (of_nat (length c)) e = Inr e'"
      using run_path_cases [OF reach_path.hyps(3)] by blast
    then obtain t where "new_PEFile parse pa c (of_nat (length c)) = Inr t" by (auto simp: run_memory_def bnd_Inr_iff)
    then show ?thesis
      using run_memory_result [OF assms(3) reach_path.IH reach_path.hyps(2) [OF c(1)]] c(2) by force
  qed
qed

text \<open>
  C1. An engine in any state a program can bring it into - fresh, or used for any sequence of
  files, whether those runs gave a vector or an error code - extracts from a buffer the same
  vector: the 2568 features of the parsed file and its four-megabyte blocks, nothing of what the
  engine held before. The run always ends; it goes wrong only for a file of 0x69 to 0x6b bytes that
  the parser accepts, whose entry point is read outside the buffer.
\<close>

theorem engine_run:
  assumes "libraries_ok L" "parser_ok parse" "engine_reach L parse pa e" "length f < 2 ^ 61"
  shows "if (\<exists>b. parse f = Parsed b) \<and> 0x68 < length f \<and> length f < 0x6c
    then run_memory L parse pa f (of_nat (length f)) e = Inl OutOfBounds
    else \<exists>t e'. new_PEFile parse pa f (of_nat (length f)) = Inr t \<and>
      run_memory L parse pa f (of_nat (length f)) e = Inr e' \<and>
      en_output e' = all_features L t (blocks 4194304 f) \<and> length (en_output e') = 2568 \<and> getDim e' = 2568"
proof -
  have inv: "engine_inv L e" by (rule engine_reach_inv [OF assms(3,1,2)])
  have l: "length f < 2 ^ 64" using assms(4) by simp
  show ?thesis
  proof (cases "(\<exists>b. parse f = Parsed b) \<and> 0x68 < length f \<and> length f < 0x6c")
    case True
    then show ?thesis using new_PEFile_cases [OF l, of parse pa] by (simp add: run_memory_def)
  next
    case False
    then obtain t where t: "new_PEFile parse pa f (of_nat (length f)) = Inr t"
      using new_PEFile_cases [OF l, of parse pa] by auto
    then show ?thesis
      using run_memory_result [OF assms(2) inv assms(4) t] False by (auto simp: engine_inv_def getDim_def)
  qed
qed

theorem engine_run_witness:
  "\<exists>t e'. new_PEFile (\<lambda>_. Thrown) (\<lambda>_. None) [0x4d, 0x5a] 2 = Inr t \<and>
     run_memory example_libraries (\<lambda>_. Thrown) (\<lambda>_. None) [0x4d, 0x5a] 2 (engine_new example_objects) = Inr e' \<and>
     en_output e' = all_features example_libraries t (blocks 4194304 [0x4d, 0x5a]) \<and> length (en_output e') = 2568"
proof -
  have "libraries_ok example_libraries" "parser_ok (\<lambda>_. Thrown)"
    by (simp_all add: libraries_ok_def example_libraries_def log2f_floor_ok find_readable_ok parser_ok_def)
  from engine_run [OF this reach_new [OF example_constructed], of "[0x4d, 0x5a]" "\<lambda>_. None"] show ?thesis by auto
qed

text \<open>
  C4. The run over a path returns either a null pointer with an error code, and then the engine is
  as it was, or a vector without one; then the path resolved to an existing file whose size, not
  zero, is that of the mapped content, and the vector is the one of that content. Otherwise a query
  of the file system threw, or the content is one of those the buffer run goes wrong on.
\<close>

theorem engine_run_path:
  assumes "libraries_ok L" "parser_ok parse" "engine_reach L parse pa e"
    and "\<forall>p c. sys_map sys p = Mapped c \<longrightarrow> length c < 2 ^ 61"
  shows "case run_path L parse pa sys path e of
      Inr (e', None, err) \<Rightarrow> err \<noteq> None \<and> e' = e
    | Inr (e', Some vec, err) \<Rightarrow> err = None \<and> (\<exists>p c t. sys_absolute sys path = Inr p \<and> sys_exists sys p = Inr True \<and>
        sys_map sys p = Mapped c \<and> c \<noteq> [] \<and> sys_file_size sys p = Inr (of_nat (length c)) \<and>
        new_PEFile parse pa c (of_nat (length c)) = Inr t \<and> vec = all_features L t (blocks 4194304 c) \<and> length vec = 2568)
    | Inl x \<Rightarrow> sys_absolute sys path = Inl x \<or> (\<exists>p. sys_absolute sys path = Inr p \<and>
        (sys_exists sys p = Inl x \<or> sys_file_size sys p = Inl x \<or>
         x = OutOfBounds \<and> (\<exists>c b. sys_map sys p = Mapped c \<and> parse c = Parsed b \<and> 0x68 < length c \<and> length c < 0x6c)))"
proof -
  have inv: "engine_inv L e" by (rule engine_reach_inv [OF assms(3,1,2)])
  show ?thesis
  proof (cases "run_path L parse pa sys path e")
    case (Inl x)
    have "x = OutOfBounds \<and> (\<exists>c b. sys_map sys p = Mapped c \<and> parse c = Parsed b \<and> 0x68 < length c \<and> length c < 0x6c)"
      if c: "sys_map sys p = Mapped c" "run_memory L parse pa c (of_nat (length c)) e = Inl x" for p c
    proof -
      have l: "length c < 2 ^ 61" using assms(4) c(1) by blast
      then have l64: "length c < 2 ^ 64" by simp
      have "new_PEFile parse pa c (of_nat (length c)) \<noteq> Inr t" for t
        using run_memory_result [OF assms(2) inv l, of pa t] c(2) by auto
      then show ?thesis using new_PEFile_cases [OF l64, of parse pa] c by (auto simp: run_memory_def split: if_splits)
    qed
    then show ?thesis using run_path_error [OF Inl] Inl by auto
  next
    case (Inr r)
    obtain e' v err where r: "r = (e', v, err)" by (cases r)
    show ?thesis
    proof (cases v)
      case None
      then show ?thesis using run_path_cases [of L parse pa sys path e e' v err] Inr r by auto
    next
      case (Some vec)
      then obtain p c where c: "sys_absolute sys path = Inr p" "sys_exists sys p = Inr True" "sys_map sys p = Mapped c"
        "sys_file_size sys p = Inr (of_nat (length c))" "(of_nat (length c) :: u64) \<noteq> 0"
        "run_memory L parse pa c (of_nat (length c)) e = Inr e'" "vec = en_output e'" "err = None"
        using run_path_cases [of L parse pa sys path e e' v err] Inr r by auto
      then obtain t where t: "new_PEFile parse pa c (of_nat (length c)) = Inr t" by (auto simp: run_memory_def bnd_Inr_iff)
      have "length c < 2 ^ 61" using assms(4) c(3) by blast
      then have "vec = all_features L t (blocks 4194304 c)" "length vec = 2568"
        using run_memory_result [OF assms(2) inv _ t] c(6,7) by (auto simp: engine_inv_def)
      moreover have "c \<noteq> []" using c(5) by auto
      ultimately show ?thesis using Some Inr r c(1-4,8) t by auto
    qed
  qed
qed

theorem engine_run_path_witness:
  "\<exists>e' t. run_path example_libraries (\<lambda>_. Thrown) (\<lambda>_. None)
       \<lparr>sys_absolute = Inr, sys_exists = \<lambda>_. Inr True, sys_file_size = \<lambda>_. Inr 2, sys_map = \<lambda>_. Mapped [0x4d, 0x5a]\<rparr>
       [0x61] (engine_new example_objects) =
       Inr (e', Some (all_features example_libraries t (blocks 4194304 [0x4d, 0x5a])), None)"
proof -
  let ?sys = "\<lparr>sys_absolute = Inr, sys_exists = \<lambda>_. Inr True, sys_file_size = \<lambda>_. Inr 2, sys_map = \<lambda>_. Mapped [0x4d, 0x5a]\<rparr> :: system"
  have L: "libraries_ok example_libraries" and P: "parser_ok (\<lambda>_. Thrown)"
    by (simp_all add: libraries_ok_def example_libraries_def log2f_floor_ok find_readable_ok parser_ok_def)
  have m: "\<forall>p c. sys_map ?sys p = Mapped c \<longrightarrow> length c < 2 ^ 61" by simp
  obtain e' where e': "run_memory example_libraries (\<lambda>_. Thrown) (\<lambda>_. None) [0x4d, 0x5a] 2 (engine_new example_objects) = Inr e'"
    using engine_new_inv [OF L example_constructed] run_memory_result [OF P, of example_libraries _ "[0x4d, 0x5a]" "\<lambda>_. None"]
    by (force simp: new_PEFile_def)
  have run: "run_path example_libraries (\<lambda>_. Thrown) (\<lambda>_. None) ?sys [0x61] (engine_new example_objects) =
      Inr (e', Some (en_output e'), None)"
    using e' by (simp add: run_path_def)
  from engine_run_path [OF L P reach_new [OF example_constructed] m, where pa = "\<lambda>_. None" and path = "[0x61]"] run
  show ?thesis by auto
qed

end
