(* ===== verification/SharedApi.thy ===== *)
theory SharedApi
  imports Engine
begin

text \<open>
  \<open>shared/src/shared.cpp\<close>: the C interface. A handle is the address of a live engine or \<open>None\<close> for
  \<open>NULL\<close>; to use a handle after \<open>EFE_Cleanup\<close> is undefined. Buffers are \<open>None\<close> for \<open>NULL\<close>, otherwise
  the cells from the pointer to the end of the allocation.
\<close>

section \<open>The interface\<close>

type_synonym engines = "nat \<Rightarrow> engine option"

definition EXIT_SUCCESS :: u32 where "EXIT_SUCCESS = 0"
definition EXIT_FAILURE :: u32 where "EXIT_FAILURE = 1"

definition live_engine :: "engines \<Rightarrow> nat \<Rightarrow> engine res" where
  "live_engine hs a = (case hs a of None \<Rightarrow> Inl Undefined | Some e \<Rightarrow> Inr e)"

text \<open>\<open>new(std::nothrow)\<close> gives a fresh address or \<open>NULL\<close>.\<close>

definition EFE_Init :: "(engines \<Rightarrow> nat option) \<Rightarrow> feature_object list \<Rightarrow> engines \<Rightarrow> nat option \<times> engines" where
  "EFE_Init new_nothrow fts hs = (case new_nothrow hs of
     None \<Rightarrow> (None, hs)
   | Some a \<Rightarrow> (Some a, hs(a \<mapsto> engine_new fts)))"

definition EFE_Cleanup :: "nat option \<Rightarrow> engines \<Rightarrow> engines res" where
  "EFE_Cleanup extractor hs = (case extractor of
     None \<Rightarrow> Inr hs
   | Some a \<Rightarrow> bnd (live_engine hs a) (\<lambda>e. Inr (hs(a := None))))"

definition EFE_GetNumFeatures :: "nat option \<Rightarrow> u32 option \<Rightarrow> engines \<Rightarrow> (u32 \<times> u32 option) res" where
  "EFE_GetNumFeatures extractor numFeatures hs = (case (extractor, numFeatures) of
     (Some a, Some old) \<Rightarrow> bnd (live_engine hs a) (\<lambda>e. Inr (EXIT_SUCCESS, Some (ucast (getDim e))))
   | _ \<Rightarrow> Inr (EXIT_FAILURE, numFeatures))"

text \<open>
  The run over a buffer reads \<open>n\<close> bytes from the pointer. The \<open>int\<close> sizes are converted to \<open>size_t\<close>,
  which turns a negative one into a huge one.
\<close>

definition run_buffer ::
  "libraries \<Rightarrow> (bytes \<Rightarrow> parse_result) \<Rightarrow> (bytes \<Rightarrow> avast_result) \<Rightarrow> bytes \<Rightarrow> size_t \<Rightarrow> engine \<Rightarrow> engine res" where
  "run_buffer L parse pa f n e =
     (if unat n \<le> length f then run_memory L parse pa (take (unat n) f) n e else Inl OutOfBounds)"

definition EFE_ExtractFeatures32 ::
  "libraries \<Rightarrow> (bytes \<Rightarrow> parse_result) \<Rightarrow> (bytes \<Rightarrow> avast_result) \<Rightarrow>
   nat option \<Rightarrow> bytes option \<Rightarrow> u32 \<Rightarrow> fl list option \<Rightarrow> u32 \<Rightarrow> engines \<Rightarrow> (u32 \<times> fl list option \<times> engines) res" where
  "EFE_ExtractFeatures32 L parse pa extractor data dataSize features numFeatures hs =
     (case (extractor, data, features) of
       (Some a, Some f, Some fs) \<Rightarrow>
         bnd (live_engine hs a) (\<lambda>e.
         let n = getDim e
         in if (scast numFeatures :: size_t) < n then Inr (EXIT_FAILURE, features, hs)
            else bnd (run_buffer L parse pa f (scast dataSize) e) (\<lambda>e.
              bnd (load_list (en_output e) 0 (unat (n * 4) div 4)) (\<lambda>vec.
              bnd (store_list fs 0 vec) (\<lambda>fs. Inr (EXIT_SUCCESS, Some fs, hs(a \<mapsto> e))))))
     | _ \<Rightarrow> Inr (EXIT_FAILURE, features, hs))"

definition EFE_Private_ExtractFeatures32FromFile ::
  "libraries \<Rightarrow> (bytes \<Rightarrow> parse_result) \<Rightarrow> (bytes \<Rightarrow> avast_result) \<Rightarrow> system \<Rightarrow>
   nat option \<Rightarrow> bytes \<Rightarrow> fl list option \<Rightarrow> u32 \<Rightarrow> engines \<Rightarrow> (u32 \<times> fl list option \<times> engines) res" where
  "EFE_Private_ExtractFeatures32FromFile L parse pa sys extractor filePath features numFeatures hs =
     (case (extractor, features) of
       (Some a, Some fs) \<Rightarrow>
         bnd (live_engine hs a) (\<lambda>e.
         let n = getDim e
         in if (scast numFeatures :: size_t) < n then Inr (EXIT_FAILURE, features, hs)
            else bnd (run_path L parse pa sys filePath e) (\<lambda>(e, v, err).
              if err \<noteq> None then Inr (EXIT_FAILURE, features, hs(a \<mapsto> e))
              else (case v of None \<Rightarrow> Inl Undefined | Some out \<Rightarrow>
                bnd (load_list out 0 (unat (n * 4) div 4)) (\<lambda>vec.
                bnd (store_list fs 0 vec) (\<lambda>fs. Inr (EXIT_SUCCESS, Some fs, hs(a \<mapsto> e)))))))
     | _ \<Rightarrow> Inr (EXIT_FAILURE, features, hs))"

text \<open>
  The path is built from the string up to its first zero; the conversion of a wide string, which
  depends on the locale, is a parameter and may throw.
\<close>

definition EFE_ExtractFeatures32FromFileA ::
  "libraries \<Rightarrow> (bytes \<Rightarrow> parse_result) \<Rightarrow> (bytes \<Rightarrow> avast_result) \<Rightarrow> system \<Rightarrow>
   nat option \<Rightarrow> bytes option \<Rightarrow> fl list option \<Rightarrow> u32 \<Rightarrow> engines \<Rightarrow> (u32 \<times> fl list option \<times> engines) res" where
  "EFE_ExtractFeatures32FromFileA L parse pa sys extractor filePath features numFeatures hs =
     (case filePath of None \<Rightarrow> Inr (EXIT_FAILURE, features, hs)
      | Some p \<Rightarrow> EFE_Private_ExtractFeatures32FromFile L parse pa sys extractor (c_str p) features numFeatures hs)"

definition EFE_ExtractFeatures32FromFileW ::
  "libraries \<Rightarrow> (bytes \<Rightarrow> parse_result) \<Rightarrow> (bytes \<Rightarrow> avast_result) \<Rightarrow> system \<Rightarrow> (u32 list \<Rightarrow> bytes res) \<Rightarrow>
   nat option \<Rightarrow> u32 list option \<Rightarrow> fl list option \<Rightarrow> u32 \<Rightarrow> engines \<Rightarrow> (u32 \<times> fl list option \<times> engines) res" where
  "EFE_ExtractFeatures32FromFileW L parse pa sys path_of_wide extractor filePath features numFeatures hs =
     (case filePath of None \<Rightarrow> Inr (EXIT_FAILURE, features, hs)
      | Some p \<Rightarrow> bnd (path_of_wide (takeWhile (\<lambda>c. c \<noteq> 0) p)) (\<lambda>path.
          EFE_Private_ExtractFeatures32FromFile L parse pa sys extractor path features numFeatures hs))"

section \<open>What a caller may rely on\<close>

text \<open>Every live engine of the process was built by \<open>EFE_Init\<close> and used through the interface.\<close>

definition engines_ok :: "libraries \<Rightarrow> (bytes \<Rightarrow> parse_result) \<Rightarrow> (bytes \<Rightarrow> avast_result) \<Rightarrow> engines \<Rightarrow> bool" where
  "engines_ok L parse pa hs \<longleftrightarrow> (\<forall>a e. hs a = Some e \<longrightarrow> engine_reach L parse pa e)"

lemma engines_ok_upd: "engines_ok L parse pa hs \<Longrightarrow> engine_reach L parse pa e \<Longrightarrow> engines_ok L parse pa (hs(a \<mapsto> e))"
  by (simp add: engines_ok_def)

lemma Init_ok: "engines_ok L parse pa hs \<Longrightarrow> constructed fts \<Longrightarrow> engines_ok L parse pa (snd (EFE_Init nn fts hs))"
  by (auto simp: EFE_Init_def engines_ok_upd reach_new split: option.split)

lemma Cleanup_ok: "engines_ok L parse pa hs \<Longrightarrow> EFE_Cleanup h hs = Inr hs' \<Longrightarrow> engines_ok L parse pa hs'"
  by (auto simp: EFE_Cleanup_def engines_ok_def live_engine_def split: option.splits if_splits)

text \<open>The test on the number of features: a negative number passes it.\<close>

lemma num_features_test: "(scast (k :: u32) :: size_t) < 2568 \<longleftrightarrow> 0 \<le> sint k \<and> sint k < 2568"
proof -
  have u: "uint (scast k :: size_t) = sint k mod 18446744073709551616"
    by (simp only: scast_eq uint_word_of_int) simp
  have b: "- 2147483648 \<le> sint k" "sint k < 2147483648" using sint_ge [of k] sint_lt [of k] by simp_all
  have "uint (scast k :: size_t) < 2568 \<longleftrightarrow> 0 \<le> sint k \<and> sint k < 2568"
  proof (cases "0 \<le> sint k")
    case True
    then have "sint k mod 18446744073709551616 = sint k" using b(2) by (intro mod_pos_pos_trivial) linarith+
    then show ?thesis using True u by presburger
  next
    case False
    have "(sint k + 18446744073709551616) mod 18446744073709551616 = sint k + 18446744073709551616"
      using False b(1) by (intro mod_pos_pos_trivial) linarith+
    then have "uint (scast k :: size_t) = sint k + 18446744073709551616" unfolding u mod_add_self2 .
    then show ?thesis using False b(1) by linarith
  qed
  then show ?thesis by (simp only: word_less_def uint_numeral) simp
qed

lemma run_buffer_whole: "length f < 2 ^ 31 \<Longrightarrow>
  run_buffer L parse pa f (scast (of_nat (length f) :: u32)) e = run_memory L parse pa f (of_nat (length f)) e"
proof -
  assume l: "length f < 2 ^ 31"
  have "sint (of_nat (length f) :: u32) = int (length f)" using l by (simp add: signed_of_nat signed_take_bit_int_eq_self)
  then have "(scast (of_nat (length f) :: u32) :: size_t) = of_nat (length f)" by (simp add: scast_eq)
  moreover have "unat (of_nat (length f) :: size_t) = length f" using l by (intro unat_of_nat_small) simp
  ultimately show ?thesis by (simp add: run_buffer_def)
qed

text \<open>
  C3. \<open>EFE_ExtractFeatures32\<close> on a live handle and a buffer of \<open>dataSize\<close> bytes. A count of features
  from 0 to 2567 is refused and nothing changes. Any other count, a negative one too, is taken to
  be enough: then the first 2568 cells of the output become the vector of the file, the cells after
  them are kept, and the handle stays usable; if the output is in fact shorter, the copy leaves it.
\<close>

theorem efe_extract_features:
  assumes "libraries_ok L" "parser_ok parse" "engines_ok L parse pa hs" "hs a = Some e" "length f < 2 ^ 31"
    and n: "n = of_nat (length f)"
  shows "if 0 \<le> sint numFeatures \<and> sint numFeatures < 2568 then
      EFE_ExtractFeatures32 L parse pa (Some a) (Some f) n (Some fs) numFeatures hs = Inr (EXIT_FAILURE, Some fs, hs)
    else if (\<exists>b. parse f = Parsed b) \<and> 0x68 < length f \<and> length f < 0x6c \<or> length fs < 2568 then
      EFE_ExtractFeatures32 L parse pa (Some a) (Some f) n (Some fs) numFeatures hs = Inl OutOfBounds
    else \<exists>t e'. new_PEFile parse pa f (of_nat (length f)) = Inr t \<and> engines_ok L parse pa (hs(a \<mapsto> e')) \<and>
      EFE_ExtractFeatures32 L parse pa (Some a) (Some f) n (Some fs) numFeatures hs =
        Inr (EXIT_SUCCESS, Some (all_features L t (blocks 4194304 f) @ drop 2568 fs), hs(a \<mapsto> e'))"
proof -
  have reach: "engine_reach L parse pa e" using assms(3,4) by (auto simp: engines_ok_def)
  have inv: "engine_inv L e" by (rule engine_reach_inv [OF reach assms(1,2)])
  have l61: "length f < 2 ^ 61" and l64: "length f < 2 ^ 64" using assms(5) by simp_all
  have dim: "getDim e = 2568" "unat (getDim e * 4) div 4 = 2568" using inv by (simp_all add: engine_inv_def getDim_def)
  note run = run_buffer_whole [OF assms(5), of L parse pa e, folded n]
  have unfold: "EFE_ExtractFeatures32 L parse pa (Some a) (Some f) n (Some fs) numFeatures hs =
      (if 0 \<le> sint numFeatures \<and> sint numFeatures < 2568 then Inr (EXIT_FAILURE, Some fs, hs)
       else bnd (run_memory L parse pa f (of_nat (length f)) e) (\<lambda>e. bnd (load_list (en_output e) 0 2568) (\<lambda>vec.
         bnd (store_list fs 0 vec) (\<lambda>fs. Inr (EXIT_SUCCESS, Some fs, hs(a \<mapsto> e))))))"
    by (simp add: EFE_ExtractFeatures32_def live_engine_def assms(4) dim num_features_test run Let_def)
  show ?thesis
  proof (cases "(\<exists>b. parse f = Parsed b) \<and> 0x68 < length f \<and> length f < 0x6c")
    case True
    then have "run_memory L parse pa f (of_nat (length f)) e = Inl OutOfBounds"
      using new_PEFile_cases [OF l64, of parse pa] by (simp add: run_memory_def)
    then show ?thesis using True by (simp add: unfold)
  next
    case False
    then obtain t where t: "new_PEFile parse pa f (of_nat (length f)) = Inr t"
      using new_PEFile_cases [OF l64, of parse pa] by auto
    then obtain e' where e': "run_memory L parse pa f (of_nat (length f)) e = Inr e'" "engine_inv L e'"
      "en_output e' = all_features L t (blocks 4194304 f)"
      using run_memory_result [OF assms(2) inv l61 t] by blast
    have len: "length (all_features L t (blocks 4194304 f)) = 2568" using e'(2,3) by (simp add: engine_inv_def)
    have ok: "engines_ok L parse pa (hs(a \<mapsto> e'))"
      by (rule engines_ok_upd [OF assms(3) reach_memory [OF reach l61 e'(1)]])
    show ?thesis
    proof (cases "length fs < 2568")
      case True
      then show ?thesis using e' len False by (simp add: unfold load_list_def store_list_def)
    next
      case False
      then show ?thesis using e' len t ok \<open>\<not> ((\<exists>b. parse f = Parsed b) \<and> 0x68 < length f \<and> length f < 0x6c)\<close>
        by (auto simp: unfold load_list_def store_list_def blit_def)
    qed
  qed
qed

text \<open>A negative count of features and a short output.\<close>

theorem efe_extract_features_witness:
  "EFE_ExtractFeatures32 example_libraries (\<lambda>_. Thrown) (\<lambda>_. None) (Some 0) (Some [0x4d, 0x5a]) 2
     (Some [fl_zero]) (- 1) [0 \<mapsto> engine_new example_objects] = Inl OutOfBounds \<and>
   EFE_ExtractFeatures32 example_libraries (\<lambda>_. Thrown) (\<lambda>_. None) (Some 0) (Some [0x4d, 0x5a]) 2
     (Some [fl_zero]) 1 [0 \<mapsto> engine_new example_objects] = Inr (EXIT_FAILURE, Some [fl_zero], [0 \<mapsto> engine_new example_objects])"
proof -
  have L: "libraries_ok example_libraries" and P: "parser_ok (\<lambda>_. Thrown)"
    by (simp_all add: libraries_ok_def example_libraries_def log2f_floor_ok find_readable_ok parser_ok_def)
  have hs: "engines_ok example_libraries (\<lambda>_. Thrown) (\<lambda>_. None) [0 \<mapsto> engine_new example_objects]"
    by (simp add: engines_ok_def reach_new [OF example_constructed])
  note ex = efe_extract_features [OF L P hs, of 0 "engine_new example_objects" "[0x4d, 0x5a]" 2 _ "[fl_zero]", simplified]
  show ?thesis using ex [of "- 1"] ex [of 1] by simp
qed

text \<open>The functions over a file: a failure leaves the output alone, and a null argument is a failure.\<close>

lemma run_path_engine:
  assumes "run_path L parse pa sys p e = Inr (e', v, err)" "err \<noteq> None"
  shows "e' = e"
  using run_path_cases [OF assms(1)] assms(2) by auto

lemma from_file_failure:
  assumes "EFE_ExtractFeatures32FromFileA L parse pa sys h path features k hs = Inr (EXIT_FAILURE, features', hs')"
  shows "features' = features \<and> hs' = hs"
proof -
  have ne: "EXIT_SUCCESS \<noteq> EXIT_FAILURE" by (simp add: EXIT_SUCCESS_def EXIT_FAILURE_def)
  have upd: "hs a = Some e \<Longrightarrow> hs(a \<mapsto> e) = hs" for a e by auto
  show ?thesis
    using assms ne run_path_engine upd
    by (fastforce simp: EFE_ExtractFeatures32FromFileA_def EFE_Private_ExtractFeatures32FromFile_def live_engine_def Let_def bnd_Inr_iff
        split: option.splits if_splits prod.splits)
qed

end
