(* ===== verification/LkList.thy ===== *)
theory LkList
  imports Prelude
begin

text \<open>
  \<open>lklist/src/lklist.c\<close>: the doubly linked list. A pointer to a node is an address or \<open>None\<close> for
  \<open>NULL\<close>; the memory maps the live addresses to nodes, whose data are the bytes behind the two
  pointers. An access through \<open>NULL\<close> or to a freed node is undefined. \<open>malloc\<close> is a parameter; the
  calls of the element callback are logged with the bytes they receive.
\<close>

section \<open>Memory\<close>

type_synonym node_ptr = "nat option"

record lk_node =
  nd_prev :: node_ptr
  nd_next :: node_ptr
  nd_data :: bytes

record lk_mem =
  mem_nodes :: "nat \<Rightarrow> lk_node option"
  mem_called :: "bytes list"

record lk_list =
  lk_head :: node_ptr
  lk_tail :: node_ptr
  lk_size :: size_t
  lk_dataSize :: size_t
  lk_freeElement :: bool

definition deref :: "lk_mem \<Rightarrow> node_ptr \<Rightarrow> lk_node res" where
  "deref m p = (case p of None \<Rightarrow> Inl Undefined
     | Some a \<Rightarrow> (case mem_nodes m a of None \<Rightarrow> Inl Undefined | Some n \<Rightarrow> Inr n))"

definition modify :: "node_ptr \<Rightarrow> (lk_node \<Rightarrow> lk_node) \<Rightarrow> lk_mem \<Rightarrow> lk_mem res" where
  "modify p f m = bnd (deref m p) (\<lambda>n. Inr (m\<lparr>mem_nodes := (mem_nodes m)(the p \<mapsto> f n)\<rparr>))"

definition free_node :: "node_ptr \<Rightarrow> lk_mem \<Rightarrow> lk_mem res" where
  "free_node p m = (case p of None \<Rightarrow> Inr m
     | Some a \<Rightarrow> bnd (deref m p) (\<lambda>n. Inr (m\<lparr>mem_nodes := (mem_nodes m)(a := None)\<rparr>)))"

section \<open>The operations\<close>

definition cz :: "lk_list \<Rightarrow> size_t \<Rightarrow> unit res" where
  "cz ll n = (if lk_dataSize ll \<noteq> n then Inl Exit else Inr ())"

text \<open>\<open>allocated\<close> says whether \<open>malloc\<close> found memory for the list object.\<close>

definition lkInit :: "bool \<Rightarrow> size_t \<Rightarrow> bool \<Rightarrow> lk_list option" where
  "lkInit allocated n elementFreeCallback = (if \<not> allocated then None
     else Some \<lparr>lk_head = None, lk_tail = None, lk_size = 0, lk_dataSize = n, lk_freeElement = elementFreeCallback\<rparr>)"

fun locate_loop :: "nat \<Rightarrow> node_ptr \<Rightarrow> lk_mem \<Rightarrow> node_ptr res" where
  "locate_loop 0 found m = Inr found"
| "locate_loop (Suc n) found m =
     (if found = None then Inr None else bnd (deref m found) (\<lambda>nd. locate_loop n (nd_next nd) m))"

definition lkLocate :: "lk_list \<Rightarrow> int \<Rightarrow> lk_mem \<Rightarrow> node_ptr res" where
  "lkLocate ll pos m = locate_loop (nat pos) (lk_head ll) m"

definition lkHead :: "lk_list \<Rightarrow> node_ptr" where "lkHead ll = lk_head ll"
definition lkTail :: "lk_list \<Rightarrow> node_ptr" where "lkTail ll = lk_tail ll"
definition lkSize :: "lk_list \<Rightarrow> size_t" where "lkSize ll = lk_size ll"

definition lkBefore :: "lk_mem \<Rightarrow> node_ptr \<Rightarrow> node_ptr res" where
  "lkBefore m node = map_res nd_prev (deref m node)"

definition lkAfter :: "lk_mem \<Rightarrow> node_ptr \<Rightarrow> node_ptr res" where
  "lkAfter m node = map_res nd_next (deref m node)"

text \<open>The pointer to the data gives access to the bytes behind the header of the node.\<close>

definition lkGetNodeDataPtr :: "lk_mem \<Rightarrow> node_ptr \<Rightarrow> bytes res" where
  "lkGetNodeDataPtr m node = map_res nd_data (deref m node)"

definition lkSetNodeData :: "lk_list \<Rightarrow> node_ptr \<Rightarrow> bytes \<Rightarrow> lk_mem \<Rightarrow> lk_mem res" where
  "lkSetNodeData ll node data m =
     bnd (load_list data 0 (unat (lk_dataSize ll))) (\<lambda>bs.
     bnd (lkGetNodeDataPtr m node) (\<lambda>old. bnd (store_list old 0 bs) (\<lambda>new.
     modify node (\<lambda>n. n\<lparr>nd_data := new\<rparr>) m)))"

text \<open>
  The node in a block of \<open>sizeof(LkNode) + dataSize\<close> bytes, a sum that may wrap around. What the
  fresh block holds is overwritten before it is read.
\<close>

definition fresh_node :: "lk_list \<Rightarrow> lk_node" where
  "fresh_node ll = \<lparr>nd_prev = None, nd_next = None, nd_data = replicate (unat (16 + lk_dataSize ll) - 16) 0\<rparr>"

definition link_node :: "lk_list \<Rightarrow> node_ptr \<Rightarrow> node_ptr \<Rightarrow> lk_mem \<Rightarrow> lk_mem res" where
  "link_node ll wh newNode m =
     (if lk_head ll = None then modify newNode (\<lambda>n. n\<lparr>nd_next := None, nd_prev := None\<rparr>) m
      else if wh = None then
        bnd (modify newNode (\<lambda>n. n\<lparr>nd_prev := lk_tail ll, nd_next := None\<rparr>) m) (\<lambda>m.
        if lk_tail ll \<noteq> None then modify (lk_tail ll) (\<lambda>n. n\<lparr>nd_next := newNode\<rparr>) m else Inr m)
      else
        bnd (deref m wh) (\<lambda>w.
        bnd (modify newNode (\<lambda>n. n\<lparr>nd_next := wh, nd_prev := nd_prev w\<rparr>) m) (\<lambda>m.
        bnd (if nd_prev w \<noteq> None then modify (nd_prev w) (\<lambda>n. n\<lparr>nd_next := newNode\<rparr>) m else Inr m) (\<lambda>m.
        modify wh (\<lambda>n. n\<lparr>nd_prev := newNode\<rparr>) m))))"

definition lkInsert ::
  "(lk_mem \<Rightarrow> nat option) \<Rightarrow> lk_list \<Rightarrow> node_ptr \<Rightarrow> bytes \<Rightarrow> lk_mem \<Rightarrow> (bool \<times> lk_list \<times> lk_mem) res" where
  "lkInsert malloc ll wh data m =
     (let newNode = malloc m;
          m = (case newNode of None \<Rightarrow> m | Some a \<Rightarrow> m\<lparr>mem_nodes := (mem_nodes m)(a \<mapsto> fresh_node ll)\<rparr>)
      in bnd (lkSetNodeData ll newNode data m) (\<lambda>m.
         if newNode = None then Inr (False, ll, m)
         else bnd (link_node ll wh newNode m) (\<lambda>m. bnd (deref m newNode) (\<lambda>n.
           let ll = (if nd_next n = None then ll\<lparr>lk_tail := newNode\<rparr> else ll);
               ll = (if nd_prev n = None then ll\<lparr>lk_head := newNode\<rparr> else ll)
           in Inr (True, ll\<lparr>lk_size := lk_size ll + 1\<rparr>, m)))))"

definition call_free :: "lk_list \<Rightarrow> node_ptr \<Rightarrow> lk_mem \<Rightarrow> lk_mem res" where
  "call_free ll p m = (if lk_freeElement ll
     then bnd (lkGetNodeDataPtr m p) (\<lambda>v. Inr (m\<lparr>mem_called := mem_called m @ [v]\<rparr>)) else Inr m)"

definition lkRemove :: "lk_list \<Rightarrow> node_ptr \<Rightarrow> lk_mem \<Rightarrow> (lk_list \<times> lk_mem) res" where
  "lkRemove ll which m =
     bnd (deref m which) (\<lambda>w.
     let before = nd_prev w; after = nd_next w
     in bnd (if before = None then Inr (ll\<lparr>lk_head := after\<rparr>, m)
             else map_res (Pair ll) (modify before (\<lambda>n. n\<lparr>nd_next := after\<rparr>) m)) (\<lambda>(ll, m).
        bnd (if after = None then Inr (ll\<lparr>lk_tail := before\<rparr>, m)
             else map_res (Pair ll) (modify after (\<lambda>n. n\<lparr>nd_prev := before\<rparr>) m)) (\<lambda>(ll, m).
        bnd (call_free ll which m) (\<lambda>m.
        bnd (free_node which m) (\<lambda>m. Inr (ll\<lparr>lk_size := lk_size ll - 1\<rparr>, m))))))"

definition lkNext :: "lk_mem \<Rightarrow> node_ptr \<Rightarrow> (bool \<times> node_ptr) res" where
  "lkNext m current = (if current = None then Inr (False, current)
     else bnd (deref m current) (\<lambda>n. Inr (nd_next n \<noteq> None, nd_next n)))"

text \<open>The loop that both searches run; the index is an \<open>int\<close>, its overflow undefined.\<close>

partial_function (option) find_loop ::
  "(node_ptr \<Rightarrow> lk_mem \<Rightarrow> bool res) \<Rightarrow> node_ptr \<Rightarrow> int \<Rightarrow> lk_mem \<Rightarrow> int res option" where
  [code]: "find_loop predicate current i m = (case predicate current m of
     Inl e \<Rightarrow> Some (Inl e)
   | Inr found \<Rightarrow> if found then Some (Inr i)
       else if i = 2147483647 then Some (Inl Undefined)
       else (case lkNext m current of
         Inl e \<Rightarrow> Some (Inl e)
       | Inr (again, current') \<Rightarrow>
           if again then find_loop predicate current' (i + 1) m else Some (Inr (- 1))))"

definition lkFind :: "lk_list \<Rightarrow> (node_ptr \<Rightarrow> lk_mem \<Rightarrow> bool res) \<Rightarrow> lk_mem \<Rightarrow> int res" where
  "lkFind ll predicate m = (if lk_size ll = 0 then Inr (- 1)
     else returned (find_loop predicate (lkHead ll) 0 m))"

definition same_data :: "lk_list \<Rightarrow> bytes \<Rightarrow> node_ptr \<Rightarrow> lk_mem \<Rightarrow> bool res" where
  "same_data ll data current m =
     bnd (lkGetNodeDataPtr m current) (\<lambda>v.
     bnd (load_list v 0 (unat (lk_dataSize ll))) (\<lambda>x.
     bnd (load_list data 0 (unat (lk_dataSize ll))) (\<lambda>y. Inr (x = y))))"

definition lkIndexOf :: "lk_list \<Rightarrow> bytes \<Rightarrow> lk_mem \<Rightarrow> int res" where
  "lkIndexOf ll data m = (if lk_size ll = 0 then Inr (- 1)
     else returned (find_loop (same_data ll data) (lkHead ll) 0 m))"

partial_function (option) clear_loop ::
  "lk_list \<Rightarrow> node_ptr \<Rightarrow> node_ptr \<Rightarrow> lk_mem \<Rightarrow> (node_ptr \<times> lk_mem) res option" where
  [code]: "clear_loop ll current before m = (case lkNext m current of
     Inl e \<Rightarrow> Some (Inl e)
   | Inr (again, current') \<Rightarrow>
       if \<not> again then Some (Inr (current', m))
       else (case (if before \<noteq> None then bnd (call_free ll before m) (free_node before) else Inr m) of
         Inl e \<Rightarrow> Some (Inl e)
       | Inr m' \<Rightarrow> clear_loop ll current' current' m'))"

definition lkClear :: "lk_list \<Rightarrow> lk_mem \<Rightarrow> (lk_list \<times> lk_mem) res" where
  "lkClear ll m = bnd (returned (clear_loop ll (lkHead ll) None m)) (\<lambda>(current, m).
     bnd (if current \<noteq> None then bnd (call_free ll current m) (free_node current) else Inr m) (\<lambda>m.
     Inr (ll\<lparr>lk_size := 0, lk_head := None, lk_tail := None\<rparr>, m)))"

text \<open>The list object itself is freed, so nothing of it is returned.\<close>

definition lkDestroy :: "lk_list \<Rightarrow> lk_mem \<Rightarrow> lk_mem res" where
  "lkDestroy ll m = map_res snd (lkClear ll m)"

partial_function (option) copy_loop ::
  "lk_list \<Rightarrow> node_ptr \<Rightarrow> size_t \<Rightarrow> bytes \<Rightarrow> lk_mem \<Rightarrow> bytes res option" where
  [code]: "copy_loop ll current offset dest m = (case
     bnd (lkGetNodeDataPtr m current) (\<lambda>v. bnd (load_list v 0 (unat (lk_dataSize ll))) (store_list dest (unat offset))) of
     Inl e \<Rightarrow> Some (Inl e)
   | Inr dest' \<Rightarrow> (case lkNext m current of
       Inl e \<Rightarrow> Some (Inl e)
     | Inr (again, current') \<Rightarrow>
         if again then copy_loop ll current' (offset + lk_dataSize ll) dest' m else Some (Inr dest')))"

definition lkCopyToArray :: "lk_list \<Rightarrow> bytes \<Rightarrow> lk_mem \<Rightarrow> bytes res" where
  "lkCopyToArray ll dest m = (if lkSize ll = 0 then Inr dest
     else returned (copy_loop ll (lkHead ll) 0 dest m))"

definition lkCopyToNewArray :: "bool \<Rightarrow> lk_list \<Rightarrow> lk_mem \<Rightarrow> bytes option res" where
  "lkCopyToNewArray allocated ll m =
     (let arrSize = lkSize ll * lk_dataSize ll
      in if arrSize = 0 then Inr None
         else if allocated then map_res Some (lkCopyToArray ll (replicate (unat arrSize) 0) m)
         else Inl Undefined)"

section \<open>Chains of nodes\<close>

text \<open>
  The addresses \<open>as\<close> form a chain: each node points back to the one before it, the first to \<open>p\<close>,
  and on to the one after it, the last to \<open>q\<close>.
\<close>

fun first :: "nat list \<Rightarrow> node_ptr \<Rightarrow> node_ptr" where
  "first [] q = q"
| "first (a # as) q = Some a"

fun final :: "node_ptr \<Rightarrow> nat list \<Rightarrow> node_ptr" where
  "final p [] = p"
| "final p (a # as) = final (Some a) as"

fun chain :: "(nat \<Rightarrow> lk_node option) \<Rightarrow> node_ptr \<Rightarrow> nat list \<Rightarrow> node_ptr \<Rightarrow> bool" where
  "chain h p [] q \<longleftrightarrow> True"
| "chain h p (a # as) q \<longleftrightarrow>
     (\<exists>n. h a = Some n \<and> nd_prev n = p \<and> nd_next n = first as q) \<and> chain h (Some a) as q"

definition relink_next :: "node_ptr \<Rightarrow> node_ptr \<Rightarrow> (nat \<Rightarrow> lk_node option) \<Rightarrow> nat \<Rightarrow> lk_node option" where
  "relink_next p v h = (case p of None \<Rightarrow> h | Some a \<Rightarrow> h(a \<mapsto> (the (h a))\<lparr>nd_next := v\<rparr>))"

definition relink_prev :: "node_ptr \<Rightarrow> node_ptr \<Rightarrow> (nat \<Rightarrow> lk_node option) \<Rightarrow> nat \<Rightarrow> lk_node option" where
  "relink_prev p v h = (case p of None \<Rightarrow> h | Some a \<Rightarrow> h(a \<mapsto> (the (h a))\<lparr>nd_prev := v\<rparr>))"

lemma first_append [simp]: "first (xs @ ys) q = first xs (first ys q)"
  by (cases xs) simp_all

lemma final_append [simp]: "final p (xs @ ys) = final (final p xs) ys"
  by (induction xs arbitrary: p) simp_all

lemma first_None [simp]: "first as None = None \<longleftrightarrow> as = []"
  by (cases as) simp_all

lemma first_Some_neq [simp]: "first as (Some b) \<noteq> None"
  by (cases as) simp_all

lemma first_other: "as \<noteq> [] \<Longrightarrow> first as q = first as q'"
  by (cases as) simp_all

lemma final_other: "as \<noteq> [] \<Longrightarrow> final p as = final p' as"
  by (cases as) simp_all

lemma first_Some: "first as None = Some a \<Longrightarrow> \<exists>bs. as = a # bs"
  by (cases as) simp_all

lemma final_Some: "final None as = Some a \<Longrightarrow> \<exists>bs. as = bs @ [a]"
  by (cases as rule: rev_cases) simp_all

lemma final_None [simp]: "final None as = None \<longleftrightarrow> as = []"
  by (cases as rule: rev_cases) simp_all

lemma chain_append [simp]: "chain h p (xs @ ys) q \<longleftrightarrow> chain h p xs (first ys q) \<and> chain h (final p xs) ys q"
  by (induction xs arbitrary: p) auto

lemma chain_upd [simp]: "a \<notin> set as \<Longrightarrow> chain (h(a := x)) p as q = chain h p as q"
  by (induction as arbitrary: p) auto

lemma chain_live: "chain h p as q \<Longrightarrow> a \<in> set as \<Longrightarrow> \<exists>n. h a = Some n"
  by (induction as arbitrary: p) auto

lemma chain_relink_next:
  assumes "chain h p as q" "distinct as"
  shows "chain (relink_next (final None as) q' h) p as q'"
proof (cases as rule: rev_cases)
  case (snoc bs b)
  then show ?thesis using assms by (auto simp: relink_next_def)
qed simp

lemma chain_relink_prev:
  assumes "chain h p as q" "distinct as"
  shows "chain (relink_prev (first as None) p' h) p' as q"
  using assms by (cases as) (auto simp: relink_prev_def)

lemma relink_next_other: "p \<noteq> Some a \<Longrightarrow> relink_next p v h a = h a"
  by (auto simp: relink_next_def split: option.splits)

lemma relink_prev_other: "p \<noteq> Some a \<Longrightarrow> relink_prev p v h a = h a"
  by (auto simp: relink_prev_def split: option.splits)

lemma chain_frame: "(\<And>a. a \<in> set as \<Longrightarrow> h' a = h a) \<Longrightarrow> chain h' p as q = chain h p as q"
  by (induction as arbitrary: p) auto

lemma relink_chain:
  assumes "\<And>a. p = Some a \<Longrightarrow> a \<notin> set as"
  shows "chain (relink_next p v h) q as r = chain h q as r" "chain (relink_prev p v h) q as r = chain h q as r"
  using assms by (auto intro!: chain_frame relink_next_other relink_prev_other)

lemma relink_data:
  "map_option nd_data (relink_next p v h a) = map_option nd_data (h a)"
  "map_option nd_data (relink_prev p v h a) = map_option nd_data (h a)"
  if "p = Some a \<Longrightarrow> h a \<noteq> None"
  using that by (auto simp: relink_next_def relink_prev_def split: option.splits)

text \<open>The list \<open>ll\<close> holds the values \<open>vs\<close> in the nodes \<open>as\<close>.\<close>

definition data_at :: "(nat \<Rightarrow> lk_node option) \<Rightarrow> nat \<Rightarrow> bytes" where
  "data_at h a = nd_data (the (h a))"

definition lk_holds :: "lk_list \<Rightarrow> lk_mem \<Rightarrow> nat list \<Rightarrow> bytes list \<Rightarrow> bool" where
  "lk_holds ll m as vs \<longleftrightarrow> distinct as \<and> chain (mem_nodes m) None as None \<and>
     lk_head ll = first as None \<and> lk_tail ll = final None as \<and>
     lk_size ll = of_nat (length as) \<and> map (data_at (mem_nodes m)) as = vs \<and>
     (\<forall>v \<in> set vs. length v = unat (lk_dataSize ll)) \<and> unat (lk_dataSize ll) + 16 < 2 ^ 64"

section \<open>What each operation does to a list\<close>

lemma deref_Some [simp]: "mem_nodes m a = Some n \<Longrightarrow> deref m (Some a) = Inr n"
  by (simp add: deref_def)

lemma modify_Some [simp]:
  "mem_nodes m a = Some n \<Longrightarrow> modify (Some a) f m = Inr (m\<lparr>mem_nodes := (mem_nodes m)(a \<mapsto> f n)\<rparr>)"
  by (simp add: modify_def)

lemma modify_next:
  "p = Some a \<Longrightarrow> mem_nodes m a = Some n \<Longrightarrow>
   modify p (\<lambda>n. n\<lparr>nd_next := v\<rparr>) m = Inr (m\<lparr>mem_nodes := relink_next p v (mem_nodes m)\<rparr>)"
  by (simp add: relink_next_def)

lemma modify_prev:
  "p = Some a \<Longrightarrow> mem_nodes m a = Some n \<Longrightarrow>
   modify p (\<lambda>n. n\<lparr>nd_prev := v\<rparr>) m = Inr (m\<lparr>mem_nodes := relink_prev p v (mem_nodes m)\<rparr>)"
  by (simp add: relink_prev_def)

lemma locate_loop_chain:
  "chain (mem_nodes m) p as None \<Longrightarrow> locate_loop n (first as None) m = Inr (first (drop n as) None)"
proof (induction n arbitrary: p as)
  case (Suc n)
  then show ?case by (cases as) auto
qed simp

lemma lkLocate_holds: "lk_holds ll m as vs \<Longrightarrow> lkLocate ll pos m = Inr (first (drop (nat pos) as) None)"
  by (auto simp: lkLocate_def lk_holds_def locate_loop_chain)

lemma lkSetNodeData_live:
  assumes "mem_nodes m a = Some n" "length (nd_data n) = unat (lk_dataSize ll)" "length v = unat (lk_dataSize ll)"
  shows "lkSetNodeData ll (Some a) v m = Inr (m\<lparr>mem_nodes := (mem_nodes m)(a \<mapsto> n\<lparr>nd_data := v\<rparr>)\<rparr>)"
  using assms by (simp add: lkSetNodeData_def lkGetNodeDataPtr_def load_list_def store_list_def blit_whole)

lemma final_in: "final None xs = Some b \<Longrightarrow> b \<in> set xs"
  using final_Some by fastforce

lemma link_node_value:
  assumes "distinct (xs @ ys)" "chain (mem_nodes m) None (xs @ ys) None" "a \<notin> set (xs @ ys)" "mem_nodes m a = Some n"
    and "lk_head ll = first (xs @ ys) None" "lk_tail ll = final None (xs @ ys)"
  shows "link_node ll (first ys None) (Some a) m =
    Inr (m\<lparr>mem_nodes := relink_prev (first ys None) (Some a) (relink_next (final None xs) (Some a)
      ((mem_nodes m)(a \<mapsto> n\<lparr>nd_prev := final None xs, nd_next := first ys None\<rparr>)))\<rparr>)"
proof (cases ys)
  case Nil
  show ?thesis
  proof (cases "final None xs")
    case None
    then show ?thesis using assms Nil by (cases n) (simp add: link_node_def relink_next_def relink_prev_def)
  next
    case (Some b)
    then obtain bs nb where b: "xs = bs @ [b]" "mem_nodes m b = Some nb" "b \<noteq> a"
      using assms(2,3) final_Some [OF Some] by auto
    then show ?thesis using assms Nil Some by (simp add: link_node_def relink_next_def relink_prev_def)
  qed
next
  case (Cons w zs)
  then obtain nw where w: "mem_nodes m w = Some nw" "nd_prev nw = final None xs" "w \<noteq> a" using assms(2,3) by auto
  have head: "lk_head ll \<noteq> None" using assms(5) Cons by simp
  show ?thesis
  proof (cases "final None xs")
    case None
    then show ?thesis using assms Cons w head by (cases n) (simp add: link_node_def relink_next_def relink_prev_def)
  next
    case (Some b)
    then obtain bs nb where b: "xs = bs @ [b]" "mem_nodes m b = Some nb" "b \<noteq> a" "b \<noteq> w"
      using assms(1,2,3) final_Some [OF Some] Cons by auto
    then show ?thesis using assms Cons w head Some by (cases n) (simp add: link_node_def relink_next_def relink_prev_def)
  qed
qed

lemma chain_insert:
  assumes "distinct (xs @ ys)" "chain h None (xs @ ys) None" "a \<notin> set (xs @ ys)"
    and "nd_prev n = final None xs" "nd_next n = first ys None"
    and h': "h' = relink_prev (first ys None) (Some a) (relink_next (final None xs) (Some a) (h(a \<mapsto> n)))"
  shows "chain h' None (xs @ a # ys) None" "h' a = Some n"
    "b \<in> set (xs @ ys) \<Longrightarrow> data_at h' b = data_at h b" "b \<notin> set (a # xs @ ys) \<Longrightarrow> h' b = h b"
proof -
  let ?h1 = "h(a \<mapsto> n)"
  let ?h2 = "relink_next (final None xs) (Some a) ?h1"
  have F: "first ys None = Some c \<Longrightarrow> c \<in> set ys" for c by (cases ys) simp_all
  have a: "first ys None \<noteq> Some a" "final None xs \<noteq> Some a" using assms(3) F final_in by auto
  have live: "c \<in> set (xs @ ys) \<Longrightarrow> h c \<noteq> None" for c using chain_live [OF assms(2)] by auto
  show n: "h' a = Some n" using a by (simp add: h' relink_prev_other relink_next_other)
  have "chain ?h1 None xs (first ys None)" "chain ?h1 (final None xs) ys None" using assms(2,3) by auto
  then have x2: "chain ?h2 None xs (Some a)" using assms(1) by (auto intro: chain_relink_next)
  have y2: "chain ?h2 (final None xs) ys None"
    using \<open>chain ?h1 (final None xs) ys None\<close> assms(1) by (subst relink_chain) (auto dest: final_in)
  have y3: "chain h' (Some a) ys None" unfolding h' using y2 assms(1) by (auto intro: chain_relink_prev)
  have x3: "chain h' None xs (Some a)"
    using x2 assms(1) unfolding h' by (subst relink_chain) (auto dest: F)
  show "chain h' None (xs @ a # ys) None" using x3 y3 n assms(4,5) by simp
  show "data_at h' b = data_at h b" if b: "b \<in> set (xs @ ys)"
  proof -
    have "?h1 b = h b" using b assms(3) by auto
    moreover have "?h2 b \<noteq> None" using calculation live [OF b] by (auto simp: relink_next_def split: option.splits)
    ultimately have "map_option nd_data (h' b) = map_option nd_data (h b)" "h' b \<noteq> None"
      using live [OF b] relink_data [of _ b] by (auto simp: h' relink_prev_def relink_next_def split: option.splits)
    then show ?thesis by (cases "h b"; cases "h' b") (simp_all add: data_at_def)
  qed
  show "h' b = h b" if "b \<notin> set (a # xs @ ys)"
    using that F final_in [of xs] by (auto simp: h' relink_prev_def relink_next_def split: option.splits)
qed

lemma fresh_node_data: "unat (lk_dataSize ll) + 16 < 2 ^ 64 \<Longrightarrow> length (nd_data (fresh_node ll)) = unat (lk_dataSize ll)"
  by (simp add: fresh_node_def unat_word_ariths)

text \<open>What an operation leaves alone: the callback, the data size and every other node.\<close>

definition lk_frame :: "lk_list \<Rightarrow> lk_list \<Rightarrow> bool" where
  "lk_frame ll ll' \<longleftrightarrow> lk_dataSize ll' = lk_dataSize ll \<and> lk_freeElement ll' = lk_freeElement ll"

lemma lkInsert_holds:
  assumes H: "lk_holds ll m (xs @ ys) (us @ vs)" "length xs = length us"
    and a: "malloc m = Some a" "mem_nodes m a = None" and v: "length v = unat (lk_dataSize ll)"
  shows "\<exists>ll' m'. lkInsert malloc ll (first ys None) v m = Inr (True, ll', m') \<and>
    lk_holds ll' m' (xs @ a # ys) (us @ v # vs) \<and> lk_frame ll ll' \<and> mem_called m' = mem_called m \<and>
    (\<forall>b. b \<notin> set (a # xs @ ys) \<longrightarrow> mem_nodes m' b = mem_nodes m b)"
proof -
  let ?h = "mem_nodes m" and ?n = "(fresh_node ll)\<lparr>nd_data := v\<rparr>"
  let ?m1 = "m\<lparr>mem_nodes := ?h(a \<mapsto> fresh_node ll)\<rparr>" and ?m2 = "m\<lparr>mem_nodes := ?h(a \<mapsto> ?n)\<rparr>"
  let ?n' = "?n\<lparr>nd_prev := final None xs, nd_next := first ys None\<rparr>"
  let ?h' = "relink_prev (first ys None) (Some a) (relink_next (final None xs) (Some a) (?h(a \<mapsto> ?n')))"
  have ll: "distinct (xs @ ys)" "chain ?h None (xs @ ys) None" "lk_head ll = first (xs @ ys) None"
    "lk_tail ll = final None (xs @ ys)" "lk_size ll = of_nat (length (xs @ ys))"
    "map (data_at ?h) xs = us" "map (data_at ?h) ys = vs" "\<forall>v \<in> set (us @ vs). length v = unat (lk_dataSize ll)"
    "unat (lk_dataSize ll) + 16 < 2 ^ 64"
    using H by (auto simp: lk_holds_def append_eq_append_conv)
  have fresh: "a \<notin> set (xs @ ys)" using chain_live [OF ll(2)] a(2) by fastforce
  have set1: "lkSetNodeData ll (Some a) v ?m1 = Inr ?m2"
    using lkSetNodeData_live [of ?m1 a "fresh_node ll" ll v] fresh_node_data [OF ll(9)] v by simp
  have "chain (mem_nodes ?m2) None (xs @ ys) None" using ll(2) fresh by simp
  then have link: "link_node ll (first ys None) (Some a) ?m2 = Inr (m\<lparr>mem_nodes := ?h'\<rparr>)"
    using link_node_value [of xs ys ?m2 a ?n ll] ll(1,3,4) fresh by simp
  note ins = chain_insert [OF ll(1,2) fresh, where n = ?n' and h' = ?h', simplified]
  have prev: "nd_prev ?n' = final None xs" "nd_next ?n' = first ys None" by simp_all
  have der: "deref (m\<lparr>mem_nodes := ?h'\<rparr>) (Some a) = Inr ?n'" using ins(2) by simp
  define ll1 where "ll1 = (if ys = [] then ll\<lparr>lk_tail := Some a\<rparr> else ll)"
  define ll2 where "ll2 = (if xs = [] then ll1\<lparr>lk_head := Some a\<rparr> else ll1)"
  have fields: "lk_head ll2 = first (xs @ a # ys) None" "lk_tail ll2 = final None (xs @ a # ys)"
    "lk_size ll2 = lk_size ll" "lk_frame ll ll2"
    using ll(3,4) first_other [of xs "Some a" "first ys None"] final_other [of ys "Some a" "final None xs"]
    by (auto simp: ll1_def ll2_def lk_frame_def)
  have "lkInsert malloc ll (first ys None) v m = Inr (True, ll2\<lparr>lk_size := lk_size ll2 + 1\<rparr>, m\<lparr>mem_nodes := ?h'\<rparr>)"
    by (simp add: lkInsert_def a(1) set1 link der ll1_def ll2_def Let_def)
  moreover have "map (data_at ?h') xs = map (data_at ?h) xs" "map (data_at ?h') ys = map (data_at ?h) ys"
    using ins(3) by (intro map_cong; simp)+
  then have "map (data_at ?h') (xs @ a # ys) = us @ v # vs" using ll(6,7) ins(2) by (simp add: data_at_def [of _ a])
  moreover have "distinct (xs @ a # ys)" using ll(1) fresh by auto
  ultimately show ?thesis
    using fields ins(1,4) ll(5,8,9) v by (auto simp: lk_holds_def lk_frame_def)
qed

lemma chain_remove:
  assumes "distinct (xs @ w # ys)" "chain h None (xs @ w # ys) None"
    and h': "h' = relink_prev (first ys None) (final None xs) (relink_next (final None xs) (first ys None) h)"
  shows "chain (h'(w := None)) None (xs @ ys) None" "h' w = h w"
    "b \<in> set (xs @ ys) \<Longrightarrow> data_at h' b = data_at h b" "b \<notin> set (xs @ ys) \<Longrightarrow> h' b = h b"
proof -
  let ?h1 = "relink_next (final None xs) (first ys None) h"
  have F: "first ys None = Some c \<Longrightarrow> c \<in> set ys" for c by (cases ys) simp_all
  have live: "c \<in> set (xs @ ys) \<Longrightarrow> h c \<noteq> None" for c using chain_live [OF assms(2)] by auto
  have "chain ?h1 None xs (first ys None)" using assms(1,2) by (auto intro: chain_relink_next)
  then have x: "chain h' None xs (first ys None)"
    using assms(1) unfolding h' by (subst relink_chain) (auto dest: F)
  have "chain ?h1 (Some w) ys None" using assms(1,2) by (subst relink_chain) (auto dest: final_in)
  then have "chain h' (final None xs) ys None" using assms(1) unfolding h' by (auto intro: chain_relink_prev)
  then show "chain (h'(w := None)) None (xs @ ys) None" using x assms(1) by simp
  show other: "h' b = h b" if "b \<notin> set (xs @ ys)" for b
    using that F final_in [of xs] by (auto simp: h' relink_prev_def relink_next_def split: option.splits)
  show "h' w = h w" using assms(1) by (intro other) auto
  show "data_at h' b = data_at h b" if b: "b \<in> set (xs @ ys)"
  proof -
    have "?h1 b \<noteq> None" using live [OF b] by (auto simp: relink_next_def split: option.splits)
    then have "map_option nd_data (h' b) = map_option nd_data (h b)" "h' b \<noteq> None"
      using live [OF b] relink_data [of _ b] by (auto simp: h' relink_prev_def relink_next_def split: option.splits)
    then show ?thesis by (cases "h b"; cases "h' b") (simp_all add: data_at_def)
  qed
qed

lemma call_free_live:
  "mem_nodes m a = Some n \<Longrightarrow>
   call_free ll (Some a) m = Inr (m\<lparr>mem_called := mem_called m @ (if lk_freeElement ll then [nd_data n] else [])\<rparr>)"
  by (simp add: call_free_def lkGetNodeDataPtr_def)

lemma free_node_live: "mem_nodes m a = Some n \<Longrightarrow> free_node (Some a) m = Inr (m\<lparr>mem_nodes := (mem_nodes m)(a := None)\<rparr>)"
  by (simp add: free_node_def)

lemma lkRemove_holds:
  assumes H: "lk_holds ll m (xs @ w # ys) (us @ v # vs)" "length xs = length us"
  shows "\<exists>ll' m'. lkRemove ll (Some w) m = Inr (ll', m') \<and> lk_holds ll' m' (xs @ ys) (us @ vs) \<and> lk_frame ll ll' \<and>
    mem_called m' = mem_called m @ (if lk_freeElement ll then [v] else []) \<and> mem_nodes m' w = None \<and>
    (\<forall>b. b \<notin> set (xs @ w # ys) \<longrightarrow> mem_nodes m' b = mem_nodes m b)"
proof -
  let ?h = "mem_nodes m" and ?b = "final None xs" and ?a = "first ys None"
  let ?h1 = "relink_next ?b ?a ?h"
  let ?h' = "relink_prev ?a ?b ?h1"
  have ll: "distinct (xs @ w # ys)" "chain ?h None (xs @ w # ys) None" "lk_head ll = first (xs @ w # ys) None"
    "lk_tail ll = final None (xs @ w # ys)" "lk_size ll = of_nat (length (xs @ w # ys))"
    "map (data_at ?h) xs = us" "data_at ?h w = v" "map (data_at ?h) ys = vs"
    "\<forall>v \<in> set (us @ v # vs). length v = unat (lk_dataSize ll)" "unat (lk_dataSize ll) + 16 < 2 ^ 64"
    using H by (auto simp: lk_holds_def append_eq_append_conv)
  have live: "c \<in> set (xs @ ys) \<Longrightarrow> \<exists>n. ?h c = Some n" for c using chain_live [OF ll(2)] by auto
  obtain nw where w: "?h w = Some nw" "nd_prev nw = ?b" "nd_next nw = ?a" using ll(2) by auto
  have nv: "nd_data nw = v" using ll(7) w(1) by (simp add: data_at_def)
  note rem = chain_remove [OF ll(1,2) refl]
  define ll1 where "ll1 = (if ?b = None then ll\<lparr>lk_head := ?a\<rparr> else ll)"
  define ll2 where "ll2 = (if ?a = None then ll1\<lparr>lk_tail := ?b\<rparr> else ll1)"
  have s1: "(if ?b = None then Inr (ll\<lparr>lk_head := ?a\<rparr>, m) else map_res (Pair ll) (modify ?b (\<lambda>n. n\<lparr>nd_next := ?a\<rparr>) m)) =
      Inr (ll1, m\<lparr>mem_nodes := ?h1\<rparr>)"
  proof (cases ?b)
    case (Some c)
    then have "c \<in> set (xs @ ys)" by (auto dest: final_in)
    then show ?thesis using live [of c] modify_next [OF Some, of m] Some by (auto simp: ll1_def)
  qed (simp add: ll1_def relink_next_def)
  have s2: "(if ?a = None then Inr (ll1\<lparr>lk_tail := ?b\<rparr>, m1) else map_res (Pair ll1) (modify ?a (\<lambda>n. n\<lparr>nd_prev := ?b\<rparr>) m1)) =
      Inr (ll2, m\<lparr>mem_nodes := ?h'\<rparr>)" if m1: "m1 = m\<lparr>mem_nodes := ?h1\<rparr>" for m1
  proof (cases ?a)
    case (Some c)
    then obtain zs where "ys = c # zs" using first_Some by blast
    then have "c \<in> set (xs @ ys)" "?b \<noteq> Some c" using ll(1) by (auto dest: final_in)
    then show ?thesis using live [of c] modify_prev [OF Some, of m1] Some by (auto simp: ll2_def m1 relink_next_other)
  qed (simp add: ll2_def m1 relink_prev_def)
  have w': "?h' w = Some nw" using rem(2) w(1) by simp
  let ?calls = "mem_called m @ (if lk_freeElement ll then [v] else [])"
  let ?m' = "m\<lparr>mem_nodes := ?h'(w := None), mem_called := ?calls\<rparr>"
  have fr: "lk_freeElement ll2 = lk_freeElement ll" by (simp add: ll1_def ll2_def)
  have s3: "bnd (call_free ll2 (Some w) (m\<lparr>mem_nodes := ?h'\<rparr>)) (\<lambda>m. bnd (free_node (Some w) m) (\<lambda>m. Inr (ll2\<lparr>lk_size := lk_size ll2 - 1\<rparr>, m))) =
      Inr (ll2\<lparr>lk_size := lk_size ll2 - 1\<rparr>, ?m')"
    using w' nv fr by (simp add: call_free_live free_node_live)
  have "lkRemove ll (Some w) m = Inr (ll2\<lparr>lk_size := lk_size ll2 - 1\<rparr>, ?m')"
    unfolding lkRemove_def deref_Some [of m w nw, OF w(1)] w(2,3) Let_def bnd.simps s1 prod.case s2 [OF refl] s3 by simp
  moreover have "map (data_at (?h'(w := None))) (xs @ ys) = us @ vs"
    using rem(3) ll(1,6,8) by (auto simp: data_at_def)
  moreover have "lk_head ll2 = first (xs @ ys) None" "lk_tail ll2 = final None (xs @ ys)" "lk_size ll2 = lk_size ll" "lk_frame ll ll2"
    using ll(3,4) first_other [of xs "Some w" "first ys None"] final_other [of ys "Some w" "final None xs"]
    by (auto simp: ll1_def ll2_def lk_frame_def)
  ultimately show ?thesis
    using rem(1,4) ll(1,5,9,10) by (auto simp: lk_holds_def lk_frame_def)
qed

lemma lkSetNodeData_holds:
  assumes H: "lk_holds ll m as vs" "i < length as" and v: "length v = unat (lk_dataSize ll)"
  shows "\<exists>m'. lkSetNodeData ll (Some (as ! i)) v m = Inr m' \<and> lk_holds ll m' as (vs[i := v]) \<and>
    mem_called m' = mem_called m \<and> (\<forall>b. b \<notin> set as \<longrightarrow> mem_nodes m' b = mem_nodes m b) \<and>
    dom (mem_nodes m') = dom (mem_nodes m)"
proof -
  let ?h = "mem_nodes m" and ?a = "as ! i"
  have ll: "distinct as" "chain ?h None as None" "map (data_at ?h) as = vs"
    "\<forall>v \<in> set vs. length v = unat (lk_dataSize ll)" using H(1) by (simp_all add: lk_holds_def)
  obtain n where n: "?h ?a = Some n" using chain_live [OF ll(2), of ?a] H(2) by auto
  have "nd_data n = vs ! i" using n ll(3) H(2) by (auto simp: data_at_def)
  moreover have "vs ! i \<in> set vs" using ll(3) H(2) by auto
  ultimately have "length (nd_data n) = unat (lk_dataSize ll)" using ll(4) by simp
  then have "lkSetNodeData ll (Some ?a) v m = Inr (m\<lparr>mem_nodes := ?h(?a \<mapsto> n\<lparr>nd_data := v\<rparr>)\<rparr>)"
    by (rule lkSetNodeData_live [where m = m, OF n _ v])
  moreover have "chain (?h(?a \<mapsto> n\<lparr>nd_data := v\<rparr>)) p bs q = chain ?h p bs q" for p bs q
    using n by (induction bs arbitrary: p) auto
  moreover have "map (data_at (?h(?a \<mapsto> n\<lparr>nd_data := v\<rparr>))) as = vs[i := v]"
    using ll(1,3) H(2) by (intro nth_equalityI) (auto simp: data_at_def nth_list_update nth_eq_iff_index_eq)
  ultimately show ?thesis
    using H v n set_update_subset_insert [of vs i v] by (fastforce simp: lk_holds_def)
qed

lemma clear_loop_chain:
  assumes "chain (mem_nodes m) p (c # bs) None" "distinct (c # bs)"
  shows "clear_loop ll (Some c) (Some c) m = Some (Inr (None,
    m\<lparr>mem_nodes := (\<lambda>x. if x \<in> set (butlast (c # bs)) then None else mem_nodes m x),
      mem_called := mem_called m @ (if lk_freeElement ll then map (data_at (mem_nodes m)) (butlast (c # bs)) else [])\<rparr>))"
  using assms
proof (induction bs arbitrary: p c m)
  case Nil
  then show ?case by (subst clear_loop.simps) (auto simp: lkNext_def)
next
  case (Cons b bs)
  obtain n where n: "mem_nodes m c = Some n" "nd_next n = Some b" using Cons.prems(1) by auto
  let ?m = "m\<lparr>mem_nodes := (mem_nodes m)(c := None),
    mem_called := mem_called m @ (if lk_freeElement ll then [nd_data n] else [])\<rparr>"
  have next1: "lkNext m (Some c) = Inr (True, Some b)" using n by (simp add: lkNext_def)
  have free1: "bnd (call_free ll (Some c) m) (free_node (Some c)) = Inr ?m"
    using n(1) by (simp add: call_free_live free_node_live)
  have step: "clear_loop ll (Some c) (Some c) m = clear_loop ll (Some b) (Some b) ?m"
    by (subst clear_loop.simps) (simp add: next1 free1)
  have "chain (mem_nodes ?m) (Some c) (b # bs) None" using Cons.prems by auto
  note IH = Cons.IH [OF this]
  have d: "map (data_at ((mem_nodes m)(c := None))) (butlast (b # bs)) = map (data_at (mem_nodes m)) (butlast (b # bs))"
    using Cons.prems(2) by (intro map_cong) (auto simp: data_at_def dest: in_set_butlastD split: if_splits)
  have e: "data_at (mem_nodes m) c = nd_data n" using n(1) by (simp add: data_at_def)
  show ?case
    unfolding step using Cons.prems(2) IH d e by (auto simp: fun_eq_iff)
qed

text \<open>
  \<open>lkClear\<close> keeps the first and the last node: the loop frees a node only once it stands two steps
  behind, and it starts behind the first.
\<close>

lemma lkClear_holds:
  assumes "lk_holds ll m as vs"
  shows "\<exists>ll' m'. lkClear ll m = Inr (ll', m') \<and> lk_holds ll' m' [] [] \<and> lk_frame ll ll' \<and>
    mem_nodes m' = (\<lambda>x. if x \<in> set (butlast (tl as)) then None else mem_nodes m x) \<and>
    mem_called m' = mem_called m @ (if lk_freeElement ll then butlast (tl vs) else [])"
proof -
  let ?ll = "ll\<lparr>lk_size := 0, lk_head := None, lk_tail := None\<rparr>"
  have ll: "distinct as" "chain (mem_nodes m) None as None" "lk_head ll = first as None" "map (data_at (mem_nodes m)) as = vs"
    using assms by (simp_all add: lk_holds_def)
  let ?m' = "m\<lparr>mem_nodes := (\<lambda>x. if x \<in> set (butlast (tl as)) then None else mem_nodes m x),
    mem_called := mem_called m @ (if lk_freeElement ll then butlast (tl vs) else [])\<rparr>"
  have "clear_loop ll (first as None) None m = Some (Inr (None, ?m'))"
  proof (cases as)
    case Nil
    then show ?thesis using ll(4) by (subst clear_loop.simps) (simp add: lkNext_def)
  next
    case (Cons a bs)
    show ?thesis
    proof (cases bs)
      case Nil
      then show ?thesis using ll Cons by (subst clear_loop.simps) (auto simp: lkNext_def)
    next
      case c: (Cons b cs)
      have "lkNext m (Some a) = Inr (True, Some b)" using ll(2) Cons c by (auto simp: lkNext_def)
      then have "clear_loop ll (first as None) None m = clear_loop ll (Some b) (Some b) m"
        using Cons by (subst clear_loop.simps) simp
      moreover have "chain (mem_nodes m) (Some a) (b # cs) None" using ll(2) Cons c by auto
      moreover have "butlast (tl vs) = map (data_at (mem_nodes m)) (butlast (tl as))" using ll(4) by (auto simp: map_butlast map_tl)
      ultimately show ?thesis using clear_loop_chain [of m "Some a" b cs ll] ll(1) Cons c by simp
    qed
  qed
  then have "lkClear ll m = Inr (?ll, ?m')" by (simp add: lkClear_def lkHead_def ll(3))
  moreover have "lk_holds ?ll ?m' [] []" using assms by (simp add: lk_holds_def)
  ultimately show ?thesis by (auto simp: lk_frame_def)
qed

lemma find_loop_chain:
  assumes "chain (mem_nodes m) p as None" "as \<noteq> []" "\<And>a. a \<in> set as \<Longrightarrow> predicate (Some a) m = Inr (P a)"
    and "0 \<le> i" "i + int (length as) < 2 ^ 31"
  shows "find_loop predicate (first as None) i m =
    Some (Inr (if \<exists>a \<in> set as. P a then i + int (length (takeWhile (\<lambda>a. \<not> P a) as)) else - 1))"
  using assms
proof (induction as arbitrary: p i)
  case (Cons a as)
  obtain n where n: "mem_nodes m a = Some n" "nd_next n = first as None" using Cons.prems(1) by auto
  show ?case
  proof (cases "P a")
    case True
    then show ?thesis using Cons.prems(3) by (subst find_loop.simps) simp
  next
    case False
    then have step: "find_loop predicate (Some a) i m = (if as = [] then Some (Inr (- 1)) else find_loop predicate (first as None) (i + 1) m)"
      using Cons.prems(3,4,5) n by (subst find_loop.simps) (simp add: lkNext_def)
    then show ?thesis using False Cons.IH [of "Some a" "i + 1"] Cons.prems by simp
  qed
qed simp

lemma copy_loop_chain:
  assumes "chain (mem_nodes m) p as None" "as \<noteq> []" "\<And>a. a \<in> set as \<Longrightarrow> length (data_at (mem_nodes m) a) = unat (lk_dataSize ll)"
    and "unat offset + length as * unat (lk_dataSize ll) \<le> length dest" "length dest < 2 ^ 64"
  shows "copy_loop ll (first as None) offset dest m =
    Some (Inr (blit dest (unat offset) (concat (map (data_at (mem_nodes m)) as))))"
  using assms
proof (induction as arbitrary: p offset dest)
  case (Cons a as)
  let ?v = "data_at (mem_nodes m) a" and ?o = "offset + lk_dataSize ll"
  obtain n where n: "mem_nodes m a = Some n" "nd_next n = first as None" "nd_data n = ?v"
    using Cons.prems(1) by (auto simp: data_at_def)
  have v: "length ?v = unat (lk_dataSize ll)" using Cons.prems(3) by simp
  have o: "unat ?o = unat offset + unat (lk_dataSize ll)"
    using Cons.prems(4,5) by (intro unat_add_lem [THEN iffD1]) (simp add: word_size)
  have step: "copy_loop ll (Some a) offset dest m = (if as = [] then Some (Inr (blit dest (unat offset) ?v))
      else copy_loop ll (first as None) ?o (blit dest (unat offset) ?v) m)"
    using Cons.prems(4) n v by (subst copy_loop.simps) (simp add: lkGetNodeDataPtr_def load_list_def store_list_def lkNext_def)
  show ?case
  proof (cases "as = []")
    case True
    then show ?thesis using step by simp
  next
    case False
    have "blit (blit dest (unat offset) ?v) (unat ?o) ws = blit dest (unat offset) (?v @ ws)"
      if "unat ?o + length ws \<le> length dest" for ws
      using that v o by (simp add: blit_def ac_simps)
    moreover have "length (concat (map (data_at (mem_nodes m)) as)) = length as * unat (lk_dataSize ll)"
      using Cons.prems(3) by (induction as) auto
    ultimately show ?thesis
      using step False Cons.IH [of "Some a" ?o "blit dest (unat offset) ?v"] Cons.prems v o by simp
  qed
qed simp

section \<open>The list against its specification\<close>

text \<open>Client programs address nodes by position, as the test of the source does.\<close>

datatype lk_op = Insert_at int bytes | Append bytes | Set_at int bytes | Remove_at int | Clear

fun lk_apply :: "(lk_mem \<Rightarrow> nat option) \<Rightarrow> lk_op \<Rightarrow> lk_list \<times> lk_mem \<Rightarrow> (lk_list \<times> lk_mem) res" where
  "lk_apply malloc (Insert_at pos v) (ll, m) =
     bnd (lkLocate ll pos m) (\<lambda>w. map_res snd (lkInsert malloc ll w v m))"
| "lk_apply malloc (Append v) (ll, m) = map_res snd (lkInsert malloc ll None v m)"
| "lk_apply malloc (Set_at pos v) (ll, m) =
     bnd (lkLocate ll pos m) (\<lambda>w. map_res (Pair ll) (lkSetNodeData ll w v m))"
| "lk_apply malloc (Remove_at pos) (ll, m) = bnd (lkLocate ll pos m) (\<lambda>w. lkRemove ll w m)"
| "lk_apply malloc Clear (ll, m) = lkClear ll m"

text \<open>
  The specification: a list of values, and the values the callback has received. A position that is
  not in the list is allowed for an insertion only. Clearing hands the callback neither the first
  nor the last value.
\<close>

type_synonym lk_spec = "bytes list \<times> bytes list"

fun spec_apply :: "bool \<Rightarrow> lk_op \<Rightarrow> lk_spec \<Rightarrow> lk_spec option" where
  "spec_apply cb (Insert_at pos v) (vs, calls) = Some (take (nat pos) vs @ v # drop (nat pos) vs, calls)"
| "spec_apply cb (Append v) (vs, calls) = Some (vs @ [v], calls)"
| "spec_apply cb (Set_at pos v) (vs, calls) = (if nat pos < length vs then Some (vs[nat pos := v], calls) else None)"
| "spec_apply cb (Remove_at pos) (vs, calls) = (if nat pos < length vs
     then Some (take (nat pos) vs @ drop (Suc (nat pos)) vs, calls @ (if cb then [vs ! nat pos] else [])) else None)"
| "spec_apply cb Clear (vs, calls) = Some ([], calls @ (if cb then butlast (tl vs) else []))"

fun spec_run :: "bool \<Rightarrow> lk_op list \<Rightarrow> lk_spec \<Rightarrow> lk_spec option" where
  "spec_run cb [] s = Some s"
| "spec_run cb (op # ops) s = (case spec_apply cb op s of None \<Rightarrow> None | Some s' \<Rightarrow> spec_run cb ops s')"

fun op_ok :: "nat \<Rightarrow> lk_op \<Rightarrow> bool" where
  "op_ok n (Insert_at pos v) \<longleftrightarrow> length v = n"
| "op_ok n (Append v) \<longleftrightarrow> length v = n"
| "op_ok n (Set_at pos v) \<longleftrightarrow> length v = n"
| "op_ok n op \<longleftrightarrow> True"

text \<open>
  An allocator that always finds a fresh block while the memory is finite. When there is none,
  \<open>lkInsert\<close> writes through a null pointer before it looks at the result.
\<close>

definition malloc_ok :: "(lk_mem \<Rightarrow> nat option) \<Rightarrow> bool" where
  "malloc_ok malloc \<longleftrightarrow>
     (\<forall>m. finite (dom (mem_nodes m)) \<longrightarrow> (\<exists>a. malloc m = Some a \<and> mem_nodes m a = None))"

definition represents :: "lk_list \<Rightarrow> lk_mem \<Rightarrow> lk_list \<times> lk_mem \<Rightarrow> lk_spec \<Rightarrow> bool" where
  "represents ll0 m0 s t \<longleftrightarrow> (case (s, t) of ((ll, m), (vs, calls)) \<Rightarrow>
     (\<exists>as. lk_holds ll m as vs \<and> lk_frame ll0 ll \<and> mem_called m = mem_called m0 @ calls \<and> finite (dom (mem_nodes m)) \<and>
        (\<forall>b. mem_nodes m0 b \<noteq> None \<longrightarrow> b \<notin> set as \<and> mem_nodes m b = mem_nodes m0 b)))"

lemma lk_frame_trans: "lk_frame ll ll' \<Longrightarrow> lk_frame ll' ll'' \<Longrightarrow> lk_frame ll ll''"
  by (simp add: lk_frame_def)

lemma lk_holds_length: "lk_holds ll m as vs \<Longrightarrow> length as = length vs"
  by (auto simp: lk_holds_def)

lemma insert_represents:
  assumes "malloc_ok malloc" "lk_holds ll m (xs @ ys) (us @ ws)" "length xs = length us" "length v = unat (lk_dataSize ll)"
    and "lk_frame ll0 ll" "mem_called m = mem_called m0 @ calls" "finite (dom (mem_nodes m))"
    and "\<forall>b. mem_nodes m0 b \<noteq> None \<longrightarrow> b \<notin> set (xs @ ys) \<and> mem_nodes m b = mem_nodes m0 b"
  shows "\<exists>s'. map_res snd (lkInsert malloc ll (first ys None) v m) = Inr s' \<and> represents ll0 m0 s' (us @ v # ws, calls)"
proof -
  obtain a where a: "malloc m = Some a" "mem_nodes m a = None" using assms(1,7) by (auto simp: malloc_ok_def)
  obtain ll' m' where r: "lkInsert malloc ll (first ys None) v m = Inr (True, ll', m')"
    "lk_holds ll' m' (xs @ a # ys) (us @ v # ws)" "lk_frame ll ll'" "mem_called m' = mem_called m"
    "\<forall>b. b \<notin> set (a # xs @ ys) \<longrightarrow> mem_nodes m' b = mem_nodes m b"
    using lkInsert_holds [where malloc = malloc and m = m and a = a, OF assms(2,3) a assms(4)] by blast
  have "dom (mem_nodes m') \<subseteq> set (a # xs @ ys) \<union> dom (mem_nodes m)"
    using r(5) by (auto simp: dom_def)
  then have "finite (dom (mem_nodes m'))" by (rule finite_subset) (simp add: assms(7))
  moreover have "\<forall>b. mem_nodes m0 b \<noteq> None \<longrightarrow> b \<notin> set (xs @ a # ys) \<and> mem_nodes m' b = mem_nodes m0 b"
    using assms(8) a(2) r(5) by (metis Un_iff insert_iff list.simps(15) set_append)
  ultimately have "represents ll0 m0 (ll', m') (us @ v # ws, calls)"
    using r assms(5,6) lk_frame_trans [OF assms(5) r(3)] unfolding represents_def by auto
  then show ?thesis using r(1) by auto
qed

lemma lk_apply_represents:
  assumes "malloc_ok malloc" "represents ll0 m0 s t" "op_ok (unat (lk_dataSize ll0)) op"
  shows "case spec_apply (lk_freeElement ll0) op t of None \<Rightarrow> lk_apply malloc op s = Inl Undefined
    | Some t' \<Rightarrow> \<exists>s'. lk_apply malloc op s = Inr s' \<and> represents ll0 m0 s' t'"
proof -
  obtain ll m vs calls as where st: "s = (ll, m)" "t = (vs, calls)" "lk_holds ll m as vs" "lk_frame ll0 ll"
    "mem_called m = mem_called m0 @ calls" "finite (dom (mem_nodes m))"
    "\<forall>b. mem_nodes m0 b \<noteq> None \<longrightarrow> b \<notin> set as \<and> mem_nodes m b = mem_nodes m0 b"
    using assms(2) by (cases s; cases t) (auto simp: represents_def)
  note ins = insert_represents [OF assms(1) _ _ _ st(4,5,6), where xs = "take i as" and ys = "drop i as"
    and us = "take i vs" and ws = "drop i vs" for i, simplified append_take_drop_id, OF st(3) _ _ st(7)]
  have len: "length as = length vs" by (rule lk_holds_length [OF st(3)])
  have ds: "lk_dataSize ll = lk_dataSize ll0" "lk_freeElement ll = lk_freeElement ll0" using st(4) by (simp_all add: lk_frame_def)
  note loc = lkLocate_holds [OF st(3)]
  have node: "first (drop i as) None = Some (as ! i)" if "i < length as" for i
    using that by (simp add: Cons_nth_drop_Suc [symmetric])
  have none: "first (drop i as) None = None" if "\<not> i < length as" for i using that by simp
  show ?thesis
  proof (cases op)
    case (Insert_at pos v)
    then show ?thesis using ins [of "nat pos" v] assms(3) st(1,2) loc [of pos] len ds by (auto simp: min_def)
  next
    case (Append v)
    then show ?thesis using ins [of "length as" v] assms(3) st(1,2) len ds by auto
  next
    case (Set_at pos v)
    show ?thesis
    proof (cases "nat pos < length vs")
      case True
      obtain m' where r: "lkSetNodeData ll (Some (as ! nat pos)) v m = Inr m'" "lk_holds ll m' as (vs[nat pos := v])"
        "mem_called m' = mem_called m" "\<forall>b. b \<notin> set as \<longrightarrow> mem_nodes m' b = mem_nodes m b" "dom (mem_nodes m') = dom (mem_nodes m)"
        using lkSetNodeData_holds [OF st(3), of "nat pos" v] True len assms(3) Set_at ds by auto
      have "represents ll0 m0 (ll, m') (vs[nat pos := v], calls)"
        using r st(4-7) unfolding represents_def by auto
      then show ?thesis using Set_at True st(1,2) loc [of pos] node [of "nat pos"] len r(1) by simp
    next
      case False
      have "length v = unat (lk_dataSize ll)" using assms(3) Set_at ds by simp
      then have "lkSetNodeData ll None v m = Inl Undefined"
        by (simp add: lkSetNodeData_def load_list_def lkGetNodeDataPtr_def deref_def)
      then show ?thesis using Set_at False st(1,2) loc [of pos] none [of "nat pos"] len by simp
    qed
  next
    case (Remove_at pos)
    show ?thesis
    proof (cases "nat pos < length vs")
      case True
      let ?i = "nat pos"
      have "as = take ?i as @ as ! ?i # drop (Suc ?i) as" "vs = take ?i vs @ vs ! ?i # drop (Suc ?i) vs"
        using True len by (simp_all add: id_take_nth_drop)
      then have H: "lk_holds ll m (take ?i as @ as ! ?i # drop (Suc ?i) as) (take ?i vs @ vs ! ?i # drop (Suc ?i) vs)"
        and set: "set as = set (take ?i as @ as ! ?i # drop (Suc ?i) as)" using st(3) by simp_all
      obtain ll' m' where r: "lkRemove ll (Some (as ! ?i)) m = Inr (ll', m')"
        "lk_holds ll' m' (take ?i as @ drop (Suc ?i) as) (take ?i vs @ drop (Suc ?i) vs)" "lk_frame ll ll'"
        "mem_called m' = mem_called m @ (if lk_freeElement ll then [vs ! ?i] else [])"
        "\<forall>b. b \<notin> set as \<longrightarrow> mem_nodes m' b = mem_nodes m b"
        using lkRemove_holds [OF H] len unfolding set by auto
      have "dom (mem_nodes m') \<subseteq> set as \<union> dom (mem_nodes m)" using r(5) by (auto simp: dom_def)
      then have fin: "finite (dom (mem_nodes m'))" by (rule finite_subset) (simp add: st(6))
      have own: "\<forall>b. mem_nodes m0 b \<noteq> None \<longrightarrow> b \<notin> set (take ?i as @ drop (Suc ?i) as) \<and> mem_nodes m' b = mem_nodes m0 b"
        using st(7) r(5) set by auto
      have "represents ll0 m0 (ll', m')
          (take ?i vs @ drop (Suc ?i) vs, calls @ (if lk_freeElement ll0 then [vs ! ?i] else []))"
        using r(2,4) st(5) lk_frame_trans [OF st(4) r(3)] fin own ds unfolding represents_def prod.case
        by (intro exI [of _ "take ?i as @ drop (Suc ?i) as"]) simp
      then show ?thesis using Remove_at True st(1,2) loc [of pos] node [of "nat pos"] len r(1) by simp
    next
      case False
      then show ?thesis using Remove_at st(1,2) loc [of pos] none [of "nat pos"] len by (simp add: lkRemove_def deref_def)
    qed
  next
    case Clear
    obtain ll' m' where r: "lkClear ll m = Inr (ll', m')" "lk_holds ll' m' [] []" "lk_frame ll ll'"
      "mem_nodes m' = (\<lambda>x. if x \<in> set (butlast (tl as)) then None else mem_nodes m x)"
      "mem_called m' = mem_called m @ (if lk_freeElement ll then butlast (tl vs) else [])"
      using lkClear_holds [OF st(3)] by blast
    have "dom (mem_nodes m') \<subseteq> dom (mem_nodes m)" using r(4) by (auto split: if_splits)
    then have fin: "finite (dom (mem_nodes m'))" by (rule finite_subset) (rule st(6))
    have "b \<in> set (butlast (tl as)) \<Longrightarrow> b \<in> set as" for b by (cases as) (auto dest: in_set_butlastD)
    then have own: "\<forall>b. mem_nodes m0 b \<noteq> None \<longrightarrow> mem_nodes m' b = mem_nodes m0 b" using st(7) r(4) by auto
    have "represents ll0 m0 (ll', m') ([], calls @ (if lk_freeElement ll0 then butlast (tl vs) else []))"
      using r(2,5) st(5) lk_frame_trans [OF st(4) r(3)] fin own ds unfolding represents_def prod.case
      by (intro exI [of _ "[]"]) simp
    then show ?thesis using Clear st(1,2) r(1) by simp
  qed
qed

lemma lk_run_represents:
  assumes "malloc_ok malloc" "represents ll0 m0 s t" "\<forall>op \<in> set ops. op_ok (unat (lk_dataSize ll0)) op"
  shows "case spec_run (lk_freeElement ll0) ops t of None \<Rightarrow> for_each ops (lk_apply malloc) s = Inl Undefined
    | Some t' \<Rightarrow> \<exists>s'. for_each ops (lk_apply malloc) s = Inr s' \<and> represents ll0 m0 s' t'"
  using assms(2,3)
proof (induction ops arbitrary: s t)
  case (Cons op ops)
  note step = lk_apply_represents [OF assms(1) Cons.prems(1), of op]
  show ?case
  proof (cases "spec_apply (lk_freeElement ll0) op t")
    case None
    then show ?thesis using step Cons.prems(2) by simp
  next
    case (Some t')
    then obtain s' where "lk_apply malloc op s = Inr s'" "represents ll0 m0 s' t'" using step Cons.prems(2) by auto
    then show ?thesis using Cons.IH [of s' t'] Cons.prems(2) Some by (cases "spec_run (lk_freeElement ll0) ops t'") auto
  qed
qed simp

lemma lkInit_represents:
  assumes "lkInit True n cb = Some ll0" "unat n + 16 < 2 ^ 64" "finite (dom (mem_nodes m0))"
  shows "represents ll0 m0 (ll0, m0) ([], [])" "lk_dataSize ll0 = n" "lk_freeElement ll0 = cb"
  using assms by (auto simp: lkInit_def represents_def lk_holds_def lk_frame_def)

text \<open>
  C12. A new list driven by any sequence of insertions, overwritings, removals and clearings by
  position behaves as the list of its values: as long as every position that is overwritten or
  removed is in the list, the nodes form one well-linked chain from \<open>head\<close> to \<open>tail\<close> with exactly those
  values, \<open>size\<close> counts them, the callback has received exactly the removed values, and no block of
  memory that was in use before is touched. The first position that is not in the list is an
  access through \<open>NULL\<close>.
\<close>

theorem lk_operations_refine:
  assumes "malloc_ok malloc" "lkInit True n cb = Some ll0" "unat n + 16 < 2 ^ 64" "finite (dom (mem_nodes m0))"
    and "\<forall>op \<in> set ops. op_ok (unat n) op"
  shows "case spec_run cb ops ([], []) of
      None \<Rightarrow> for_each ops (lk_apply malloc) (ll0, m0) = Inl Undefined
    | Some (vs, calls) \<Rightarrow> \<exists>ll m as. for_each ops (lk_apply malloc) (ll0, m0) = Inr (ll, m) \<and>
        distinct as \<and> chain (mem_nodes m) None as None \<and> map (data_at (mem_nodes m)) as = vs \<and>
        lkHead ll = first as None \<and> lkTail ll = final None as \<and> lkSize ll = of_nat (length vs) \<and>
        mem_called m = mem_called m0 @ calls \<and>
        (\<forall>b. mem_nodes m0 b \<noteq> None \<longrightarrow> b \<notin> set as \<and> mem_nodes m b = mem_nodes m0 b)"
proof -
  note init = lkInit_represents [OF assms(2-4)]
  note run = lk_run_represents [OF assms(1) init(1), of ops, unfolded init(2,3), OF assms(5)]
  show ?thesis
  proof (cases "spec_run cb ops ([], [])")
    case None
    then show ?thesis using run by simp
  next
    case (Some t)
    obtain vs calls where t: "t = (vs, calls)" by (cases t)
    obtain ll m where r: "for_each ops (lk_apply malloc) (ll0, m0) = Inr (ll, m)" "represents ll0 m0 (ll, m) (vs, calls)"
      using run Some t by auto
    then obtain as where "lk_holds ll m as vs" "mem_called m = mem_called m0 @ calls"
      "\<forall>b. mem_nodes m0 b \<noteq> None \<longrightarrow> b \<notin> set as \<and> mem_nodes m b = mem_nodes m0 b"
      by (auto simp: represents_def)
    then show ?thesis
      using Some t r(1) lk_holds_length [of ll m as vs] by (auto simp: lk_holds_def lkHead_def lkTail_def lkSize_def)
  qed
qed

definition example_malloc :: "lk_mem \<Rightarrow> nat option" where
  "example_malloc m = Some (Suc (Max (insert 0 (dom (mem_nodes m)))))"

lemma example_malloc_ok: "malloc_ok example_malloc"
proof -
  have "mem_nodes m (Suc (Max (insert 0 (dom (mem_nodes m))))) = None" if "finite (dom (mem_nodes m))" for m
  proof (rule ccontr)
    assume "\<not> ?thesis"
    then have "Suc (Max (insert 0 (dom (mem_nodes m)))) \<in> insert 0 (dom (mem_nodes m))" by auto
    then have "Suc (Max (insert 0 (dom (mem_nodes m)))) \<le> Max (insert 0 (dom (mem_nodes m)))" using that by (intro Max_ge) auto
    then show False by simp
  qed
  then show ?thesis by (auto simp: malloc_ok_def example_malloc_def)
qed

text \<open>The first steps of the test at the end of the source: 3 2 1 400, then 2 400.\<close>

theorem lk_operations_refine_witness:
  "\<exists>ll m as. for_each [Insert_at 0 [1], Insert_at 0 [2], Insert_at 0 [3], Append [4], Remove_at 0, Remove_at 1]
       (lk_apply example_malloc)
       (\<lparr>lk_head = None, lk_tail = None, lk_size = 0, lk_dataSize = 1, lk_freeElement = True\<rparr>,
        \<lparr>mem_nodes = \<lambda>_. None, mem_called = []\<rparr>) = Inr (ll, m) \<and>
     map (data_at (mem_nodes m)) as = [[2], [4]] \<and> chain (mem_nodes m) None as None \<and> mem_called m = [[3], [1]]"
proof -
  define ops where "ops = [Insert_at 0 [1], Insert_at 0 [2], Insert_at 0 [3], Append [4], Remove_at 0, Remove_at 1]"
  have init: "lkInit True 1 True = Some \<lparr>lk_head = None, lk_tail = None, lk_size = 0, lk_dataSize = 1, lk_freeElement = True\<rparr>"
    by (simp add: lkInit_def)
  have spec: "spec_run True ops ([], []) = Some ([[2], [4]], [[3], [1]])" and ok: "\<forall>op \<in> set ops. op_ok (unat (1 :: size_t)) op"
    by (simp_all add: ops_def numeral_2_eq_2)
  have u: "unat (1 :: size_t) + 16 < 2 ^ 64" and f: "finite (dom (mem_nodes \<lparr>mem_nodes = \<lambda>_. None, mem_called = []\<rparr>))"
    by simp_all
  obtain ll m as where r: "for_each ops (lk_apply example_malloc)
       (\<lparr>lk_head = None, lk_tail = None, lk_size = 0, lk_dataSize = 1, lk_freeElement = True\<rparr>,
        \<lparr>mem_nodes = \<lambda>_. None, mem_called = []\<rparr>) = Inr (ll, m)"
    "map (data_at (mem_nodes m)) as = [[2], [4]]" "chain (mem_nodes m) None as None" "mem_called m = [] @ [[3], [1]]"
    using lk_operations_refine [OF example_malloc_ok init u f ok, unfolded spec option.case prod.case]
    by (elim exE conjE) (rule that, simp_all)
  show ?thesis
    unfolding ops_def [symmetric]
    by (intro exI [of _ ll] exI [of _ m] exI [of _ as] conjI) (use r in \<open>simp_all only: append_Nil\<close>)
qed

text \<open>
  C28. Clearing a list always ends and leaves it empty and usable, but it frees only the nodes
  between the first and the last: those two stay allocated, the callback never sees their values,
  and nothing points to them any more.
\<close>

theorem lk_clear_frees:
  assumes "lk_holds ll m as vs"
  shows "\<exists>ll' m'. lkClear ll m = Inr (ll', m') \<and> lk_holds ll' m' [] [] \<and> lkSize ll' = 0 \<and>
    lkDestroy ll m = Inr m' \<and>
    (\<forall>i < length as. mem_nodes m' (as ! i) =
       (if 0 < i \<and> Suc i < length as then None else mem_nodes m (as ! i))) \<and>
    (\<forall>b. b \<notin> set as \<longrightarrow> mem_nodes m' b = mem_nodes m b) \<and>
    mem_called m' = mem_called m @ (if lk_freeElement ll then butlast (tl vs) else [])"
proof -
  obtain ll' m' where r: "lkClear ll m = Inr (ll', m')" "lk_holds ll' m' [] []"
    "mem_nodes m' = (\<lambda>x. if x \<in> set (butlast (tl as)) then None else mem_nodes m x)"
    "mem_called m' = mem_called m @ (if lk_freeElement ll then butlast (tl vs) else [])"
    using lkClear_holds [OF assms] by blast
  have d: "distinct as" using assms by (simp add: lk_holds_def)
  have mid: "butlast (tl as) = map ((!) as) [1..<length as - 1]"
    by (rule nth_equalityI) (auto simp: nth_butlast nth_tl)
  have "as ! i \<in> set (butlast (tl as)) \<longleftrightarrow> 0 < i \<and> Suc i < length as" if "i < length as" for i
  proof -
    have "inj_on ((!) as) {..<length as}" using d by (intro inj_on_nth) auto
    then have "as ! i \<in> (!) as ` {1..<length as - 1} \<longleftrightarrow> i \<in> {1..<length as - 1}"
      using that by (intro inj_on_image_mem_iff) auto
    then show ?thesis unfolding mid by auto
  qed
  moreover have "b \<in> set (butlast (tl as)) \<Longrightarrow> b \<in> set as" for b by (cases as) (auto dest: in_set_butlastD)
  moreover have "lkSize ll' = 0" using r(2) by (simp add: lk_holds_def lkSize_def)
  ultimately show ?thesis using r by (auto simp: lkDestroy_def)
qed

definition example_list :: lk_list where
  "example_list = \<lparr>lk_head = Some 1, lk_tail = Some 3, lk_size = 3, lk_dataSize = 1, lk_freeElement = True\<rparr>"

definition example_mem :: lk_mem where
  "example_mem = \<lparr>mem_nodes = [1 \<mapsto> \<lparr>nd_prev = None, nd_next = Some 2, nd_data = [7]\<rparr>,
     2 \<mapsto> \<lparr>nd_prev = Some 1, nd_next = Some 3, nd_data = [8]\<rparr>,
     3 \<mapsto> \<lparr>nd_prev = Some 2, nd_next = None, nd_data = [7]\<rparr>], mem_called = []\<rparr>"

lemma example_holds: "lk_holds example_list example_mem [1, 2, 3] [[7], [8], [7]]"
  by (simp add: lk_holds_def example_list_def example_mem_def data_at_def)

theorem lk_clear_frees_witness:
  "\<exists>ll' m'. lkClear example_list example_mem = Inr (ll', m') \<and> mem_called m' = [[8]] \<and>
     mem_nodes m' 1 \<noteq> None \<and> mem_nodes m' 2 = None \<and> mem_nodes m' 3 \<noteq> None"
proof -
  obtain ll' m' where r: "lkClear example_list example_mem = Inr (ll', m')"
    "\<forall>i < 3. mem_nodes m' ([1, 2, 3] ! i) = (if 0 < i \<and> Suc i < 3 then None else mem_nodes example_mem ([1, 2, 3] ! i))"
    "mem_called m' = mem_called example_mem @ (if lk_freeElement example_list then butlast (tl [[7], [8], [7]]) else [])"
    using lk_clear_frees [OF example_holds] by auto
  from r(2) [rule_format, of 0] r(2) [rule_format, of 1] r(2) [rule_format, of 2] r(1,3)
  show ?thesis by (auto simp: example_mem_def example_list_def)
qed

lemma lk_read_values:
  assumes "lk_holds ll m as vs" "length vs < 2 ^ 31" "length v = unat (lk_dataSize ll)"
    and "\<And>a. a \<in> set as \<Longrightarrow> predicate (Some a) m = Inr (P (data_at (mem_nodes m) a))"
    and "length vs * unat (lk_dataSize ll) < 2 ^ 64"
  shows "lkIndexOf ll v m = Inr (if v \<in> set vs then int (length (takeWhile (\<lambda>w. w \<noteq> v) vs)) else - 1) \<and>
    lkFind ll predicate m = Inr (if \<exists>w \<in> set vs. P w then int (length (takeWhile (\<lambda>w. \<not> P w) vs)) else - 1) \<and>
    lkCopyToNewArray True ll m = Inr (if concat vs = [] then None else Some (concat vs))"
proof (intro conjI)
  let ?d = "data_at (mem_nodes m)"
  have ll: "chain (mem_nodes m) None as None" "lk_head ll = first as None" "lk_size ll = of_nat (length vs)"
    "vs = map ?d as" "\<forall>w \<in> set vs. length w = unat (lk_dataSize ll)"
    using assms(1) lk_holds_length [OF assms(1)] by (auto simp: lk_holds_def)
  have n: "unat (lk_size ll) = length vs" unfolding ll(3) using assms(2) by (intro unat_of_nat_small) simp
  then have size0: "lk_size ll = 0 \<longleftrightarrow> as = []" using ll(4) by (auto simp: unat_eq_zero)
  have find: "(if lk_size ll = 0 then Inr (- 1) else returned (find_loop q (lkHead ll) 0 m)) =
      Inr (if \<exists>w \<in> set vs. Q w then int (length (takeWhile (\<lambda>w. \<not> Q w) vs)) else - 1)"
    if "\<And>a. a \<in> set as \<Longrightarrow> q (Some a) m = Inr (Q (?d a))" for q Q
    using find_loop_chain [where predicate = q and P = "\<lambda>a. Q (?d a)" and i = 0, OF ll(1)] that assms(2) size0
    by (auto simp: lkHead_def ll(2,4) takeWhile_map comp_def)
  have same: "same_data ll v (Some a) m = Inr (?d a = v)" if a: "a \<in> set as" for a
  proof -
    obtain nd where "mem_nodes m a = Some nd" using chain_live [OF ll(1) a] by blast
    then show ?thesis using ll(4,5) a assms(3)
      by (auto simp: same_data_def lkGetNodeDataPtr_def load_list_def data_at_def)
  qed
  show "lkIndexOf ll v m = Inr (if v \<in> set vs then int (length (takeWhile (\<lambda>w. w \<noteq> v) vs)) else - 1)"
    using find [of "same_data ll v" "\<lambda>w. w = v", OF same] by (auto simp: lkIndexOf_def)
  show "lkFind ll predicate m = Inr (if \<exists>w \<in> set vs. P w then int (length (takeWhile (\<lambda>w. \<not> P w) vs)) else - 1)"
    using find [of predicate P, OF assms(4)] by (simp add: lkFind_def)
  have len: "length (concat vs) = length vs * unat (lk_dataSize ll)" using ll(5) by (induction vs) auto
  have arr: "unat (lk_size ll * lk_dataSize ll) = length (concat vs)"
    using assms(5) n by (simp add: len unat_word_ariths)
  show "lkCopyToNewArray True ll m = Inr (if concat vs = [] then None else Some (concat vs))"
  proof (cases "concat vs = []")
    case True
    then have "unat (lk_size ll * lk_dataSize ll) = 0" by (simp only: arr) simp
    then show ?thesis using True unfolding lkCopyToNewArray_def lkSize_def Let_def by (simp only: unat_eq_zero) simp
  next
    case False
    then have "unat (lk_size ll * lk_dataSize ll) \<noteq> 0" by (simp only: arr length_0_conv) simp
    then have ne: "lk_size ll * lk_dataSize ll \<noteq> 0" by auto
    then have "as \<noteq> []" using size0 by auto
    let ?z = "replicate (length (concat vs)) 0 :: bytes"
    have "copy_loop ll (first as None) 0 ?z m = Some (Inr (blit ?z 0 (concat vs)))"
      using copy_loop_chain [OF ll(1) \<open>as \<noteq> []\<close>, of ll 0 ?z] ll(4,5) len assms(5) by auto
    then show ?thesis
      using ne False size0 \<open>as \<noteq> []\<close> unfolding lkCopyToNewArray_def lkSize_def Let_def arr
      by (simp add: lkCopyToArray_def lkSize_def lkHead_def ll(2) blit_whole del: concat_eq_Nil_conv)
  qed
qed

text \<open>
  C29. Reading a list of fewer than \<open>2 ^ 31\<close> values ends. \<open>lkIndexOf\<close> returns the position of the first
  value with the same bytes, \<open>lkFind\<close> the first position where the predicate holds, -1 if there is
  none, and \<open>lkCopyToNewArray\<close> the values in order, or \<open>NULL\<close> when they take no bytes.
\<close>

theorem lk_reads:
  assumes "lk_holds ll m as vs" "length vs < 2 ^ 31" "length v = unat (lk_dataSize ll)"
    and "\<And>a. a \<in> set as \<Longrightarrow> predicate (Some a) m = Inr (P (data_at (mem_nodes m) a))"
    and "length vs * unat (lk_dataSize ll) < 2 ^ 64"
  shows "lkIndexOf ll v m = Inr (if v \<in> set vs then int (length (takeWhile (\<lambda>w. w \<noteq> v) vs)) else - 1) \<and>
    lkFind ll predicate m = Inr (if \<exists>w \<in> set vs. P w then int (length (takeWhile (\<lambda>w. \<not> P w) vs)) else - 1) \<and>
    lkCopyToNewArray True ll m = Inr (if concat vs = [] then None else Some (concat vs))"
  by (rule lk_read_values [where predicate = predicate and P = P]) (fact assms)+

theorem lk_reads_witness:
  "lkIndexOf example_list [8] example_mem = Inr 1 \<and>
   lkCopyToNewArray True example_list example_mem = Inr (Some [7, 8, 7])"
proof -
  have "lk_dataSize example_list = 1" by (simp add: example_list_def)
  then show ?thesis
    using lk_reads [OF example_holds, of "[8]" "\<lambda>_ _. Inr False" "\<lambda>_. False"] by simp
qed

end
