(* ===== verification/LkTyped.thy ===== *)
theory LkTyped
  imports LkList
begin

text \<open>
  \<open>lklist/include/lklist.h\<close>: the typed lists that the macros generate, and the test program at the end
  of \<open>lklist.c\<close>. Every function that gets the list first compares the data size of the list with the
  size of the type and ends the process when they differ; then it calls the untyped function.
\<close>

section \<open>Types and their bytes\<close>

text \<open>A C type: its size and how its values are stored.\<close>

record 'a ctype =
  ct_size :: size_t
  ct_bytes :: "'a \<Rightarrow> bytes"
  ct_value :: "bytes \<Rightarrow> 'a"

definition ctype_ok :: "'a ctype \<Rightarrow> bool" where
  "ctype_ok T \<longleftrightarrow> (\<forall>v. length (ct_bytes T v) = unat (ct_size T) \<and> ct_value T (ct_bytes T v) = v) \<and> unat (ct_size T) + 16 < 2 ^ 64"

section \<open>\<open>LK_WANT_PRIMITIVE_TYPE\<close>\<close>

definition lkT_Init :: "bool \<Rightarrow> 'a ctype \<Rightarrow> lk_list option" where
  "lkT_Init allocated T = lkInit allocated (ct_size T) False"

definition lkT_Clear :: "'a ctype \<Rightarrow> lk_list \<Rightarrow> lk_mem \<Rightarrow> (lk_list \<times> lk_mem) res" where
  "lkT_Clear T ll m = bnd (cz ll (ct_size T)) (\<lambda>_. lkClear ll m)"

definition lkT_Destroy :: "'a ctype \<Rightarrow> lk_list \<Rightarrow> lk_mem \<Rightarrow> lk_mem res" where
  "lkT_Destroy T ll m = bnd (cz ll (ct_size T)) (\<lambda>_. lkDestroy ll m)"

definition lkT_Locate :: "'a ctype \<Rightarrow> lk_list \<Rightarrow> int \<Rightarrow> lk_mem \<Rightarrow> node_ptr res" where
  "lkT_Locate T ll pos m = bnd (cz ll (ct_size T)) (\<lambda>_. lkLocate ll pos m)"

definition lkT_Head :: "'a ctype \<Rightarrow> lk_list \<Rightarrow> node_ptr res" where
  "lkT_Head T ll = bnd (cz ll (ct_size T)) (\<lambda>_. Inr (lkHead ll))"

definition lkT_Tail :: "'a ctype \<Rightarrow> lk_list \<Rightarrow> node_ptr res" where
  "lkT_Tail T ll = bnd (cz ll (ct_size T)) (\<lambda>_. Inr (lkTail ll))"

definition lkT_Before :: "lk_mem \<Rightarrow> node_ptr \<Rightarrow> node_ptr res" where
  "lkT_Before m node = lkBefore m node"

definition lkT_After :: "lk_mem \<Rightarrow> node_ptr \<Rightarrow> node_ptr res" where
  "lkT_After m node = lkAfter m node"

definition lkT_Next :: "lk_mem \<Rightarrow> node_ptr \<Rightarrow> (bool \<times> node_ptr) res" where
  "lkT_Next m current = lkNext m current"

definition lkT_GetNodeData :: "'a ctype \<Rightarrow> lk_list \<Rightarrow> node_ptr \<Rightarrow> lk_mem \<Rightarrow> 'a res" where
  "lkT_GetNodeData T ll node m = bnd (cz ll (ct_size T)) (\<lambda>_.
     bnd (lkGetNodeDataPtr m node) (\<lambda>p. map_res (ct_value T) (load_list p 0 (unat (ct_size T)))))"

definition lkT_SetNodeData :: "'a ctype \<Rightarrow> lk_list \<Rightarrow> node_ptr \<Rightarrow> 'a \<Rightarrow> lk_mem \<Rightarrow> lk_mem res" where
  "lkT_SetNodeData T ll node data m = bnd (cz ll (ct_size T)) (\<lambda>_. lkSetNodeData ll node (ct_bytes T data) m)"

definition lkT_Insert ::
  "'a ctype \<Rightarrow> (lk_mem \<Rightarrow> nat option) \<Rightarrow> lk_list \<Rightarrow> node_ptr \<Rightarrow> 'a \<Rightarrow> lk_mem \<Rightarrow> (bool \<times> lk_list \<times> lk_mem) res" where
  "lkT_Insert T malloc ll wh k m = bnd (cz ll (ct_size T)) (\<lambda>_. lkInsert malloc ll wh (ct_bytes T k) m)"

definition lkT_Remove :: "'a ctype \<Rightarrow> lk_list \<Rightarrow> node_ptr \<Rightarrow> lk_mem \<Rightarrow> (lk_list \<times> lk_mem) res" where
  "lkT_Remove T ll which m = bnd (cz ll (ct_size T)) (\<lambda>_. lkRemove ll which m)"

definition lkT_Find :: "'a ctype \<Rightarrow> lk_list \<Rightarrow> (node_ptr \<Rightarrow> lk_mem \<Rightarrow> bool res) \<Rightarrow> lk_mem \<Rightarrow> int res" where
  "lkT_Find T ll predicate m = bnd (cz ll (ct_size T)) (\<lambda>_. lkFind ll predicate m)"

definition lkT_IndexOf :: "'a ctype \<Rightarrow> lk_list \<Rightarrow> 'a \<Rightarrow> lk_mem \<Rightarrow> int res" where
  "lkT_IndexOf T ll data m = bnd (cz ll (ct_size T)) (\<lambda>_. lkIndexOf ll (ct_bytes T data) m)"

definition lkT_Size :: "'a ctype \<Rightarrow> lk_list \<Rightarrow> size_t res" where
  "lkT_Size T ll = bnd (cz ll (ct_size T)) (\<lambda>_. Inr (lkSize ll))"

text \<open>The destination is an array of bytes in both.\<close>

definition lkT_CopyToArray :: "'a ctype \<Rightarrow> lk_list \<Rightarrow> bytes \<Rightarrow> lk_mem \<Rightarrow> bytes res" where
  "lkT_CopyToArray T ll dest m = bnd (cz ll (ct_size T)) (\<lambda>_. lkCopyToArray ll dest m)"

definition lkT_CopyToNewArray :: "bool \<Rightarrow> 'a ctype \<Rightarrow> lk_list \<Rightarrow> lk_mem \<Rightarrow> bytes option res" where
  "lkT_CopyToNewArray allocated T ll m = bnd (cz ll (ct_size T)) (\<lambda>_. lkCopyToNewArray allocated ll m)"

section \<open>\<open>LK_IMPLEMENT_STRUCT_TYPE\<close>\<close>

text \<open>
  Here values are passed by pointer, and the list may have a callback. The functions that are not
  listed are the same text as above.
\<close>

definition lkS_Init :: "bool \<Rightarrow> 'a ctype \<Rightarrow> bool \<Rightarrow> lk_list option" where
  "lkS_Init allocated T element_free_callback = lkInit allocated (ct_size T) element_free_callback"

definition lkS_GetNodeDataPtr :: "'a ctype \<Rightarrow> lk_list \<Rightarrow> node_ptr \<Rightarrow> lk_mem \<Rightarrow> bytes res" where
  "lkS_GetNodeDataPtr T ll node m = bnd (cz ll (ct_size T)) (\<lambda>_. lkGetNodeDataPtr m node)"

definition lkS_SetNodeData :: "'a ctype \<Rightarrow> lk_list \<Rightarrow> node_ptr \<Rightarrow> bytes \<Rightarrow> lk_mem \<Rightarrow> lk_mem res" where
  "lkS_SetNodeData T ll node dataPtr m = bnd (cz ll (ct_size T)) (\<lambda>_. lkSetNodeData ll node dataPtr m)"

definition lkS_Insert ::
  "'a ctype \<Rightarrow> (lk_mem \<Rightarrow> nat option) \<Rightarrow> lk_list \<Rightarrow> node_ptr \<Rightarrow> bytes \<Rightarrow> lk_mem \<Rightarrow> (bool \<times> lk_list \<times> lk_mem) res" where
  "lkS_Insert T malloc ll wh dataPtr m = bnd (cz ll (ct_size T)) (\<lambda>_. lkInsert malloc ll wh dataPtr m)"

definition lkS_IndexOf :: "'a ctype \<Rightarrow> lk_list \<Rightarrow> bytes \<Rightarrow> lk_mem \<Rightarrow> int res" where
  "lkS_IndexOf T ll dataPtr m = bnd (cz ll (ct_size T)) (\<lambda>_. lkIndexOf ll dataPtr m)"

text \<open>A pointer to a value does what the value does.\<close>

lemma lkS_lkT:
  "lkS_Init allocated T False = lkT_Init allocated T"
  "lkS_SetNodeData T ll node (ct_bytes T v) m = lkT_SetNodeData T ll node v m"
  "lkS_Insert T malloc ll wh (ct_bytes T v) m = lkT_Insert T malloc ll wh v m"
  "lkS_IndexOf T ll (ct_bytes T v) m = lkT_IndexOf T ll v m"
  "lkT_GetNodeData T ll node m =
     bnd (lkS_GetNodeDataPtr T ll node m) (\<lambda>p. map_res (ct_value T) (load_list p 0 (unat (ct_size T))))"
  by (simp_all add: lkS_Init_def lkT_Init_def lkS_SetNodeData_def lkT_SetNodeData_def lkS_Insert_def lkT_Insert_def
      lkS_IndexOf_def lkT_IndexOf_def lkT_GetNodeData_def lkS_GetNodeDataPtr_def bnd_assoc)

section \<open>A typed list is a list of values\<close>

text \<open>What a program does with a typed list, by position; a read is kept in a log.\<close>

datatype 'a typed_op =
  T_Insert int 'a | T_Append 'a | T_Set int 'a | T_Remove int | T_Get int | T_IndexOf 'a | T_Size | T_Clear

datatype 'a seen = Value 'a | Index int | Count size_t

fun typed_apply :: "'a ctype \<Rightarrow> (lk_mem \<Rightarrow> nat option) \<Rightarrow> 'a typed_op \<Rightarrow>
    'a seen list \<times> lk_list \<times> lk_mem \<Rightarrow> ('a seen list \<times> lk_list \<times> lk_mem) res" where
  "typed_apply T malloc (T_Insert pos v) (out, ll, m) =
     bnd (lkT_Locate T ll pos m) (\<lambda>w. map_res (\<lambda>(ok, ll, m). (out, ll, m)) (lkT_Insert T malloc ll w v m))"
| "typed_apply T malloc (T_Append v) (out, ll, m) =
     map_res (\<lambda>(ok, ll, m). (out, ll, m)) (lkT_Insert T malloc ll None v m)"
| "typed_apply T malloc (T_Set pos v) (out, ll, m) =
     bnd (lkT_Locate T ll pos m) (\<lambda>w. map_res (\<lambda>m. (out, ll, m)) (lkT_SetNodeData T ll w v m))"
| "typed_apply T malloc (T_Remove pos) (out, ll, m) =
     bnd (lkT_Locate T ll pos m) (\<lambda>w. map_res (Pair out) (lkT_Remove T ll w m))"
| "typed_apply T malloc (T_Get pos) (out, ll, m) =
     bnd (lkT_Locate T ll pos m) (\<lambda>w. map_res (\<lambda>v. (out @ [Value v], ll, m)) (lkT_GetNodeData T ll w m))"
| "typed_apply T malloc (T_IndexOf v) (out, ll, m) = map_res (\<lambda>i. (out @ [Index i], ll, m)) (lkT_IndexOf T ll v m)"
| "typed_apply T malloc T_Size (out, ll, m) = map_res (\<lambda>n. (out @ [Count n], ll, m)) (lkT_Size T ll)"
| "typed_apply T malloc T_Clear (out, ll, m) = map_res (Pair out) (lkT_Clear T ll m)"

text \<open>The same on a list of values.\<close>

fun value_apply :: "'a typed_op \<Rightarrow> 'a seen list \<times> 'a list \<Rightarrow> ('a seen list \<times> 'a list) option" where
  "value_apply (T_Insert pos v) (out, vs) = Some (out, take (nat pos) vs @ v # drop (nat pos) vs)"
| "value_apply (T_Append v) (out, vs) = Some (out, vs @ [v])"
| "value_apply (T_Set pos v) (out, vs) = (if nat pos < length vs then Some (out, vs[nat pos := v]) else None)"
| "value_apply (T_Remove pos) (out, vs) =
     (if nat pos < length vs then Some (out, take (nat pos) vs @ drop (Suc (nat pos)) vs) else None)"
| "value_apply (T_Get pos) (out, vs) = (if nat pos < length vs then Some (out @ [Value (vs ! nat pos)], vs) else None)"
| "value_apply (T_IndexOf v) (out, vs) =
     Some (out @ [Index (if v \<in> set vs then int (length (takeWhile (\<lambda>w. w \<noteq> v) vs)) else - 1)], vs)"
| "value_apply T_Size (out, vs) = Some (out @ [Count (of_nat (length vs))], vs)"
| "value_apply T_Clear (out, vs) = Some (out, [])"

fun value_run :: "'a typed_op list \<Rightarrow> 'a seen list \<times> 'a list \<Rightarrow> ('a seen list \<times> 'a list) option" where
  "value_run [] s = Some s"
| "value_run (op # ops) s = (case value_apply op s of None \<Rightarrow> None | Some s' \<Rightarrow> value_run ops s')"

text \<open>The states of a typed list and of the list of its values, from the same beginning.\<close>

definition typed_holds ::
  "'a ctype \<Rightarrow> lk_list \<Rightarrow> lk_mem \<Rightarrow> 'a seen list \<times> lk_list \<times> lk_mem \<Rightarrow> 'a seen list \<times> 'a list \<Rightarrow> bool" where
  "typed_holds T ll0 m0 s t \<longleftrightarrow> (case (s, t) of ((out, ll, m), (out', vs)) \<Rightarrow>
     out = out' \<and> (\<exists>calls. represents ll0 m0 (ll, m) (map (ct_bytes T) vs, calls)))"

fun untyped :: "'a ctype \<Rightarrow> 'a typed_op \<Rightarrow> lk_op option" where
  "untyped T (T_Insert pos v) = Some (Insert_at pos (ct_bytes T v))"
| "untyped T (T_Append v) = Some (Append (ct_bytes T v))"
| "untyped T (T_Set pos v) = Some (Set_at pos (ct_bytes T v))"
| "untyped T (T_Remove pos) = Some (Remove_at pos)"
| "untyped T T_Clear = Some Clear"
| "untyped T _ = None"

lemma cz_simps [simp]: "lk_dataSize ll = n \<Longrightarrow> cz ll n = Inr ()" "lk_dataSize ll \<noteq> n \<Longrightarrow> cz ll n = Inl Exit"
  by (simp_all add: cz_def)

lemmas lkT_defs = lkT_Clear_def lkT_Locate_def lkT_GetNodeData_def lkT_SetNodeData_def lkT_Insert_def lkT_Remove_def
  lkT_IndexOf_def lkT_Size_def

lemma typed_untyped:
  assumes "lk_dataSize ll = ct_size T" "untyped T op = Some op'"
  shows "typed_apply T malloc op (out, ll, m) = map_res (Pair out) (lk_apply malloc op' (ll, m))"
  using assms by (cases op) (auto simp: lkT_defs map_res_def bnd_assoc split_beta cong: bnd_cong)

lemma typed_wrong_size: "lk_dataSize ll \<noteq> ct_size T \<Longrightarrow> typed_apply T malloc op (out, ll, m) = Inl Exit"
  by (cases op) (simp_all add: lkT_defs)

lemma represents_size: "represents ll0 m0 (ll, m) t \<Longrightarrow> lk_dataSize ll = lk_dataSize ll0"
  by (auto simp: represents_def lk_frame_def split: prod.splits)

text \<open>The untyped operation on the bytes does what the typed one does on the values.\<close>

lemma untyped_spec:
  assumes "untyped T op = Some op'"
  shows "spec_apply False op' (map (ct_bytes T) vs, calls) =
    map_option (\<lambda>(out, vs'). (map (ct_bytes T) vs', calls)) (value_apply op (out, vs))"
  using assms by (cases op) (auto simp: take_map drop_map map_update)

lemma untyped_ok: "ctype_ok T \<Longrightarrow> untyped T op = Some op' \<Longrightarrow> op_ok (unat (ct_size T)) op'"
  by (cases op) (auto simp: ctype_ok_def)

lemma typed_step:
  assumes T: "ctype_ok T" and M: "malloc_ok malloc" and ll0: "lk_dataSize ll0 = ct_size T" "\<not> lk_freeElement ll0"
    and H: "typed_holds T ll0 m0 s t" "length (snd t) < 2 ^ 31" "length (snd t) * unat (ct_size T) < 2 ^ 64"
  shows "case value_apply op t of None \<Rightarrow> typed_apply T malloc op s = Inl Undefined
    | Some t' \<Rightarrow> \<exists>s'. typed_apply T malloc op s = Inr s' \<and> typed_holds T ll0 m0 s' t'"
proof -
  obtain out ll m vs calls where st: "s = (out, ll, m)" "t = (out, vs)"
    and r: "represents ll0 m0 (ll, m) (map (ct_bytes T) vs, calls)"
    using H(1) by (cases s; cases t) (auto simp: typed_holds_def)
  have size: "lk_dataSize ll = ct_size T" using represents_size [OF r] ll0(1) by simp
  show ?thesis
  proof (cases "untyped T op")
    case (Some op')
    have step: "case spec_apply False op' (map (ct_bytes T) vs, calls) of None \<Rightarrow> lk_apply malloc op' (ll, m) = Inl Undefined
      | Some t' \<Rightarrow> \<exists>s'. lk_apply malloc op' (ll, m) = Inr s' \<and> represents ll0 m0 s' t'"
      using lk_apply_represents [OF M r, of op'] untyped_ok [OF T Some] ll0 by simp
    have spec: "spec_apply False op' (map (ct_bytes T) vs, calls) =
        map_option (\<lambda>(out, vs'). (map (ct_bytes T) vs', calls)) (value_apply op (out, vs))"
      by (rule untyped_spec [OF Some])
    have out: "value_apply op (out, vs) = Some (out', vs') \<Longrightarrow> out' = out" for out' vs'
      using Some by (cases op) (auto split: if_splits)
    show ?thesis
    proof (cases "value_apply op (out, vs)")
      case None
      then show ?thesis using step unfolding spec st typed_untyped [OF size Some] by simp
    next
      case v: (Some t')
      then obtain vs' where t': "t' = (out, vs')" using out by (cases t') auto
      then obtain ll' m' where "lk_apply malloc op' (ll, m) = Inr (ll', m')" "represents ll0 m0 (ll', m') (map (ct_bytes T) vs', calls)"
        using step unfolding spec v by auto
      then show ?thesis unfolding st typed_untyped [OF size Some] using v t' by (auto simp: typed_holds_def)
    qed
  next
    case None
    obtain as where h: "lk_holds ll m as (map (ct_bytes T) vs)" using r by (auto simp: represents_def)
    have len: "length as = length vs" using lk_holds_length [OF h] by simp
    have same: "typed_holds T ll0 m0 (out', ll, m) (out', vs)" for out' using r by (auto simp: typed_holds_def)
    have size_v: "length (ct_bytes T v) = unat (ct_size T)" "ct_value T (ct_bytes T v) = v" for v
      using T by (simp_all add: ctype_ok_def)
    consider pos where "op = T_Get pos" | v where "op = T_IndexOf v" | "op = T_Size" using None by (cases op) auto
    then show ?thesis
    proof cases
      case 1
      show ?thesis
      proof (cases "nat pos < length vs")
        case True
        then have a: "first (drop (nat pos) as) None = Some (as ! nat pos)" by (simp add: len Cons_nth_drop_Suc [symmetric])
        have "as ! nat pos \<in> set as" using True len by simp
        then obtain n where n: "mem_nodes m (as ! nat pos) = Some n"
          using h chain_live [of "mem_nodes m" None as None] by (auto simp: lk_holds_def)
        have "map (data_at (mem_nodes m)) as ! nat pos = ct_bytes T (vs ! nat pos)" using h True by (simp add: lk_holds_def)
        then have "nd_data n = ct_bytes T (vs ! nat pos)" using True len n by (simp add: data_at_def)
        then show ?thesis using True same size
          by (simp add: 1 st lkT_defs lkLocate_holds [OF h] a lkGetNodeDataPtr_def n load_list_def size_v)
      next
        case False
        then show ?thesis using size by (simp add: 1 st lkT_defs lkLocate_holds [OF h] len lkGetNodeDataPtr_def deref_def)
      qed
    next
      case 2
      have inj: "ct_bytes T w = ct_bytes T v \<longleftrightarrow> w = v" for w v using size_v(2) by metis
      have "lkIndexOf ll (ct_bytes T v) m = Inr (if v \<in> set vs then int (length (takeWhile (\<lambda>w. w \<noteq> v) vs)) else - 1)"
        using lk_read_values [OF h, of "ct_bytes T v" "\<lambda>_ _. Inr False" "\<lambda>_. False"] H(2,3) size_v(1) size
        by (auto simp: st inj takeWhile_map comp_def image_iff)
      then show ?thesis using same size by (simp add: 2 st lkT_defs)
    next
      case 3
      have "lkSize ll = of_nat (length vs)" using h len by (simp add: lk_holds_def lkSize_def)
      then show ?thesis using same size by (simp add: 3 st lkT_defs)
    qed
  qed
qed

lemma value_length: "value_apply op (out, vs) = Some (out', vs') \<Longrightarrow> length vs' \<le> Suc (length vs)"
  by (cases op) (auto split: if_splits)

lemma typed_run:
  assumes T: "ctype_ok T" and M: "malloc_ok malloc" and ll0: "lk_dataSize ll0 = ct_size T" "\<not> lk_freeElement ll0"
    and H: "typed_holds T ll0 m0 s t" "length (snd t) + length ops < 2 ^ 31" "(length (snd t) + length ops) * unat (ct_size T) < 2 ^ 64"
  shows "case value_run ops t of None \<Rightarrow> for_each ops (typed_apply T malloc) s = Inl Undefined
    | Some t' \<Rightarrow> \<exists>s'. for_each ops (typed_apply T malloc) s = Inr s' \<and> typed_holds T ll0 m0 s' t'"
  using H
proof (induction ops arbitrary: s t)
  case (Cons op ops)
  have "length (snd t) * unat (ct_size T) \<le> (length (snd t) + length (op # ops)) * unat (ct_size T)"
    by (intro mult_le_mono1) simp
  then have b: "length (snd t) < 2 ^ 31" "length (snd t) * unat (ct_size T) < 2 ^ 64" using Cons.prems(2,3) by simp_all
  note step = typed_step [OF T M ll0 Cons.prems(1) b, of op]
  show ?case
  proof (cases "value_apply op t")
    case None
    then show ?thesis using step by simp
  next
    case (Some t')
    then obtain s' where s': "typed_apply T malloc op s = Inr s'" "typed_holds T ll0 m0 s' t'" using step by auto
    have l: "length (snd t') \<le> Suc (length (snd t))" using value_length Some by (cases t; cases t') auto
    then have "(length (snd t') + length ops) * unat (ct_size T) \<le> (length (snd t) + length (op # ops)) * unat (ct_size T)"
      by (intro mult_le_mono1) simp
    then show ?thesis using Cons.IH [OF s'(2)] Cons.prems(2,3) l s'(1) Some by (auto split: option.splits)
  qed
qed simp

text \<open>
  C27. A list made for a type and used through the functions of that type is a list of values of the
  type: what is read is what the operations on values give, an access past the end is the only
  thing that can go wrong, and memory that was in use before is not touched. The functions of a
  type of another size end the process before they look at the list.
\<close>

theorem typed_list_of_values:
  assumes "ctype_ok T" "malloc_ok malloc" "lkT_Init True T = Some ll0" "finite (dom (mem_nodes m0))"
    and "length ops < 2 ^ 31" "length ops * unat (ct_size T) < 2 ^ 64"
  shows "case value_run ops ([], []) of
      None \<Rightarrow> for_each ops (typed_apply T malloc) ([], ll0, m0) = Inl Undefined
    | Some (out, vs) \<Rightarrow> \<exists>ll m as. for_each ops (typed_apply T malloc) ([], ll0, m0) = Inr (out, ll, m) \<and>
        map (ct_value T \<circ> data_at (mem_nodes m)) as = vs \<and> chain (mem_nodes m) None as None \<and>
        (\<forall>b. mem_nodes m0 b \<noteq> None \<longrightarrow> b \<notin> set as \<and> mem_nodes m b = mem_nodes m0 b) \<and>
        (\<forall>T' :: 'b ctype. ct_size T' \<noteq> ct_size T \<longrightarrow> (\<forall>op out. typed_apply T' malloc op (out, ll, m) = Inl Exit))"
proof -
  have init: "lkInit True (ct_size T) False = Some ll0" using assms(3) by (simp add: lkT_Init_def)
  note r = lkInit_represents [OF init _ assms(4)]
  have T: "unat (ct_size T) + 16 < 2 ^ 64" using assms(1) by (simp add: ctype_ok_def)
  have "typed_holds T ll0 m0 ([], ll0, m0) ([], [])" using r(1) [OF T] by (auto simp: typed_holds_def)
  note run = typed_run [OF assms(1,2) r(2) [OF T] _ this, of ops] 
  show ?thesis
  proof (cases "value_run ops ([], [])")
    case None
    then show ?thesis using run r(3) [OF T] assms(5,6) by simp
  next
    case (Some t)
    obtain out vs where t: "t = (out, vs)" by (cases t)
    obtain ll m calls where s: "for_each ops (typed_apply T malloc) ([], ll0, m0) = Inr (out, ll, m)"
      "represents ll0 m0 (ll, m) (map (ct_bytes T) vs, calls)"
      using run r(3) [OF T] assms(5,6) Some t by (auto simp: typed_holds_def)
    obtain as where as: "lk_holds ll m as (map (ct_bytes T) vs)"
      "\<forall>b. mem_nodes m0 b \<noteq> None \<longrightarrow> b \<notin> set as \<and> mem_nodes m b = mem_nodes m0 b"
      using s(2) by (auto simp: represents_def)
    have "map (ct_value T) (map (data_at (mem_nodes m)) as) = map (ct_value T) (map (ct_bytes T) vs)"
      using as(1) by (simp only: lk_holds_def)
    then have "map (ct_value T \<circ> data_at (mem_nodes m)) as = vs" using assms(1) by (simp add: ctype_ok_def comp_def)
    moreover have "chain (mem_nodes m) None as None" using as(1) by (simp add: lk_holds_def)
    moreover have "typed_apply T' malloc op (out', ll, m) = Inl Exit" if "ct_size T' \<noteq> ct_size T" for T' :: "'b ctype" and op out'
      using typed_wrong_size represents_size [OF s(2)] r(2) [OF T] that by metis
    ultimately show ?thesis using Some t s(1) as(2) by auto
  qed
qed

section \<open>The test program\<close>

text \<open>\<open>int\<close> on a little-endian machine.\<close>

definition int_type :: "u32 ctype" where
  "int_type = \<lparr>ct_size = 4, ct_bytes = \<lambda>v. [ucast v, ucast (drop_bit 8 v), ucast (drop_bit 16 v), ucast (drop_bit 24 v)],
     ct_value = le_bytes\<rparr>"

lemma int_type_ok: "ctype_ok int_type"
proof -
  have "le_bytes [ucast v, ucast (drop_bit 8 v), ucast (drop_bit 16 v), ucast (drop_bit 24 v)] = v" for v :: u32
  proof (rule bit_word_eqI)
    fix n assume "n < LENGTH(32)"
    then have n: "n < 32" by simp
    then have "n div 8 = 0 \<or> n div 8 = 1 \<or> n div 8 = 2 \<or> n div 8 = 3" by linarith
    then show "bit (le_bytes [ucast v, ucast (drop_bit 8 v), ucast (drop_bit 16 v), ucast (drop_bit 24 v)] :: u32) n = bit v n"
      using n mult_div_mod_eq [of 8 n]
      by (elim disjE) (simp_all add: bit_le_bytes bit_ucast_iff bit_drop_bit_eq div_eq_0_iff del: le_bytes.simps)
  qed
  then show ?thesis by (simp add: ctype_ok_def int_type_def)
qed

datatype test_event = Listed size_t "int list" | Found u32 int | Array "int list" | Done

partial_function (option) print_loop :: "lk_list \<Rightarrow> node_ptr \<Rightarrow> lk_mem \<Rightarrow> int list \<Rightarrow> int list res option" where
  [code]: "print_loop ll current m out = (if current = None then Some (Inr out)
     else (case bnd (lkT_GetNodeData int_type ll current m) (\<lambda>v. map_res (Pair v) (deref m current)) of
       Inl e \<Rightarrow> Some (Inl e)
     | Inr (v, n) \<Rightarrow> print_loop ll (nd_next n) m (out @ [sint v])))"

definition printList :: "lk_list \<Rightarrow> lk_mem \<Rightarrow> test_event res" where
  "printList ll m = map_res (Listed (lk_size ll)) (returned (print_loop ll (lk_head ll) m []))"

text \<open>The statements of the program, and the program.\<close>

datatype test_cmd = Do "u32 typed_op" | Print_List | Insert_Head u32 | Print_Index u32 | Print_Array

type_synonym test_state = "test_event list \<times> lk_list \<times> lk_mem"

definition print_array :: "lk_list \<Rightarrow> bytes option \<Rightarrow> test_event res" where
  "print_array ll arr = map_res Array (for_each [0..<unat (lkSize ll)] (\<lambda>i out.
     case arr of None \<Rightarrow> Inl Undefined
     | Some bs \<Rightarrow> bnd (load_list bs (4 * i) 4) (\<lambda>b. Inr (out @ [sint (ct_value int_type b)]))) [])"

fun test_step :: "(lk_mem \<Rightarrow> nat option) \<Rightarrow> test_cmd \<Rightarrow> test_state \<Rightarrow> test_state res" where
  "test_step malloc (Do op) (ev, ll, m) =
     map_res (\<lambda>(out, ll, m). (ev, ll, m)) (typed_apply int_type malloc op ([], ll, m))"
| "test_step malloc Print_List (ev, ll, m) = map_res (\<lambda>e. (ev @ [e], ll, m)) (printList ll m)"
| "test_step malloc (Insert_Head v) (ev, ll, m) =
     map_res (\<lambda>(ok, ll, m). (ev, ll, m)) (lkT_Insert int_type malloc ll (lkHead ll) v m)"
| "test_step malloc (Print_Index v) (ev, ll, m) = map_res (\<lambda>i. (ev @ [Found v i], ll, m)) (lkT_IndexOf int_type ll v m)"
| "test_step malloc Print_Array (ev, ll, m) =
     bnd (lkT_CopyToNewArray True int_type ll m) (\<lambda>arr. map_res (\<lambda>e. (ev @ [e], ll, m)) (print_array ll arr))"

definition test_program :: "test_cmd list" where
  "test_program =
     [Do (T_Insert 0 1), Do (T_Insert 0 2), Do (T_Insert 0 3), Do (T_Append 400), Print_List,
      Do (T_Remove 0), Do (T_Remove 1), Print_List,
      Do (T_Remove 1), Print_List,
      Do (T_Set 0 500), Print_List,
      Do (T_Remove 0), Print_List,
      Do (T_Append 20), Insert_Head 40, Print_List,
      Print_Index 20, Print_Index 40, Print_Index 60,
      Do T_Clear, Print_List,
      Do (T_Append (- 4)), Do (T_Append (- 6)), Insert_Head 0, Print_Array]"

definition test_main :: "(lk_mem \<Rightarrow> nat option) \<Rightarrow> lk_mem \<Rightarrow> (test_event list \<times> lk_mem) res" where
  "test_main malloc m = (case lkT_Init True int_type of None \<Rightarrow> Inl Undefined
     | Some ll \<Rightarrow> bnd (for_each test_program (test_step malloc) ([], ll, m)) (\<lambda>(ev, ll, m).
         map_res (Pair (ev @ [Done])) (lkDestroy ll m)))"

fun test_spec :: "test_cmd \<Rightarrow> test_event list \<times> u32 list \<Rightarrow> (test_event list \<times> u32 list) option" where
  "test_spec (Do op) (ev, vs) = map_option (\<lambda>(out, vs). (ev, vs)) (value_apply op ([], vs))"
| "test_spec Print_List (ev, vs) = Some (ev @ [Listed (of_nat (length vs)) (map sint vs)], vs)"
| "test_spec (Insert_Head v) (ev, vs) = Some (ev, v # vs)"
| "test_spec (Print_Index v) (ev, vs) =
     Some (ev @ [Found v (if v \<in> set vs then int (length (takeWhile (\<lambda>w. w \<noteq> v) vs)) else - 1)], vs)"
| "test_spec Print_Array (ev, vs) = Some (ev @ [Array (map sint vs)], vs)"

fun test_specs :: "test_cmd list \<Rightarrow> test_event list \<times> u32 list \<Rightarrow> (test_event list \<times> u32 list) option" where
  "test_specs [] t = Some t"
| "test_specs (c # cs) t = (case test_spec c t of None \<Rightarrow> None | Some t' \<Rightarrow> test_specs cs t')"

lemma test_program_spec:
  "test_specs test_program ([], []) = Some
     ([Listed 4 [3, 2, 1, 400], Listed 2 [2, 400], Listed 1 [2], Listed 1 [500], Listed 0 [], Listed 2 [40, 20],
       Found 20 1, Found 40 0, Found 60 (- 1), Listed 0 [], Array [0, - 4, - 6]], [0, - 4, - 6])"
  by (simp add: test_program_def)

lemma print_loop_chain:
  assumes "chain (mem_nodes m) p as None" "map (data_at (mem_nodes m)) as = map (ct_bytes int_type) vs" "lk_dataSize ll = ct_size int_type"
  shows "print_loop ll (first as None) m out = Some (Inr (out @ map sint vs))"
  using assms(1,2)
proof (induction as arbitrary: p vs out)
  case Nil
  then show ?case by (subst print_loop.simps) simp
next
  case (Cons a as)
  obtain v ws where vs: "vs = v # ws" "data_at (mem_nodes m) a = ct_bytes int_type v"
    "map (data_at (mem_nodes m)) as = map (ct_bytes int_type) ws"
    using Cons.prems(2) by (cases vs) auto
  obtain n where n: "mem_nodes m a = Some n" "nd_next n = first as None" "nd_data n = ct_bytes int_type v"
    using Cons.prems(1) vs(2) by (auto simp: data_at_def)
  have "lkT_GetNodeData int_type ll (Some a) m = Inr v"
    using int_type_ok n assms(3) by (simp add: lkT_GetNodeData_def lkGetNodeDataPtr_def load_list_def ctype_ok_def)
  then show ?case using Cons.IH [of "Some a" ws "out @ [sint v]"] Cons.prems(1) vs n
    by (subst print_loop.simps) simp
qed

lemma print_array_values:
  assumes "lk_size ll = of_nat (length vs)" "length vs < 2 ^ 31"
  shows "print_array ll (if vs = [] then None else Some (concat (map (ct_bytes int_type) vs))) = Inr (Array (map sint vs))"
proof -
  let ?bs = "concat (map (ct_bytes int_type) vs)"
  have four: "length (ct_bytes int_type v) = 4" and val: "ct_value int_type (ct_bytes int_type v) = v" for v
    using int_type_ok by (simp_all add: ctype_ok_def) (simp add: int_type_def)
  have len: "length (concat (map (ct_bytes int_type) ws)) = 4 * length ws" for ws by (induction ws) (simp_all add: four)
  have cell: "load_list ?bs (4 * i) 4 = Inr (ct_bytes int_type (vs ! i))" if i: "i < length vs" for i
  proof -
    have "?bs = concat (map (ct_bytes int_type) (take i vs)) @ ct_bytes int_type (vs ! i) @
        concat (map (ct_bytes int_type) (drop (Suc i) vs))"
      using i by (metis append_take_drop_id concat.simps(2) concat_append Cons_nth_drop_Suc list.simps(9) map_append)
    then show ?thesis using i len [of "take i vs"] four by (simp add: load_list_def)
  qed
  have n: "unat (lkSize ll) = length vs" using assms by (simp add: lkSize_def unat_of_nat_small)
  have "for_each is (\<lambda>i out. case if vs = [] then None else Some ?bs of None \<Rightarrow> Inl Undefined
      | Some bs \<Rightarrow> bnd (load_list bs (4 * i) 4) (\<lambda>b. Inr (out @ [sint (ct_value int_type b)]))) out =
      Inr (out @ map (\<lambda>i. sint (vs ! i)) is)" if "\<forall>i \<in> set is. i < length vs" for "is" out
    using that
  proof (induction "is" arbitrary: out)
    case (Cons i "is")
    then have "vs \<noteq> []" "i < length vs" by auto
    then show ?case using Cons by (simp add: cell val)
  qed simp
  moreover have "map (\<lambda>i. sint (vs ! i)) [0..<length vs] = map sint vs" by (rule nth_equalityI) simp_all
  ultimately show ?thesis unfolding print_array_def n by simp
qed

definition test_holds :: "lk_list \<Rightarrow> lk_mem \<Rightarrow> test_state \<Rightarrow> test_event list \<times> u32 list \<Rightarrow> bool" where
  "test_holds ll0 m0 s t \<longleftrightarrow> fst s = fst t \<and> typed_holds int_type ll0 m0 ([], snd s) ([], snd t)"

lemma test_step_holds:
  assumes M: "malloc_ok malloc" and ll0: "lk_dataSize ll0 = ct_size int_type" "\<not> lk_freeElement ll0"
    and H: "test_holds ll0 m0 s t" "length (snd t) < 2 ^ 31"
  shows "case test_spec c t of None \<Rightarrow> test_step malloc c s = Inl Undefined
    | Some t' \<Rightarrow> \<exists>s'. test_step malloc c s = Inr s' \<and> test_holds ll0 m0 s' t' \<and> length (snd t') \<le> Suc (length (snd t))"
proof -
  obtain ev ll m vs calls where st: "s = (ev, ll, m)" "t = (ev, vs)"
    and h: "typed_holds int_type ll0 m0 ([], ll, m) ([], vs)" and r: "represents ll0 m0 (ll, m) (map (ct_bytes int_type) vs, calls)"
    using H(1) by (cases s; cases t) (auto simp: test_holds_def typed_holds_def)
  obtain as where as: "lk_holds ll m as (map (ct_bytes int_type) vs)" using r by (auto simp: represents_def)
  have size: "lk_dataSize ll = ct_size int_type" "unat (ct_size int_type) = 4"
    using represents_size [OF r] ll0(1) by (simp_all add: int_type_def)
  have b: "length vs < 2 ^ 31" "length vs * unat (ct_size int_type) < 2 ^ 64" using H(2) by (simp_all add: st size(2))
  have len: "length as = length vs" using lk_holds_length [OF as] by simp
  have four: "length (ct_bytes int_type v) = 4" for v using int_type_ok by (simp add: ctype_ok_def size(2))
  note step = typed_step [OF int_type_ok M ll0 h, unfolded snd_conv, OF b]
  have head: "lkT_Insert int_type malloc ll (lkHead ll) v m =
      bnd (lkT_Locate int_type ll 0 m) (\<lambda>w. lkT_Insert int_type malloc ll w v m)" for v
    using size by (simp add: lkT_Locate_def lkLocate_def lkHead_def)
  show ?thesis
  proof (cases c)
    case (Do op)
    show ?thesis
    proof (cases "value_apply op ([], vs)")
      case None
      then show ?thesis using step [of op] by (simp add: Do st)
    next
      case (Some t')
      obtain out vs' where t': "t' = (out, vs')" by (cases t')
      obtain ll' m' where "typed_apply int_type malloc op ([], ll, m) = Inr (out, ll', m')"
        "typed_holds int_type ll0 m0 (out, ll', m') (out, vs')"
        using step [of op] Some t' by (auto simp: typed_holds_def)
      then show ?thesis using Some t' value_length [of op "[]" vs]
        by (auto simp: Do st test_holds_def typed_holds_def)
    qed
  next
    case Print_List
    have "print_loop ll (lk_head ll) m [] = Some (Inr (map sint vs))"
      using print_loop_chain [of m None as vs ll "[]"] as size(1) by (simp add: lk_holds_def)
    moreover have "lk_size ll = of_nat (length vs)" using as len by (simp add: lk_holds_def)
    ultimately show ?thesis using h by (simp add: Print_List st printList_def test_holds_def)
  next
    case (Insert_Head v)
    obtain ll' m' where "typed_apply int_type malloc (T_Insert 0 v) ([], ll, m) = Inr ([], ll', m')"
      "typed_holds int_type ll0 m0 ([], ll', m') ([], v # vs)"
      using step [of "T_Insert 0 v"] by (auto simp: typed_holds_def)
    moreover have "test_step malloc (Insert_Head v) s = test_step malloc (Do (T_Insert 0 v)) s"
      by (simp add: st head map_res_def bnd_assoc split_beta cong: bnd_cong)
    ultimately show ?thesis by (simp add: Insert_Head st test_holds_def)
  next
    case (Print_Index v)
    obtain s' where "typed_apply int_type malloc (T_IndexOf v) ([], ll, m) = Inr s'"
      "typed_holds int_type ll0 m0 s' ([Index (if v \<in> set vs then int (length (takeWhile (\<lambda>w. w \<noteq> v) vs)) else - 1)], vs)"
      using step [of "T_IndexOf v"] by auto
    then have "lkT_IndexOf int_type ll v m = Inr (if v \<in> set vs then int (length (takeWhile (\<lambda>w. w \<noteq> v) vs)) else - 1)"
      by (cases "lkT_IndexOf int_type ll v m") (auto simp: typed_holds_def)
    then show ?thesis using h by (simp add: Print_Index st test_holds_def)
  next
    case Print_Array
    have "lkCopyToNewArray True ll m = Inr (if concat (map (ct_bytes int_type) vs) = [] then None else Some (concat (map (ct_bytes int_type) vs)))"
      using lk_read_values [OF as, of "ct_bytes int_type 0" "\<lambda>_ _. Inr False" "\<lambda>_. False"] b size four by simp
    moreover have "concat (map (ct_bytes int_type) vs) = [] \<longleftrightarrow> vs = []" by (cases vs) (auto simp: int_type_def)
    ultimately have "lkT_CopyToNewArray True int_type ll m = Inr (if vs = [] then None else Some (concat (map (ct_bytes int_type) vs)))"
      using size(1) by (simp add: lkT_CopyToNewArray_def)
    moreover have "lk_size ll = of_nat (length vs)" using as len by (simp add: lk_holds_def)
    ultimately show ?thesis using h print_array_values [of ll vs] b(1) by (simp add: Print_Array st test_holds_def)
  qed
qed

lemma test_steps:
  assumes M: "malloc_ok malloc" and ll0: "lk_dataSize ll0 = ct_size int_type" "\<not> lk_freeElement ll0"
    and H: "test_holds ll0 m0 s t" "length (snd t) + length cs < 2 ^ 31"
  shows "case test_specs cs t of None \<Rightarrow> for_each cs (test_step malloc) s = Inl Undefined
    | Some t' \<Rightarrow> \<exists>s'. for_each cs (test_step malloc) s = Inr s' \<and> test_holds ll0 m0 s' t'"
  using H
proof (induction cs arbitrary: s t)
  case (Cons c cs)
  note step = test_step_holds [OF M ll0 Cons.prems(1), of c]
  show ?case
  proof (cases "test_spec c t")
    case None
    then show ?thesis using step Cons.prems(2) by simp
  next
    case (Some t')
    then obtain s' where "test_step malloc c s = Inr s'" "test_holds ll0 m0 s' t'" "length (snd t') \<le> Suc (length (snd t))"
      using step Cons.prems(2) by auto
    then show ?thesis using Cons.IH [of s' t'] Cons.prems(2) Some by (auto split: option.splits)
  qed
qed simp

text \<open>
  The test program of the list, with any allocator that finds memory, prints exactly what the
  comments beside its statements announce, and gives up the list without a fault.
\<close>

theorem lk_test_program:
  assumes "malloc_ok malloc" "finite (dom (mem_nodes m))"
  shows "\<exists>m'. test_main malloc m = Inr
    ([Listed 4 [3, 2, 1, 400], Listed 2 [2, 400], Listed 1 [2], Listed 1 [500], Listed 0 [], Listed 2 [40, 20],
      Found 20 1, Found 40 0, Found 60 (- 1), Listed 0 [], Array [0, - 4, - 6], Done], m') \<and>
    (\<forall>b. mem_nodes m b \<noteq> None \<longrightarrow> mem_nodes m' b = mem_nodes m b)"
proof -
  obtain ll0 where ll0: "lkT_Init True int_type = Some ll0" by (simp add: lkT_Init_def lkInit_def)
  then have init: "lkInit True (ct_size int_type) False = Some ll0" by (simp add: lkT_Init_def)
  have "unat (ct_size int_type) + 16 < 2 ^ 64" by (simp add: int_type_def)
  note r = lkInit_represents [OF init this assms(2)]
  have "test_holds ll0 m ([], ll0, m) ([], [])" using r(1) by (auto simp: test_holds_def typed_holds_def)
  from test_steps [OF assms(1) r(2) _ this, of test_program] r(3)
  obtain ev ll m1 vs calls where s: "for_each test_program (test_step malloc) ([], ll0, m) = Inr (ev, ll, m1)"
    "ev = [Listed 4 [3, 2, 1, 400], Listed 2 [2, 400], Listed 1 [2], Listed 1 [500], Listed 0 [], Listed 2 [40, 20],
      Found 20 1, Found 40 0, Found 60 (- 1), Listed 0 [], Array [0, - 4, - 6]]"
    "represents ll0 m (ll, m1) (vs, calls)"
    unfolding test_program_spec by (auto simp: test_holds_def typed_holds_def test_program_def)
  then obtain as where as: "lk_holds ll m1 as vs" "\<forall>b. mem_nodes m b \<noteq> None \<longrightarrow> b \<notin> set as \<and> mem_nodes m1 b = mem_nodes m b"
    by (auto simp: represents_def)
  obtain ll' m' where c: "lkClear ll m1 = Inr (ll', m')"
    "mem_nodes m' = (\<lambda>x. if x \<in> set (butlast (tl as)) then None else mem_nodes m1 x)"
    using lkClear_holds [OF as(1)] by blast
  have "b \<in> set (butlast (tl as)) \<Longrightarrow> b \<in> set as" for b by (cases as) (auto dest: in_set_butlastD)
  then have "\<forall>b. mem_nodes m b \<noteq> None \<longrightarrow> mem_nodes m' b = mem_nodes m b" using as(2) c(2) by auto
  then show ?thesis using ll0 s(1,2) c(1) by (auto simp: test_main_def lkDestroy_def)
qed

theorem lk_test_program_witness:
  "map_res fst (test_main example_malloc \<lparr>mem_nodes = \<lambda>_. None, mem_called = []\<rparr>) = Inr
    [Listed 4 [3, 2, 1, 400], Listed 2 [2, 400], Listed 1 [2], Listed 1 [500], Listed 0 [], Listed 2 [40, 20],
     Found 20 1, Found 40 0, Found 60 (- 1), Listed 0 [], Array [0, - 4, - 6], Done]"
proof -
  have "finite (dom (mem_nodes \<lparr>mem_nodes = \<lambda>_. None, mem_called = []\<rparr>))" by simp
  from lk_test_program [OF example_malloc_ok this] show ?thesis by auto
qed

text \<open>An insertion, a read, and then a read past the end.\<close>

theorem typed_list_of_values_witness:
  "\<exists>ll m. for_each [T_Append 7, T_Insert 0 9, T_Get 1, T_IndexOf 9, T_Size] (typed_apply int_type example_malloc)
     ([], \<lparr>lk_head = None, lk_tail = None, lk_size = 0, lk_dataSize = 4, lk_freeElement = False\<rparr>,
      \<lparr>mem_nodes = \<lambda>_. None, mem_called = []\<rparr>) = Inr ([Value 7, Index 0, Count 2], ll, m) \<and>
   for_each [T_Append 7, T_Get 1] (typed_apply int_type example_malloc)
     ([], \<lparr>lk_head = None, lk_tail = None, lk_size = 0, lk_dataSize = 4, lk_freeElement = False\<rparr>,
      \<lparr>mem_nodes = \<lambda>_. None, mem_called = []\<rparr>) = Inl Undefined"
proof -
  let ?ll = "\<lparr>lk_head = None, lk_tail = None, lk_size = 0, lk_dataSize = 4, lk_freeElement = False\<rparr>"
  let ?m = "\<lparr>mem_nodes = \<lambda>_. None, mem_called = []\<rparr>"
  have init: "lkT_Init True int_type = Some ?ll" by (simp add: lkT_Init_def lkInit_def int_type_def)
  have f: "finite (dom (mem_nodes ?m))" by simp
  have four: "unat (ct_size int_type) = 4" by (simp add: int_type_def)
  note t = typed_list_of_values [OF int_type_ok example_malloc_ok init f, unfolded four]
  have "\<exists>ll m. for_each [T_Append 7, T_Insert 0 9, T_Get 1, T_IndexOf 9, T_Size] (typed_apply int_type example_malloc) ([], ?ll, ?m) =
      Inr ([Value 7, Index 0, Count 2], ll, m)"
    using t [of "[T_Append 7, T_Insert 0 9, T_Get 1, T_IndexOf 9, T_Size]"] by auto
  moreover have "for_each [T_Append 7, T_Get 1] (typed_apply int_type example_malloc) ([], ?ll, ?m) = Inl Undefined"
    using t [of "[T_Append 7, T_Get 1]"] by simp
  ultimately show ?thesis by blast
qed

end
