(* ===== verification/LruCache.thy ===== *)
theory LruCache
  imports Prelude
begin

text \<open>
  \<open>caching/include/caching/lru_cache.h\<close> and \<open>tuple_hash.h\<close>. The cache keeps a \<open>std::list\<close> of entries,
  most recently used first, and a hash map from keys to iterators. An iterator of a \<open>std::list\<close>
  stays valid when the list changes around it, so each list node carries an identity and the map
  holds identities; to follow one that is no longer in the list is undefined.
\<close>

section \<open>The cache\<close>

record ('k, 'v) lru_cache =
  lru_capacity :: size_t
  lru_cells :: "(nat \<times> 'k \<times> 'v) list"
  lru_map :: "'k \<Rightarrow> nat option"
  lru_allocated :: nat

definition lru_new :: "size_t \<Rightarrow> ('k, 'v) lru_cache" where
  "lru_new capacity = \<lparr>lru_capacity = capacity, lru_cells = [], lru_map = Map.empty, lru_allocated = 0\<rparr>"

definition follow :: "nat \<Rightarrow> (nat \<times> 'k \<times> 'v) list \<Rightarrow> ('k \<times> 'v) res" where
  "follow it cells = (case map_of cells it of None \<Rightarrow> Inl Undefined | Some e \<Rightarrow> Inr e)"

text \<open>\<open>cache_.splice(cache_.begin(), cache_, it)\<close>\<close>

definition splice_front :: "nat \<Rightarrow> (nat \<times> 'k \<times> 'v) list \<Rightarrow> (nat \<times> 'k \<times> 'v) list res" where
  "splice_front it cells =
     map_res (\<lambda>e. (it, e) # filter (\<lambda>c. fst c \<noteq> it) cells) (follow it cells)"

text \<open>The result says whether the key was there; the reference parameter \<open>val\<close> is returned too.\<close>

definition lru_get :: "'k \<Rightarrow> 'v \<Rightarrow> ('k, 'v) lru_cache \<Rightarrow> (bool \<times> 'v \<times> ('k, 'v) lru_cache) res" where
  "lru_get key val s = (case lru_map s key of
     None \<Rightarrow> Inr (False, val, s)
   | Some it \<Rightarrow> bnd (splice_front it (lru_cells s)) (\<lambda>cells.
       bnd (follow it cells) (\<lambda>(k, v). Inr (True, v, s\<lparr>lru_cells := cells\<rparr>))))"

definition lru_put :: "'k \<Rightarrow> 'v \<Rightarrow> ('k, 'v) lru_cache \<Rightarrow> ('k, 'v) lru_cache res" where
  "lru_put key val s = (case lru_map s key of
     Some it \<Rightarrow> bnd (follow it (lru_cells s)) (\<lambda>e.
       let cells = map (\<lambda>c. if fst c = it then (it, fst e, val) else c) (lru_cells s)
       in bnd (splice_front it cells) (\<lambda>cells. Inr (s\<lparr>lru_cells := cells\<rparr>)))
   | None \<Rightarrow>
       bnd (if of_nat (length (lru_cells s)) = lru_capacity s
            then (if lru_cells s = [] then Inl Undefined
                  else Inr (s\<lparr>lru_map := (lru_map s)(fst (snd (last (lru_cells s))) := None),
                              lru_cells := butlast (lru_cells s)\<rparr>))
            else Inr s) (\<lambda>s.
       Inr (s\<lparr>lru_cells := (lru_allocated s, key, val) # lru_cells s,
              lru_map := (lru_map s)(key \<mapsto> lru_allocated s),
              lru_allocated := Suc (lru_allocated s)\<rparr>)))"

text \<open>\<open>TupleHash::hashTuple\<close>, from the hashes of the components.\<close>

definition hash_step :: "u64 \<Rightarrow> u64 \<Rightarrow> u64" where
  "hash_step seed' h = seed' XOR (h + 0x9e3779b97f4a7c15 + push_bit 6 seed' + drop_bit 2 seed')"

definition hashTuple :: "u64 list \<Rightarrow> u64" where
  "hashTuple hs = foldl hash_step 0 hs"

lemma hash_step_inj: "hash_step s h = hash_step s h' \<longleftrightarrow> h = h'"
proof
  assume "hash_step s h = hash_step s h'"
  then have "s XOR hash_step s h = s XOR hash_step s h'" by simp
  then show "h = h'" by (simp add: hash_step_def xor.assoc [symmetric])
qed simp

lemma hashTuple_last: "hashTuple (hs @ [h]) = hashTuple (hs @ [h']) \<longleftrightarrow> h = h'"
  by (simp add: hashTuple_def hash_step_inj)

section \<open>The specification\<close>

text \<open>
  The entries in the order of their last use; a use moves a key to the front, and what does not
  fit any more falls off the end.
\<close>

type_synonym ('k, 'v) recency = "('k \<times> 'v) list"

definition without :: "'k \<Rightarrow> ('k, 'v) recency \<Rightarrow> ('k, 'v) recency" where
  "without k xs = filter (\<lambda>e. fst e \<noteq> k) xs"

definition spec_get :: "'k \<Rightarrow> ('k, 'v) recency \<Rightarrow> 'v option \<times> ('k, 'v) recency" where
  "spec_get k xs = (case map_of xs k of None \<Rightarrow> (None, xs) | Some v \<Rightarrow> (Some v, (k, v) # without k xs))"

definition spec_put :: "nat \<Rightarrow> 'k \<Rightarrow> 'v \<Rightarrow> ('k, 'v) recency \<Rightarrow> ('k, 'v) recency" where
  "spec_put n k v xs = take n ((k, v) # without k xs)"

datatype ('k, 'v) cache_op = Get 'k 'v | Put 'k 'v

fun lru_step :: "('k, 'v) cache_op \<Rightarrow> 'v option list \<times> ('k, 'v) lru_cache \<Rightarrow> ('v option list \<times> ('k, 'v) lru_cache) res" where
  "lru_step (Get k val) (hits, s) =
     map_res (\<lambda>(found, v, s). (hits @ [if found then Some v else None], s)) (lru_get k val s)"
| "lru_step (Put k v) (hits, s) = map_res (Pair hits) (lru_put k v s)"

fun spec_step :: "nat \<Rightarrow> 'v option list \<times> ('k, 'v) recency \<Rightarrow> ('k, 'v) cache_op \<Rightarrow> 'v option list \<times> ('k, 'v) recency" where
  "spec_step n (hits, xs) (Get k val) = (case spec_get k xs of (r, xs) \<Rightarrow> (hits @ [r], xs))"
| "spec_step n (hits, xs) (Put k v) = (hits, spec_put n k v xs)"

section \<open>The cache against its specification\<close>

definition lru_inv :: "('k, 'v) lru_cache \<Rightarrow> ('k, 'v) recency \<Rightarrow> bool" where
  "lru_inv s xs \<longleftrightarrow> map snd (lru_cells s) = xs \<and> distinct (map fst xs) \<and> distinct (map fst (lru_cells s)) \<and>
     (\<forall>it k v. (it, k, v) \<in> set (lru_cells s) \<longrightarrow> lru_map s k = Some it \<and> it < lru_allocated s) \<and>
     (\<forall>k. k \<notin> fst ` set xs \<longrightarrow> lru_map s k = None) \<and> length xs \<le> unat (lru_capacity s)"

lemma follow_in: "distinct (map fst cells) \<Longrightarrow> (it, e) \<in> set cells \<Longrightarrow> follow it cells = Inr e"
  by (simp add: follow_def)

lemma splice_front_in:
  "distinct (map fst cells) \<Longrightarrow> (it, e) \<in> set cells \<Longrightarrow>
   splice_front it cells = Inr ((it, e) # filter (\<lambda>c. fst c \<noteq> it) cells)"
  by (simp add: splice_front_def follow_in)

lemma distinct_map_eq: "distinct (map f xs) \<Longrightarrow> x \<in> set xs \<Longrightarrow> y \<in> set xs \<Longrightarrow> f x = f y \<longleftrightarrow> x = y"
  by (auto simp: distinct_map inj_on_eq_iff)

text \<open>Leaving out the cell of an iterator leaves out its key.\<close>

lemma filter_cells:
  assumes "distinct (map fst cells)" "distinct (map (fst \<circ> snd) cells)" "(it, k, v) \<in> set cells"
  shows "map snd (filter (\<lambda>c. fst c \<noteq> it) cells) = without k (map snd cells)"
proof -
  have "fst c \<noteq> it \<longleftrightarrow> fst (snd c) \<noteq> k" if "c \<in> set cells" for c
    using distinct_map_eq [OF assms(1) that assms(3)] distinct_map_eq [OF assms(2) that assms(3)] by simp
  then have "filter (\<lambda>c. fst c \<noteq> it) cells = filter (\<lambda>c. fst (snd c) \<noteq> k) cells" by (intro filter_cong) simp_all
  then show ?thesis by (simp add: without_def filter_map comp_def)
qed

lemma without_absent: "k \<notin> fst ` set xs \<Longrightarrow> without k xs = xs"
  by (force simp: without_def intro!: filter_True)

lemma length_without: "distinct (map fst xs) \<Longrightarrow> k \<in> fst ` set xs \<Longrightarrow> Suc (length (without k xs)) = length xs"
proof (induction xs)
  case (Cons x xs)
  show ?case
  proof (cases "fst x = k")
    case True
    then have "without k xs = xs" using Cons.prems(1) by (intro without_absent) auto
    then show ?thesis using True by (simp add: without_def)
  next
    case False
    then show ?thesis using Cons by (auto simp: without_def)
  qed
qed simp

lemma lru_inv_keys: "lru_inv s xs \<Longrightarrow> distinct (map (fst \<circ> snd) (lru_cells s))"
  unfolding lru_inv_def by auto

lemma lru_inv_absent: "lru_inv s xs \<Longrightarrow> k \<notin> fst ` set xs \<Longrightarrow> lru_map s k = None"
  unfolding lru_inv_def by blast

lemma lru_inv_present:
  assumes "lru_inv s xs" "map_of xs k = Some v"
  shows "\<exists>it. lru_map s k = Some it \<and> (it, k, v) \<in> set (lru_cells s)"
proof -
  have "(k, v) \<in> snd ` set (lru_cells s)" using map_of_SomeD [OF assms(2)] assms(1) by (auto simp: lru_inv_def)
  then obtain it where "(it, k, v) \<in> set (lru_cells s)" by auto
  then show ?thesis using assms(1) unfolding lru_inv_def by blast
qed

text \<open>Moving the cell of a key to the front, with a new value.\<close>

lemma lru_inv_front:
  assumes inv: "lru_inv s xs" and it: "(it, k, w) \<in> set (lru_cells s)"
  shows "lru_inv (s\<lparr>lru_cells := (it, k, v) # filter (\<lambda>c. fst c \<noteq> it) (lru_cells s)\<rparr>) ((k, v) # without k xs)"
proof -
  let ?cells = "filter (\<lambda>c. fst c \<noteq> it) (lru_cells s)"
  have d: "distinct (map fst (lru_cells s))" "distinct (map fst xs)" "xs = map snd (lru_cells s)" "length xs \<le> unat (lru_capacity s)"
    using inv unfolding lru_inv_def by auto
  have m: "map snd ?cells = without k xs" using filter_cells [OF d(1) lru_inv_keys [OF inv] it] d(3) by simp
  have in_xs: "k \<in> fst ` set xs" using it d(3) by force
  have keys: "fst ` set ((k, v) # without k xs) = fst ` set xs" using in_xs by (auto simp: without_def)
  have len: "length ((k, v) # without k xs) = length xs" using length_without [OF d(2) in_xs] by simp
  have "distinct (map fst (without k xs))" "k \<notin> fst ` set (without k xs)"
    using d(2) by (auto simp: without_def distinct_map intro: inj_on_subset)
  moreover have "distinct (map fst ?cells)" using d(1) by (auto simp: distinct_map intro: inj_on_subset)
  moreover have "lru_map s k = Some it \<and> it < lru_allocated s" using inv it unfolding lru_inv_def by blast
  moreover have "\<forall>j k' v'. (j, k', v') \<in> set (lru_cells s) \<longrightarrow> lru_map s k' = Some j \<and> j < lru_allocated s"
    using inv unfolding lru_inv_def by blast
  ultimately show ?thesis
    unfolding lru_inv_def keys len using m d(4) lru_inv_absent [OF inv] by auto
qed

lemma lru_get_spec:
  assumes "lru_inv s xs"
  shows "\<exists>s'. lru_get k val s = Inr (map_of xs k \<noteq> None, case map_of xs k of None \<Rightarrow> val | Some v \<Rightarrow> v, s') \<and>
    lru_inv s' (snd (spec_get k xs)) \<and> lru_capacity s' = lru_capacity s"
proof (cases "map_of xs k")
  case None
  then have "lru_map s k = None" using lru_inv_absent [OF assms] by (simp add: map_of_eq_None_iff)
  then show ?thesis using None assms by (simp add: lru_get_def spec_get_def)
next
  case (Some v)
  obtain it where it: "lru_map s k = Some it" "(it, k, v) \<in> set (lru_cells s)" using lru_inv_present [OF assms Some] by blast
  have "distinct (map fst (lru_cells s))" using assms unfolding lru_inv_def by blast
  note sp = splice_front_in [OF this it(2)]
  show ?thesis
    using Some it(1) sp lru_inv_front [OF assms it(2), of v] by (simp add: lru_get_def spec_get_def follow_def)
qed

lemma lru_put_found:
  assumes inv: "lru_inv s xs" and k: "map_of xs k = Some w"
  shows "\<exists>s'. lru_put k v s = Inr s' \<and> lru_inv s' (spec_put (unat (lru_capacity s)) k v xs) \<and> lru_capacity s' = lru_capacity s"
proof -
  obtain it where it: "lru_map s k = Some it" "(it, k, w) \<in> set (lru_cells s)" using lru_inv_present [OF inv k] by blast
  have d: "distinct (map fst (lru_cells s))" "distinct (map fst xs)" "length xs \<le> unat (lru_capacity s)"
    using inv unfolding lru_inv_def by auto
  let ?f = "\<lambda>c. if fst c = it then (it, k, v) else c"
  have f: "map fst (map ?f (lru_cells s)) = map fst (lru_cells s)" by auto
  have "(it, k, v) \<in> set (map ?f (lru_cells s))" using it(2) by force
  then have "splice_front it (map ?f (lru_cells s)) = Inr ((it, k, v) # filter (\<lambda>c. fst c \<noteq> it) (map ?f (lru_cells s)))"
    by (intro splice_front_in) (simp_all only: f d(1))
  moreover have "filter (\<lambda>c. fst c \<noteq> it) (map ?f cs) = filter (\<lambda>c. fst c \<noteq> it) cs" for cs :: "(nat \<times> 'a \<times> 'b) list"
    by (induction cs) auto
  ultimately have "lru_put k v s = Inr (s\<lparr>lru_cells := (it, k, v) # filter (\<lambda>c. fst c \<noteq> it) (lru_cells s)\<rparr>)"
    using it(1) follow_in [OF d(1) it(2)] by (simp add: lru_put_def cong: if_cong)
  moreover have "k \<in> fst ` set xs" using map_of_SomeD [OF k] by force
  then have "spec_put (unat (lru_capacity s)) k v xs = (k, v) # without k xs"
    using length_without [OF d(2), of k] d(3) by (simp add: spec_put_def)
  ultimately show ?thesis using lru_inv_front [OF inv it(2), of v] by simp
qed

text \<open>A new cell at the front of a cache that has room for it.\<close>

lemma lru_inv_new:
  assumes "lru_inv s xs" "k \<notin> fst ` set xs" "length xs < unat (lru_capacity s)"
  shows "lru_inv (s\<lparr>lru_cells := (lru_allocated s, k, v) # lru_cells s, lru_map := (lru_map s)(k \<mapsto> lru_allocated s),
    lru_allocated := Suc (lru_allocated s)\<rparr>) ((k, v) # xs)"
proof -
  have c: "\<forall>j k' v'. (j, k', v') \<in> set (lru_cells s) \<longrightarrow> lru_map s k' = Some j \<and> j < lru_allocated s" "map snd (lru_cells s) = xs"
    using assms(1) unfolding lru_inv_def by blast+
  have "lru_allocated s \<notin> fst ` set (lru_cells s)" using c(1) by fastforce
  moreover have "(j, k', v') \<in> set (lru_cells s) \<Longrightarrow> k' \<noteq> k" for j k' v' using assms(2) c(2) by force
  ultimately show ?thesis using assms c unfolding lru_inv_def by (auto simp: less_Suc_eq)
qed

lemma lru_inv_pop:
  assumes "lru_inv s xs" "lru_cells s = cells @ [(it, k, v)]"
  shows "lru_inv (s\<lparr>lru_map := (lru_map s)(k := None), lru_cells := cells\<rparr>) (butlast xs)" "xs = map snd cells @ [(k, v)]"
proof -
  show xs: "xs = map snd cells @ [(k, v)]" using assms unfolding lru_inv_def by auto
  have c: "\<forall>j k' v'. (j, k', v') \<in> set (lru_cells s) \<longrightarrow> lru_map s k' = Some j \<and> j < lru_allocated s"
    "\<forall>k'. k' \<notin> fst ` set xs \<longrightarrow> lru_map s k' = None"
    using assms(1) unfolding lru_inv_def by blast+
  have d: "distinct (map fst (cells @ [(it, k, v)]))" "distinct (map fst xs)" "length xs \<le> unat (lru_capacity s)"
    using assms unfolding lru_inv_def by auto
  have "(j, k', v') \<in> set cells \<Longrightarrow> k' \<noteq> k" for j k' v' using d(2) xs by force
  then show "lru_inv (s\<lparr>lru_map := (lru_map s)(k := None), lru_cells := cells\<rparr>) (butlast xs)"
    using c d assms(2) xs unfolding lru_inv_def by auto
qed

lemma lru_put_spec:
  assumes inv: "lru_inv s xs" and n: "lru_capacity s \<noteq> 0"
  shows "\<exists>s'. lru_put k v s = Inr s' \<and> lru_inv s' (spec_put (unat (lru_capacity s)) k v xs) \<and> lru_capacity s' = lru_capacity s"
proof (cases "map_of xs k")
  case (Some w)
  then show ?thesis by (rule lru_put_found [OF inv])
next
  case None
  let ?n = "unat (lru_capacity s)"
  have k: "k \<notin> fst ` set xs" "lru_map s k = None"
    using None lru_inv_absent [OF inv] by (simp_all add: map_of_eq_None_iff)
  have xs: "length (lru_cells s) = length xs" "length xs \<le> ?n" using inv unfolding lru_inv_def by auto
  have n0: "0 < ?n" using n by (simp add: unat_gt_0)
  have full: "of_nat (length (lru_cells s)) = lru_capacity s \<longleftrightarrow> length xs = ?n"
    using xs unat_bound [of "lru_capacity s"] by (subst eq_commute) (auto simp: word_eq_of_nat_iff)
  have put: "spec_put ?n k v xs = (k, v) # take (?n - 1) xs"
    using without_absent [OF k(1)] n0 by (cases ?n) (simp_all add: spec_put_def)
  show ?thesis
  proof (cases "length xs = ?n")
    case True
    then have "lru_cells s \<noteq> []" using xs n0 by auto
    then obtain cells it k' v' where c: "lru_cells s = cells @ [(it, k', v')]" by (metis rev_exhaust surj_pair)
    let ?s = "s\<lparr>lru_map := (lru_map s)(k' := None), lru_cells := cells\<rparr>"
    note pop = lru_inv_pop [OF inv c]
    have "k \<notin> fst ` set (butlast xs)" using k(1) by (auto dest: in_set_butlastD)
    moreover have "length (butlast xs) < unat (lru_capacity ?s)" using True n0 by simp
    ultimately have "lru_inv (?s\<lparr>lru_cells := (lru_allocated ?s, k, v) # lru_cells ?s,
        lru_map := (lru_map ?s)(k \<mapsto> lru_allocated ?s), lru_allocated := Suc (lru_allocated ?s)\<rparr>) ((k, v) # butlast xs)"
      by (rule lru_inv_new [OF pop(1)])
    moreover have "take (?n - 1) xs = butlast xs" using True by (simp add: butlast_conv_take)
    ultimately show ?thesis using k(2) full True c put by (simp add: lru_put_def)
  next
    case False
    then have "length xs < ?n" using xs(2) by simp
    then show ?thesis using lru_inv_new [OF inv k(1), of v] k(2) full False put by (simp add: lru_put_def)
  qed
qed

lemma lru_run:
  assumes "lru_inv s xs" "lru_capacity s \<noteq> 0"
  shows "\<exists>s'. for_each ops lru_step (hits, s) = Inr (fst (foldl (spec_step (unat (lru_capacity s))) (hits, xs) ops), s') \<and>
    lru_inv s' (snd (foldl (spec_step (unat (lru_capacity s))) (hits, xs) ops)) \<and> lru_capacity s' = lru_capacity s"
  using assms
proof (induction ops arbitrary: hits s xs)
  case (Cons op ops)
  show ?case
  proof (cases op)
    case (Get k val)
    obtain s' where s': "lru_get k val s = Inr (map_of xs k \<noteq> None, case map_of xs k of None \<Rightarrow> val | Some v \<Rightarrow> v, s')"
      "lru_inv s' (snd (spec_get k xs))" "lru_capacity s' = lru_capacity s"
      using lru_get_spec [OF Cons.prems(1)] by blast
    have "lru_step op (hits, s) = Inr (hits @ [fst (spec_get k xs)], s')"
      using s'(1) by (simp add: Get spec_get_def split: option.split)
    moreover have "spec_step (unat (lru_capacity s)) (hits, xs) op = (hits @ [fst (spec_get k xs)], snd (spec_get k xs))"
      by (simp add: Get case_prod_beta)
    ultimately show ?thesis
      using Cons.IH [OF s'(2), of "hits @ [fst (spec_get k xs)]"] Cons.prems(2) s'(3) by simp
  next
    case (Put k v)
    obtain s' where s': "lru_put k v s = Inr s'" "lru_inv s' (spec_put (unat (lru_capacity s)) k v xs)" "lru_capacity s' = lru_capacity s"
      using lru_put_spec [OF Cons.prems] by blast
    show ?thesis using Cons.IH [OF s'(2), of hits] Cons.prems(2) s'(1,3) Put by simp
  qed
qed simp

text \<open>
  C23. A cache of capacity \<open>n > 0\<close>, driven by any sequence of \<open>get\<close> and \<open>put\<close>, answers and holds what the
  list of the \<open>n\<close> last used keys with their last values says: a key is found exactly when it is in
  that list, no key appears twice, never more than \<open>n\<close> entries are kept, and no iterator is followed
  after its entry was evicted.
\<close>

theorem lru_cache_refines:
  fixes n :: size_t
  assumes "n \<noteq> 0"
  shows "case foldl (spec_step (unat n)) ([], []) ops of (hits, xs) \<Rightarrow>
    \<exists>s. for_each ops lru_step ([], lru_new n) = Inr (hits, s) \<and> map snd (lru_cells s) = xs \<and>
      distinct (map fst xs) \<and> length xs \<le> unat n \<and> (\<forall>k. lru_map s k \<noteq> None \<longleftrightarrow> k \<in> fst ` set xs)"
proof -
  have "lru_inv (lru_new n) []" by (simp add: lru_inv_def lru_new_def)
  then obtain s where s: "for_each ops lru_step ([], lru_new n) = Inr (fst (foldl (spec_step (unat n)) ([], []) ops), s)"
    "lru_inv s (snd (foldl (spec_step (unat n)) ([], []) ops))" "lru_capacity s = n"
    using lru_run [of "lru_new n" "[]" ops "[]"] assms by (auto simp: lru_new_def)
  obtain hits xs where r: "foldl (spec_step (unat n)) ([], []) ops = (hits, xs)" by (cases "foldl (spec_step (unat n)) ([], []) ops")
  have inv: "lru_inv s xs" using s(2) r by simp
  have "lru_map s k \<noteq> None \<longleftrightarrow> k \<in> fst ` set xs" for k
  proof (cases "map_of xs k")
    case (Some v)
    then show ?thesis using lru_inv_present [OF inv Some] map_of_SomeD [OF Some] by force
  qed (use lru_inv_absent [OF inv, of k] in \<open>simp add: map_of_eq_None_iff\<close>)
  then show ?thesis using inv s(1,3) r unfolding lru_inv_def by auto
qed

theorem lru_cache_refines_witness:
  "\<exists>s. for_each [Put 1 10, Put 2 20, Get 1 0, Put 3 30, Get 2 0, Get (1 :: nat) (0 :: nat)] lru_step ([], lru_new 2) =
     Inr ([Some 10, None, Some 10], s) \<and> map snd (lru_cells s) = [(1, 10), (3, 30)]"
proof -
  define ops :: "(nat, nat) cache_op list" where "ops = [Put 1 10, Put 2 20, Get 1 0, Put 3 30, Get 2 0, Get 1 0]"
  have "foldl (spec_step (unat (2 :: size_t))) ([], []) ops = ([Some 10, None, Some 10], [(1, 10), (3, 30)])"
    by (simp add: ops_def spec_get_def spec_put_def without_def)
  then show ?thesis using lru_cache_refines [of 2 ops] unfolding ops_def [symmetric] by auto
qed

text \<open>Without capacity the first \<open>put\<close> takes the last entry of an empty list.\<close>

lemma lru_no_capacity: "lru_put k v (lru_new 0) = Inl Undefined"
  by (simp add: lru_put_def lru_new_def)

end
