(* ===== verification/CachedFunction.thy ===== *)
theory CachedFunction
  imports LruCache "HOL-Library.Sublist"
begin

text \<open>
  \<open>caching/include/caching/cached_function.h\<close>: a function with a cache in front of it. The cache is a
  template parameter, here the operations \<open>get\<close>, which gives a pointer to the value or \<open>NULL\<close>, and
  \<open>put\<close>; what they have to promise is the locale \<open>cache_contract\<close>. The function may throw; its calls
  are logged.
\<close>

section \<open>The wrapper\<close>

record ('k, 'v, 'c) cached_function =
  cf_func :: "'k \<Rightarrow> 'v res"
  cf_cache :: 'c
  cf_called :: "'k list"

definition make_cached_function :: "('k \<Rightarrow> 'v res) \<Rightarrow> 'c \<Rightarrow> ('k, 'v, 'c) cached_function" where
  "make_cached_function f cache = \<lparr>cf_func = f, cf_cache = cache, cf_called = []\<rparr>"

text \<open>
  \<open>operator()\<close>. The key is a tuple made of the forwarded arguments, and the function gets the same
  arguments forwarded again: those passed as rvalues have been moved into the key by then. \<open>moved\<close>
  says what is left of the arguments; for lvalues and numbers it is the identity.
\<close>

definition cached_call ::
  "('k \<Rightarrow> 'c \<Rightarrow> ('v option \<times> 'c) res) \<Rightarrow> ('k \<Rightarrow> 'v \<Rightarrow> 'c \<Rightarrow> 'c res) \<Rightarrow> ('k \<Rightarrow> 'k) \<Rightarrow> 'k \<Rightarrow>
   ('k, 'v, 'c) cached_function \<Rightarrow> ('v \<times> ('k, 'v, 'c) cached_function) res" where
  "cached_call get put moved key s =
     bnd (get key (cf_cache s)) (\<lambda>(v, cache).
     let s = s\<lparr>cf_cache := cache\<rparr>
     in (case v of
           Some v \<Rightarrow> Inr (v, s)
         | None \<Rightarrow>
             bnd (cf_func s (moved key)) (\<lambda>result.
             let s = s\<lparr>cf_called := cf_called s @ [key]\<rparr>
             in bnd (put key result (cf_cache s)) (\<lambda>cache. Inr (result, s\<lparr>cf_cache := cache\<rparr>)))))"

text \<open>
  A sequence of calls and their results. A call is a key and what making the key left of the
  arguments: the same function may be called with lvalues here and with rvalues there.
\<close>

definition cached_calls ::
  "('k \<Rightarrow> 'c \<Rightarrow> ('v option \<times> 'c) res) \<Rightarrow> ('k \<Rightarrow> 'v \<Rightarrow> 'c \<Rightarrow> 'c res) \<Rightarrow> ('k \<times> 'k) list \<Rightarrow>
   'v list \<times> ('k, 'v, 'c) cached_function \<Rightarrow> ('v list \<times> ('k, 'v, 'c) cached_function) res" where
  "cached_calls get put calls =
     for_each calls (\<lambda>(key, left) (rs, s). map_res (\<lambda>(r, s). (rs @ [r], s)) (cached_call get put (\<lambda>_. left) key s))"

lemma cached_calls_snoc:
  "cached_calls get put (calls @ [(k, l)]) t = bnd (cached_calls get put calls t) (\<lambda>(rs, s).
     map_res (\<lambda>(r, s). (rs @ [r], s)) (cached_call get put (\<lambda>_. l) k s))"
  by (cases "cached_calls get put calls t") (auto simp: cached_calls_def for_each_append split: prod.splits)

section \<open>The contract of a cache\<close>

text \<open>
  What a cache holds is a partial map. A lookup answers from it and leaves it alone; an insertion
  adds the new pair and may drop others, but none while there is room.
\<close>

locale cache_contract =
  fixes get :: "'k \<Rightarrow> 'c \<Rightarrow> ('v option \<times> 'c) res"
    and put :: "'k \<Rightarrow> 'v \<Rightarrow> 'c \<Rightarrow> 'c res"
    and contents :: "'c \<Rightarrow> 'k \<Rightarrow> 'v option"
    and inv :: "'c \<Rightarrow> bool"
    and capacity :: "'c \<Rightarrow> nat"
  assumes get_law: "inv c \<Longrightarrow> \<exists>c'. get k c = Inr (contents c k, c') \<and> inv c' \<and> contents c' = contents c \<and> capacity c' = capacity c"
    and put_law: "inv c \<Longrightarrow> \<exists>c'. put k v c = Inr c' \<and> inv c' \<and> contents c' \<subseteq>\<^sub>m (contents c)(k \<mapsto> v) \<and> capacity c' = capacity c"
    and put_room: "inv c \<Longrightarrow> put k v c = Inr c' \<Longrightarrow> card (insert k (dom (contents c))) \<le> capacity c \<Longrightarrow>
      contents c' = (contents c)(k \<mapsto> v)"
    and contents_finite: "inv c \<Longrightarrow> finite (dom (contents c))"

text \<open>The keys that a cache that forgets nothing would compute: each one once.\<close>

fun misses :: "'k set \<Rightarrow> 'k list \<Rightarrow> 'k list" where
  "misses K [] = []"
| "misses K (k # ks) = (if k \<in> K then misses K ks else k # misses (insert k K) ks)"

text \<open>A table that forgets nothing: the answers it gives to the calls.\<close>

fun memo :: "('k \<Rightarrow> 'v res) \<Rightarrow> ('k \<Rightarrow> 'v option) \<Rightarrow> ('k \<times> 'k) list \<Rightarrow> 'v list res" where
  "memo f M [] = Inr []"
| "memo f M ((k, l) # calls) = (case M k of
     Some v \<Rightarrow> map_res (Cons v) (memo f M calls)
   | None \<Rightarrow> bnd (f l) (\<lambda>v. map_res (Cons v) (memo f (M(k \<mapsto> v)) calls)))"

context cache_contract
begin

lemma call_step:
  assumes "inv (cf_cache s)"
  shows "case contents (cf_cache s) key of
      Some v \<Rightarrow> \<exists>c'. cached_call get put moved key s = Inr (v, s\<lparr>cf_cache := c'\<rparr>) \<and> inv c' \<and>
        contents c' = contents (cf_cache s) \<and> capacity c' = capacity (cf_cache s)
    | None \<Rightarrow> (case cf_func s (moved key) of
        Inl x \<Rightarrow> cached_call get put moved key s = Inl x
      | Inr r \<Rightarrow> \<exists>c'. cached_call get put moved key s = Inr (r, s\<lparr>cf_cache := c', cf_called := cf_called s @ [key]\<rparr>) \<and>
          inv c' \<and> contents c' \<subseteq>\<^sub>m (contents (cf_cache s))(key \<mapsto> r) \<and> capacity c' = capacity (cf_cache s) \<and>
          (card (insert key (dom (contents (cf_cache s)))) \<le> capacity (cf_cache s) \<longrightarrow>
             contents c' = (contents (cf_cache s))(key \<mapsto> r)))"
proof -
  obtain c1 where c1: "get key (cf_cache s) = Inr (contents (cf_cache s) key, c1)" "inv c1"
    "contents c1 = contents (cf_cache s)" "capacity c1 = capacity (cf_cache s)"
    using get_law [OF assms] by blast
  show ?thesis
  proof (cases "contents (cf_cache s) key")
    case (Some v)
    then show ?thesis using c1 by (auto simp: cached_call_def)
  next
    case None
    show ?thesis
    proof (cases "cf_func s (moved key)")
      case (Inr r)
      obtain c2 where "put key r c1 = Inr c2" "inv c2" "contents c2 \<subseteq>\<^sub>m (contents c1)(key \<mapsto> r)" "capacity c2 = capacity c1"
        using put_law [OF c1(2)] by blast
      then show ?thesis using c1 None Inr put_room [OF c1(2), of key r c2]
        by (simp add: cached_call_def) (intro exI [of _ c2], simp)
    qed (use c1 None in \<open>simp add: cached_call_def\<close>)
  qed
qed

text \<open>Whatever the cache forgets, an answer was computed by some call for the same key.\<close>

definition justified :: "('k \<Rightarrow> 'v res) \<Rightarrow> ('k \<times> 'k) list \<Rightarrow> 'k \<Rightarrow> 'v \<Rightarrow> bool" where
  "justified f calls k v \<longleftrightarrow> (\<exists>l. (k, l) \<in> set calls \<and> f l = Inr v)"

lemma justified_append: "justified f calls k v \<Longrightarrow> justified f (calls @ calls') k v"
  by (auto simp: justified_def)

definition sound :: "('k \<Rightarrow> 'v res) \<Rightarrow> ('k \<times> 'k) list \<Rightarrow> 'v list \<Rightarrow> ('k, 'v, 'c) cached_function \<Rightarrow> bool" where
  "sound f calls rs s \<longleftrightarrow> cf_func s = f \<and> inv (cf_cache s) \<and> subseq (cf_called s) (map fst calls) \<and>
     (\<forall>k v. contents (cf_cache s) k = Some v \<longrightarrow> justified f calls k v) \<and> length rs = length calls \<and>
     (\<forall>i < length calls. justified f (take (Suc i) calls) (fst (calls ! i)) (rs ! i))"

lemma sound_step:
  assumes "sound f calls rs s"
  shows "case cached_call get put (\<lambda>_. l) k s of
      Inl e \<Rightarrow> f l = Inl e | Inr (r, s') \<Rightarrow> sound f (calls @ [(k, l)]) (rs @ [r]) s'"
proof -
  have s: "cf_func s = f" "inv (cf_cache s)" "subseq (cf_called s) (map fst calls)"
    "\<forall>k v. contents (cf_cache s) k = Some v \<longrightarrow> justified f calls k v" "length rs = length calls"
    "\<forall>i < length calls. justified f (take (Suc i) calls) (fst (calls ! i)) (rs ! i)"
    using assms by (simp_all add: sound_def)
  have snoc: "sound f (calls @ [(k, l)]) (rs @ [r]) (s\<lparr>cf_cache := c', cf_called := cf_called s @ ks\<rparr>)"
    if "inv c'" "subseq ks [k]" "\<And>k' v. contents c' k' = Some v \<Longrightarrow> justified f (calls @ [(k, l)]) k' v"
      "justified f (calls @ [(k, l)]) k r" for r c' ks
    using s that list_emb_append_mono [OF s(3) that(2)]
    by (auto simp: sound_def nth_append less_Suc_eq)
  note step = call_step [OF s(2), where key = k and moved = "\<lambda>_. l"]
  show ?thesis
  proof (cases "contents (cf_cache s) k")
    case (Some v)
    then obtain c' where c': "cached_call get put (\<lambda>_. l) k s = Inr (v, s\<lparr>cf_cache := c'\<rparr>)" "inv c'"
      "contents c' = contents (cf_cache s)"
      using step by auto
    then show ?thesis using snoc [of c' "[]" v] s(4) Some by (simp add: justified_append)
  next
    case None
    show ?thesis
    proof (cases "f l")
      case (Inl x)
      then show ?thesis using step None s(1) by simp
    next
      case (Inr r)
      obtain c' where c': "cached_call get put (\<lambda>_. l) k s = Inr (r, s\<lparr>cf_cache := c', cf_called := cf_called s @ [k]\<rparr>)"
        "inv c'" "contents c' \<subseteq>\<^sub>m (contents (cf_cache s))(k \<mapsto> r)"
        using step None s(1) Inr by auto
      have new: "justified f (calls @ [(k, l)]) k r" using Inr by (auto simp: justified_def)
      have "justified f (calls @ [(k, l)]) k' v" if "contents c' k' = Some v" for k' v
      proof -
        have "((contents (cf_cache s))(k \<mapsto> r)) k' = Some v" using c'(3) that by (auto simp: map_le_def dom_def)
        then show ?thesis using new s(4) by (auto simp: justified_append split: if_splits)
      qed
      then show ?thesis using snoc [of c' "[k]" r] c' new by simp
    qed
  qed
qed

lemma calls_sound:
  assumes "sound f [] [] s"
  shows "case cached_calls get put calls ([], s) of
      Inl e \<Rightarrow> \<exists>(k, l) \<in> set calls. f l = Inl e | Inr (rs, s') \<Rightarrow> sound f calls rs s'"
proof (induction calls rule: rev_induct)
  case (snoc call calls)
  obtain k l where kl: "call = (k, l)" by (cases call)
  show ?case
  proof (cases "cached_calls get put calls ([], s)")
    case (Inr t)
    obtain rs s' where t: "t = (rs, s')" by (cases t)
    show ?thesis using snoc.IH Inr sound_step [of f calls rs s' l k]
      by (cases "cached_call get put (\<lambda>_. l) k s'") (auto simp: cached_calls_snoc t kl)
  qed (use snoc.IH in \<open>auto simp: cached_calls_snoc kl\<close>)
qed (use assms in \<open>simp add: cached_calls_def\<close>)

text \<open>While there is room, the cache is the table that forgets nothing.\<close>

lemma calls_memo:
  assumes "inv (cf_cache s)" "card (dom (contents (cf_cache s)) \<union> fst ` set calls) \<le> capacity (cf_cache s)"
  shows "case memo (cf_func s) (contents (cf_cache s)) calls of
      Inl x \<Rightarrow> cached_calls get put calls (rs, s) = Inl x
    | Inr vs \<Rightarrow> \<exists>s'. cached_calls get put calls (rs, s) = Inr (rs @ vs, s') \<and>
        cf_called s' = cf_called s @ misses (dom (contents (cf_cache s))) (map fst calls)"
  using assms
proof (induction calls arbitrary: s rs)
  case (Cons call calls)
  obtain k l where kl: "call = (k, l)" by (cases call)
  let ?K = "dom (contents (cf_cache s))"
  note step = call_step [OF Cons.prems(1), where key = k and moved = "\<lambda>_. l"]
  have unfold: "cached_calls get put (call # calls) (rs, s) =
      bnd (cached_call get put (\<lambda>_. l) k s) (\<lambda>(r, s). cached_calls get put calls (rs @ [r], s))"
    by (cases "cached_call get put (\<lambda>_. l) k s") (auto simp: cached_calls_def kl)
  show ?case
  proof (cases "contents (cf_cache s) k")
    case (Some v)
    obtain c' where c': "cached_call get put (\<lambda>_. l) k s = Inr (v, s\<lparr>cf_cache := c'\<rparr>)" "inv c'"
      "contents c' = contents (cf_cache s)" "capacity c' = capacity (cf_cache s)"
      using step Some by auto
    have "insert k (?K \<union> fst ` set calls) = ?K \<union> fst ` set calls" using Some by auto
    then have "card (?K \<union> fst ` set calls) \<le> capacity (cf_cache s)" using Cons.prems(2) by (simp add: kl)
    then show ?thesis using Cons.IH [of "s\<lparr>cf_cache := c'\<rparr>" "rs @ [v]"] c' Some unfold
      by (auto simp: kl domI split: sum.splits)
  next
    case None
    show ?thesis
    proof (cases "cf_func s l")
      case (Inl x)
      then show ?thesis using step None unfold by (simp add: kl)
    next
      case (Inr r)
      have "finite (?K \<union> fst ` set (call # calls))" using contents_finite [OF Cons.prems(1)] by simp
      then have "card (insert k ?K) \<le> card (?K \<union> fst ` set (call # calls))" by (rule card_mono) (simp add: kl subset_insertI2)
      then have "card (insert k ?K) \<le> capacity (cf_cache s)" using Cons.prems(2) by (rule order_trans)
      then obtain c' where c': "cached_call get put (\<lambda>_. l) k s = Inr (r, s\<lparr>cf_cache := c', cf_called := cf_called s @ [k]\<rparr>)"
        "inv c'" "contents c' = (contents (cf_cache s))(k \<mapsto> r)" "capacity c' = capacity (cf_cache s)"
        using step None Inr by auto
      let ?s = "s\<lparr>cf_cache := c', cf_called := cf_called s @ [k]\<rparr>" and ?M = "(contents (cf_cache s))(k \<mapsto> r)"
      have k: "k \<notin> ?K" using None by auto
      have room: "card (dom (contents (cf_cache ?s)) \<union> fst ` set calls) \<le> capacity (cf_cache ?s)"
        using Cons.prems(2) c' by (simp add: kl)
      have call: "cached_calls get put (call # calls) (rs, s) = cached_calls get put calls (rs @ [r], ?s)"
        using unfold c'(1) by simp
      have memo: "memo (cf_func s) (contents (cf_cache s)) (call # calls) = map_res (Cons r) (memo (cf_func s) ?M calls)"
        using None Inr by (simp add: kl)
      have IH: "case memo (cf_func s) ?M calls of
          Inl x \<Rightarrow> cached_calls get put calls (rs @ [r], ?s) = Inl x
        | Inr vs \<Rightarrow> \<exists>s'. cached_calls get put calls (rs @ [r], ?s) = Inr (rs @ r # vs, s') \<and>
            cf_called s' = cf_called s @ k # misses (insert k ?K) (map fst calls)"
        using Cons.IH [of ?s "rs @ [r]", OF _ room] c'(2,3) by (simp del: fun_upd_apply cong: sum.case_cong)
      show ?thesis
      proof (cases "memo (cf_func s) ?M calls")
        case (Inl x)
        then show ?thesis using IH unfolding call memo by simp
      next
        case vs: (Inr vs)
        obtain s' where "cached_calls get put calls (rs @ [r], ?s) = Inr (rs @ r # vs, s')"
          "cf_called s' = cf_called s @ k # misses (insert k ?K) (map fst calls)"
          using IH vs by auto
        then show ?thesis using vs k unfolding call memo by (auto simp: kl)
      qed
    qed
  qed
qed (simp add: cached_calls_def)

text \<open>Calls that leave their arguments alone: the function itself.\<close>

lemma calls_transparent:
  assumes "sound f [] [] s"
  shows "case for_each keys (\<lambda>k rs. map_res (\<lambda>r. rs @ [r]) (f k)) [] of
      Inl x \<Rightarrow> cached_calls get put (map (\<lambda>k. (k, k)) keys) ([], s) = Inl x
    | Inr rs \<Rightarrow> \<exists>s'. cached_calls get put (map (\<lambda>k. (k, k)) keys) ([], s) = Inr (rs, s')"
proof (induction keys rule: rev_induct)
  case (snoc k keys)
  let ?calls = "map (\<lambda>k. (k, k)) keys"
  show ?case
  proof (cases "for_each keys (\<lambda>k rs. map_res (\<lambda>r. rs @ [r]) (f k)) []")
    case (Inr rs)
    then obtain s' where s': "cached_calls get put ?calls ([], s) = Inr (rs, s')" using snoc.IH by auto
    then have so: "sound f ?calls rs s'" using calls_sound [OF assms, of ?calls] by simp
    then have inv: "inv (cf_cache s')" "cf_func s' = f" by (simp_all add: sound_def)
    have j: "f k = Inr v" if "contents (cf_cache s') k = Some v" for v
      using so that by (fastforce simp: sound_def justified_def)
    show ?thesis using call_step [OF inv(1), where key = k and moved = "\<lambda>_. k"] inv(2) j s' Inr
      by (cases "contents (cf_cache s') k"; cases "f k") (auto simp: cached_calls_snoc for_each_append)
  qed (use snoc.IH in \<open>simp add: cached_calls_snoc for_each_append\<close>)
qed (simp add: cached_calls_def)

end

section \<open>The LRU cache keeps the contract\<close>

text \<open>
  \<open>LRUCache::get\<close> stores into a reference instead of returning a pointer, so it does not fit the
  template as it is; \<open>lru_lookup\<close> is the adapter that makes it fit, with \<open>d\<close> in the variable before.
\<close>

definition lru_lookup :: "'v \<Rightarrow> 'k \<Rightarrow> ('k, 'v) lru_cache \<Rightarrow> ('v option \<times> ('k, 'v) lru_cache) res" where
  "lru_lookup d key s = map_res (\<lambda>(found, v, s). (if found then Some v else None, s)) (lru_get key d s)"

definition lru_contents :: "('k, 'v) lru_cache \<Rightarrow> 'k \<Rightarrow> 'v option" where
  "lru_contents s = map_of (map snd (lru_cells s))"

definition lru_good :: "('k, 'v) lru_cache \<Rightarrow> bool" where
  "lru_good s \<longleftrightarrow> lru_capacity s \<noteq> 0 \<and> lru_inv s (map snd (lru_cells s))"

lemma map_of_without: "map_of (without k xs) = (map_of xs)(k := None)"
  by (induction xs) (auto simp: without_def fun_eq_iff)

lemma map_of_take: "map_of (take n xs) \<subseteq>\<^sub>m map_of xs" if "distinct (map fst xs)"
proof -
  have "map_of xs k = Some v" if "map_of (take n xs) k = Some v" for k v
    using map_of_SomeD [OF that] \<open>distinct (map fst xs)\<close> by (metis in_set_takeD map_of_eq_Some_iff)
  then show ?thesis by (auto simp: map_le_def)
qed

lemma lru_inv_contents: "lru_inv s xs \<Longrightarrow> map snd (lru_cells s) = xs"
  by (simp add: lru_inv_def)

lemma distinct_moved: "distinct (map fst xs) \<Longrightarrow> distinct (map fst ((k, v) # without k xs))"
  by (auto simp: without_def distinct_map intro: inj_on_subset)

lemma moved_contents: "map_of ((k, v) # without k xs) = (map_of xs)(k \<mapsto> v)"
  by (simp add: map_of_without fun_eq_iff)

interpretation lru_contract: cache_contract "lru_lookup (d :: 'v) :: 'k \<Rightarrow> _" lru_put lru_contents lru_good "\<lambda>s. unat (lru_capacity s)"
proof
  fix c :: "('k, 'v) lru_cache" and k :: 'k and v :: 'v
  assume "lru_good c"
  then have inv: "lru_inv c (map snd (lru_cells c))" and n: "lru_capacity c \<noteq> 0" by (simp_all add: lru_good_def)
  let ?xs = "map snd (lru_cells c)"
  have d: "distinct (map fst ?xs)" "length ?xs \<le> unat (lru_capacity c)" using inv by (simp_all add: lru_inv_def)
  show "\<exists>c'. lru_lookup d k c = Inr (lru_contents c k, c') \<and> lru_good c' \<and> lru_contents c' = lru_contents c \<and>
      unat (lru_capacity c') = unat (lru_capacity c)"
  proof -
    obtain s' where s': "lru_get k d c = Inr (map_of ?xs k \<noteq> None, case map_of ?xs k of None \<Rightarrow> d | Some v \<Rightarrow> v, s')"
      "lru_inv s' (snd (spec_get k ?xs))" "lru_capacity s' = lru_capacity c"
      using lru_get_spec [OF inv] by blast
    have "map_of (snd (spec_get k ?xs)) = map_of ?xs"
      by (cases "map_of ?xs k") (simp_all add: spec_get_def moved_contents map_upd_triv del: map_of.simps)
    then show ?thesis using s' n lru_inv_contents [OF s'(2)]
      by (intro exI [of _ s']) (auto simp: lru_lookup_def lru_contents_def lru_good_def split: option.split)
  qed
  obtain s' where s': "lru_put k v c = Inr s'" "lru_inv s' (spec_put (unat (lru_capacity c)) k v ?xs)" "lru_capacity s' = lru_capacity c"
    using lru_put_spec [OF inv n] by blast
  have contents: "lru_contents s' = map_of (take (unat (lru_capacity c)) ((k, v) # without k ?xs))"
    using lru_inv_contents [OF s'(2)] by (simp add: lru_contents_def spec_put_def)
  have "lru_contents s' \<subseteq>\<^sub>m (lru_contents c)(k \<mapsto> v)"
    using map_of_take [OF distinct_moved [OF d(1)], of "unat (lru_capacity c)" k v]
    unfolding contents moved_contents lru_contents_def [of c] .
  then show "\<exists>c'. lru_put k v c = Inr c' \<and> lru_good c' \<and> lru_contents c' \<subseteq>\<^sub>m (lru_contents c)(k \<mapsto> v) \<and>
      unat (lru_capacity c') = unat (lru_capacity c)"
    using s' n lru_inv_contents [OF s'(2)] by (auto simp: lru_good_def)
  have "length ((k, v) # without k ?xs) = card (insert k (dom (lru_contents c)))"
  proof -
    have "insert k (dom (lru_contents c)) = fst ` set ((k, v) # without k ?xs)"
      unfolding lru_contents_def dom_map_of_conv_image_fst [symmetric] moved_contents by auto
    then show ?thesis using distinct_card [OF distinct_moved [OF d(1), of k v]] by (simp del: list.map)
  qed
  then show "lru_contents c' = (lru_contents c)(k \<mapsto> v)"
    if "lru_put k v c = Inr c'" "card (insert k (dom (lru_contents c))) \<le> unat (lru_capacity c)" for c'
    using that s'(1) contents by (simp add: moved_contents lru_contents_def [of c] del: map_of.simps)
  show "finite (dom (lru_contents c))" by (simp add: lru_contents_def finite_dom_map_of)
qed

section \<open>What a cached function returns\<close>

text \<open>
  C25. A wrapped function over any cache that keeps the contract, called in any sequence with
  arguments that may be moved into the key. Every result was computed by the function from what some
  call up to then, for the same key, had left of its arguments, and an exception is one that the
  function threw; the function is called for some of the calls, in their order. While all keys fit
  into the cache, the first call of a key decides its result for good, and the function is called
  exactly once for each key. When no call moves its arguments, the results are those of the function
  itself, or the exception of the first call that throws.
\<close>

theorem cached_function_results:
  assumes "cache_contract get put contents ok capacity" "ok cache" "contents cache = Map.empty"
  shows "(case cached_calls get put calls ([], make_cached_function f cache) of
      Inl e \<Rightarrow> \<exists>(k, l) \<in> set calls. f l = Inl e
    | Inr (rs, s) \<Rightarrow> length rs = length calls \<and> subseq (cf_called s) (map fst calls) \<and>
        (\<forall>i < length calls. \<exists>l. (fst (calls ! i), l) \<in> set (take (Suc i) calls) \<and> f l = Inr (rs ! i))) \<and>
    (card (fst ` set calls) \<le> capacity cache \<longrightarrow>
      (case memo f Map.empty calls of
         Inl x \<Rightarrow> cached_calls get put calls ([], make_cached_function f cache) = Inl x
       | Inr rs \<Rightarrow> \<exists>s. cached_calls get put calls ([], make_cached_function f cache) = Inr (rs, s) \<and>
           cf_called s = misses {} (map fst calls))) \<and>
    ((\<forall>(k, l) \<in> set calls. l = k) \<longrightarrow>
      (case for_each (map fst calls) (\<lambda>k rs. map_res (\<lambda>r. rs @ [r]) (f k)) [] of
         Inl x \<Rightarrow> cached_calls get put calls ([], make_cached_function f cache) = Inl x
       | Inr rs \<Rightarrow> \<exists>s. cached_calls get put calls ([], make_cached_function f cache) = Inr (rs, s)))"
proof (intro conjI impI)
  let ?s = "make_cached_function f cache"
  note defs = cache_contract.sound_def [OF assms(1)] cache_contract.justified_def [OF assms(1)]
  have start: "cache_contract.sound contents ok f [] [] ?s"
    using assms(2,3) by (simp add: make_cached_function_def defs)
  show "case cached_calls get put calls ([], ?s) of
      Inl e \<Rightarrow> \<exists>(k, l) \<in> set calls. f l = Inl e
    | Inr (rs, s) \<Rightarrow> length rs = length calls \<and> subseq (cf_called s) (map fst calls) \<and>
        (\<forall>i < length calls. \<exists>l. (fst (calls ! i), l) \<in> set (take (Suc i) calls) \<and> f l = Inr (rs ! i))"
    using cache_contract.calls_sound [OF assms(1) start, of calls] by (auto simp: defs split: sum.splits)
  show "case memo f Map.empty calls of
         Inl x \<Rightarrow> cached_calls get put calls ([], ?s) = Inl x
       | Inr rs \<Rightarrow> \<exists>s. cached_calls get put calls ([], ?s) = Inr (rs, s) \<and> cf_called s = misses {} (map fst calls)"
    if "card (fst ` set calls) \<le> capacity cache"
    using cache_contract.calls_memo [OF assms(1), of ?s calls "[]"] assms(2,3) that
    by (simp add: make_cached_function_def split: sum.splits)
  show "case for_each (map fst calls) (\<lambda>k rs. map_res (\<lambda>r. rs @ [r]) (f k)) [] of
         Inl x \<Rightarrow> cached_calls get put calls ([], ?s) = Inl x
       | Inr rs \<Rightarrow> \<exists>s. cached_calls get put calls ([], ?s) = Inr (rs, s)"
    if "\<forall>(k, l) \<in> set calls. l = k"
  proof -
    have "map (\<lambda>k. (k, k)) (map fst calls) = calls" using that by (induction calls) auto
    with cache_contract.calls_transparent [OF assms(1) start, of "map fst calls"] show ?thesis by (simp only:)
  qed
qed

text \<open>
  Over the cache of capacity two: calls with lvalues, and a call that moves its argument away, whose
  result then answers the next call too.
\<close>

theorem cached_function_results_witness:
  "(\<exists>s. cached_calls (lru_lookup 0) lru_put [(3, 3), (4, 4), (3, 3 :: nat)]
     ([], make_cached_function (\<lambda>k. Inr (k * k)) (lru_new 2)) = Inr ([9, 16, 9], s) \<and> cf_called s = [3, 4]) \<and>
   (\<exists>s. cached_calls (lru_lookup 0) lru_put [(3, 0), (3, 3 :: nat)]
     ([], make_cached_function (\<lambda>k. Inr (k * k)) (lru_new 2)) = Inr ([0, 0], s) \<and> cf_called s = [3])"
proof -
  have ok: "lru_good (lru_new 2)" by (simp add: lru_good_def lru_inv_def lru_new_def)
  have empty: "lru_contents (lru_new 2) = Map.empty" by (simp add: lru_contents_def lru_new_def)
  have cap: "unat (lru_capacity (lru_new 2)) = 2" by (simp add: lru_new_def)
  have cards: "card {3, 4, 3 :: nat} \<le> 2" "card {3, 3 :: nat} \<le> 2" by (simp_all add: card_insert_if)
  note r = cached_function_results [OF lru_contract.cache_contract_axioms [of 0] ok empty, unfolded cap]
  show ?thesis
    using r [of "[(3, 3), (4, 4), (3, 3 :: nat)]" "\<lambda>k. Inr (k * k)"]
      r [of "[(3, 0), (3, 3 :: nat)]" "\<lambda>k. Inr (k * k)"] cards by simp
qed

end
