(* ===== verification/Digits.thy ===== *)
theory Digits
  imports Prelude
begin

text \<open>
  How numbers are written and read by the standard library: stream output, \<open>std::stoi\<close>, \<open>std::atoi\<close>.
  The command line tools use them.
\<close>

section \<open>Numbers\<close>

fun decimal :: "nat \<Rightarrow> 'w::len word list" where
  "decimal n = (if n < 10 then [of_nat (48 + n)] else decimal (n div 10) @ [of_nat (48 + n mod 10)])"

declare decimal.simps [simp del]

text \<open>\<open>std::setw(4) << std::setfill('0')\<close>\<close>

definition pad4 :: "nat \<Rightarrow> bytes" where
  "pad4 n = replicate (4 - length (decimal n :: bytes)) 48 @ decimal n"

text \<open>
  \<open>std::stoi\<close>: spaces, a sign, decimal digits up to the first other character; without a digit or
  out of the range of \<open>int\<close> it throws.
\<close>

definition is_space :: "u32 \<Rightarrow> bool" where
  "is_space c \<longleftrightarrow> c = 32 \<or> (9 \<le> c \<and> c \<le> 13)"

definition is_digit :: "u32 \<Rightarrow> bool" where
  "is_digit c \<longleftrightarrow> 48 \<le> c \<and> c \<le> 57"

definition digits_value :: "u32 list \<Rightarrow> nat" where
  "digits_value ds = foldl (\<lambda>n c. 10 * n + (unat c - 48)) 0 ds"

definition read_digits :: "u32 list \<Rightarrow> u32 list \<times> int" where
  "read_digits s =
     (let s = dropWhile is_space s;
          negative = (s \<noteq> [] \<and> hd s = 45);
          s = (if s \<noteq> [] \<and> (hd s = 45 \<or> hd s = 43) then tl s else s);
          ds = takeWhile is_digit s
      in (ds, if negative then - int (digits_value ds) else int (digits_value ds)))"

definition stoi :: "u32 list \<Rightarrow> int res" where
  "stoi s = (case read_digits s of (ds, i) \<Rightarrow>
     if ds = [] \<or> i < - (2 ^ 31) \<or> 2 ^ 31 \<le> i then Inl Throw else Inr i)"

text \<open>\<open>std::atoi\<close>: without a digit it is zero, out of the range of \<open>int\<close> it is undefined.\<close>

definition atoi :: "bytes \<Rightarrow> int res" where
  "atoi s = (case read_digits (map ucast (c_str s)) of (ds, i) \<Rightarrow>
     if i < - (2 ^ 31) \<or> 2 ^ 31 \<le> i then Inl Undefined else Inr i)"

section \<open>Reading numbers back\<close>

lemma decimal_ne [simp]: "decimal n \<noteq> []"
  by (subst decimal.simps) simp

lemma digit_value: "d < 10 \<Longrightarrow> unat (of_nat (48 + d) :: u32) = 48 + d"
  by (intro unat_of_nat_small) simp

lemma is_digit_unat: "is_digit c \<longleftrightarrow> 48 \<le> unat c \<and> unat c \<le> 57"
  by (simp add: is_digit_def word_le_nat_alt)

lemma decimal_digits: "\<forall>c \<in> set (decimal n). is_digit c"
proof (induction n rule: less_induct)
  case (less n)
  show ?case
  proof (cases "n < 10")
    case True
    then show ?thesis by (subst decimal.simps) (simp add: is_digit_unat digit_value del: of_nat_add)
  next
    case False
    then have "\<forall>c \<in> set (decimal (n div 10)). is_digit c" by (intro less.IH) simp
    moreover have "is_digit (of_nat (48 + n mod 10))" by (simp add: is_digit_unat digit_value del: of_nat_add)
    ultimately show ?thesis using False by (subst decimal.simps) simp
  qed
qed

lemma decimal_value: "digits_value (decimal n) = n"
proof (induction n rule: less_induct)
  case (less n)
  show ?case
  proof (cases "n < 10")
    case True
    then show ?thesis by (subst decimal.simps) (simp add: digits_value_def digit_value del: of_nat_add)
  next
    case False
    then have "digits_value (decimal (n div 10)) = n div 10" by (intro less.IH) simp
    then show ?thesis using False
      by (subst decimal.simps) (simp add: digits_value_def digit_value del: of_nat_add)
  qed
qed

definition show_int :: "int \<Rightarrow> u32 list" where
  "show_int i = (if i < 0 then [45] else []) @ decimal (nat \<bar>i\<bar>)"

lemma digit_class: "is_digit c \<Longrightarrow> \<not> is_space c \<and> c \<noteq> 45 \<and> c \<noteq> 43"
  by (auto simp: is_digit_unat is_space_def word_le_nat_alt)

lemma decimal_read [simp]:
  "takeWhile is_digit (decimal n) = decimal n" "dropWhile is_space (decimal n) = decimal n"
  "hd (decimal n :: u32 list) \<noteq> 45" "hd (decimal n :: u32 list) \<noteq> 43"
  using decimal_digits [of n] decimal_ne [of n] digit_class
  by (auto simp: takeWhile_eq_all_conv dropWhile_eq_self_iff)

lemma stoi_show_int:
  assumes "- (2 ^ 31) \<le> i" "i < 2 ^ 31"
  shows "stoi (show_int i) = Inr i"
proof -
  have "\<not> is_space 45" by (simp add: is_space_def)
  then show ?thesis using assms by (cases "i < 0") (simp_all add: stoi_def read_digits_def show_int_def decimal_value Let_def)
qed

lemma ucast_digit: "d < 10 \<Longrightarrow> (ucast (of_nat (48 + d) :: u8) :: u32) = of_nat (48 + d)"
  by (simp add: word_eq_iff_unsigned unsigned_ucast_eq unsigned_of_nat take_bit_nat_eq_self del: of_nat_add)

lemma ucast_decimal: "map ucast (decimal n :: bytes) = (decimal n :: u32 list)"
proof (induction n rule: less_induct)
  case (less n)
  show ?case
  proof (cases "n < 10")
    case True
    then show ?thesis using ucast_digit [of n] by (subst (1 2) decimal.simps) (simp del: of_nat_add)
  next
    case False
    then have "map ucast (decimal (n div 10) :: bytes) = (decimal (n div 10) :: u32 list)" by (intro less.IH) simp
    then show ?thesis using False ucast_digit [of "n mod 10"] by (subst (1 2) decimal.simps) (simp del: of_nat_add)
  qed
qed

lemma decimal_no_nul: "0 \<notin> set (decimal n :: bytes)"
proof
  assume "0 \<in> set (decimal n :: bytes)"
  then have "(0 :: u32) \<in> set (map ucast (decimal n :: bytes))" by force
  then have "is_digit 0" using decimal_digits [of n] by (simp only: ucast_decimal)
  then show False by (simp add: is_digit_def)
qed

lemma atoi_decimal: "n < 2 ^ 31 \<Longrightarrow> atoi (decimal n @ [0]) = Inr (int n)"
proof -
  assume n: "n < 2 ^ 31"
  have "c_str (decimal n @ [0]) = decimal n" using decimal_no_nul [of n] by (simp add: c_str_def takeWhile_append)
  then show ?thesis using n by (simp add: atoi_def read_digits_def ucast_decimal decimal_value)
qed

end
