(* ===== verification/Argv.thy ===== *)
theory Argv
  imports Prelude
begin

text \<open>
  \<open>cmdline_tools/src/argv.cpp\<close>, the POSIX variant: the arguments of a program as wide strings. A
  \<open>std::wstring\<close> is a list of 32-bit \<open>wchar_t\<close>. The system's \<open>iconv\<close> is a parameter; what the code
  relies on is stated in \<open>iconv_ok\<close>.
\<close>

section \<open>The conversion\<close>

type_synonym wide = "u32 list"

text \<open>
  \<open>iconv_open\<close> may fail. A call of \<open>iconv\<close> gets the input bytes and the room of the output in bytes;
  it fails or consumes all of the input and stores the wide characters.
\<close>

record iconv_lib =
  iconv_opens :: bool
  iconv :: "bytes \<Rightarrow> size_t \<Rightarrow> wide option"

definition utf8_to_wstring :: "iconv_lib \<Rightarrow> bytes \<Rightarrow> wide res" where
  "utf8_to_wstring ic s =
     (if \<not> iconv_opens ic then Inl Throw
      else let inbytes = of_nat (length (c_str s));
               outbytes = (inbytes + 1) * 4;
               out = replicate (unat (outbytes div 4)) 0
           in (case iconv ic (take (unat inbytes) s) outbytes of
                 None \<Rightarrow> Inl Throw
               | Some ws \<Rightarrow> bnd (store_list out 0 ws) (\<lambda>out. Inr (resize (length ws) 0 out))))"

definition getArgv :: "iconv_lib \<Rightarrow> int \<Rightarrow> bytes list \<Rightarrow> wide list res" where
  "getArgv ic argc argv =
     for_each [0..<nat argc] (\<lambda>i result.
       bnd (load argv i) (\<lambda>s. bnd (utf8_to_wstring ic s) (\<lambda>w. Inr (result @ [w])))) []"

section \<open>What \<open>iconv\<close> promises\<close>

text \<open>
  UTF-8 with the scheme's full range: one to six bytes for a code point below \<open>2 ^ 31\<close>. RFC 3629
  restricts it to the scalar values, which take at most four bytes. A converter may accept more than
  those: the one of glibc reads \<open>F4 90 80 80\<close> as \<open>0x110000\<close>, and the longer forms.
\<close>

definition scalar :: "u32 \<Rightarrow> bool" where
  "scalar c \<longleftrightarrow> unat c < 0x110000 \<and> \<not> (0xd800 \<le> unat c \<and> unat c < 0xe000)"

definition utf8_char :: "u32 \<Rightarrow> bytes" where
  "utf8_char c =
     (let n = unat c; tail = (\<lambda>m. of_nat (128 + m mod 64))
      in if n < 0x80 then [of_nat n]
         else if n < 0x800 then [of_nat (192 + n div 64), tail n]
         else if n < 0x10000 then [of_nat (224 + n div 4096), tail (n div 64), tail n]
         else if n < 0x200000 then [of_nat (240 + n div 262144), tail (n div 4096), tail (n div 64), tail n]
         else if n < 0x4000000 then
           [of_nat (248 + n div 16777216), tail (n div 262144), tail (n div 4096), tail (n div 64), tail n]
         else [of_nat (252 + n div 1073741824), tail (n div 16777216), tail (n div 262144), tail (n div 4096),
               tail (n div 64), tail n])"

definition utf8 :: "wide \<Rightarrow> bytes" where
  "utf8 ws = concat (map utf8_char ws)"

text \<open>
  Given enough room, \<open>iconv\<close> decodes UTF-8. Of other input it may reject or accept what it likes, but
  it invents nothing: what it accepts is the encoding of what it stores.
\<close>

definition iconv_ok :: "iconv_lib \<Rightarrow> bool" where
  "iconv_ok ic \<longleftrightarrow> iconv_opens ic \<and>
     (\<forall>ws n. (\<forall>c \<in> set ws. scalar c) \<and> 4 * length ws \<le> unat n \<longrightarrow> iconv ic (utf8 ws) n = Some ws) \<and>
     (\<forall>s n ws. iconv ic s n = Some ws \<longrightarrow> utf8 ws = s)"

lemma utf8_char_length: "1 \<le> length (utf8_char c)"
  by (simp add: utf8_char_def Let_def)

lemma utf8_length: "length ws \<le> length (utf8 ws)"
proof (induction ws)
  case (Cons c ws)
  then show ?case using utf8_char_length [of c] by (simp add: utf8_def)
qed (simp add: utf8_def)

text \<open>The room the code makes, one wide character for each byte, is always enough.\<close>

lemma utf8_to_wstring_value:
  assumes "iconv_ok ic" "0 \<notin> set s" "length s < 2 ^ 61"
  shows "utf8_to_wstring ic (s @ [0]) = (case iconv ic s ((of_nat (length s) + 1) * 4) of
      None \<Rightarrow> Inl Throw | Some ws \<Rightarrow> Inr ws)"
    and "(\<forall>c \<in> set ws. scalar c) \<and> utf8 ws = s \<Longrightarrow> iconv ic s ((of_nat (length s) + 1) * 4) = Some ws"
proof -
  let ?n = "of_nat (length s) :: size_t"
  have cs: "c_str (s @ [0]) = s" using assms(2) by (simp add: c_str_def takeWhile_append)
  have n: "unat ?n = length s" using assms(3) by (intro unat_of_nat_small) simp
  have "(?n + 1) * 4 = of_nat (4 * (length s + 1))" by (simp add: algebra_simps)
  then have room: "unat ((?n + 1) * 4) = 4 * (length s + 1)"
    using assms(3) by (simp only:) (intro unat_of_nat_small, simp)
  then have cells: "unat ((?n + 1) * 4 div 4) = length s + 1" by (simp add: unat_div)
  have arg: "take (unat ?n) (s @ [0]) = s" by (simp only: n take_append diff_self_eq_0) simp
  show "utf8_to_wstring ic (s @ [0]) = (case iconv ic s ((?n + 1) * 4) of None \<Rightarrow> Inl Throw | Some ws \<Rightarrow> Inr ws)"
  proof (cases "iconv ic s ((?n + 1) * 4)")
    case None
    then show ?thesis by (cases "iconv_opens ic") (simp_all only: utf8_to_wstring_def cs arg Let_def, simp_all)
  next
    case (Some ws)
    then have "utf8 ws = s" using assms(1) unfolding iconv_ok_def by blast
    then have "length ws \<le> length s" using utf8_length [of ws] by simp
    then show ?thesis
      using assms(1) Some unfolding utf8_to_wstring_def cs arg iconv_ok_def Let_def
      by (simp add: store_list_def blit_def resize_def cells [simplified])
  qed
  assume ws: "(\<forall>c \<in> set ws. scalar c) \<and> utf8 ws = s"
  then have "4 * length ws \<le> unat ((?n + 1) * 4)" unfolding room using utf8_length [of ws] by auto
  then show "iconv ic s ((?n + 1) * 4) = Some ws" using assms(1) ws unfolding iconv_ok_def by blast
qed

lemma for_each_index:
  "for_each [0..<length xs] (\<lambda>i s. bnd (load xs i) (\<lambda>x. f x s)) s = for_each xs f s"
proof -
  have "for_each [n..<n + length ys] (\<lambda>i s. bnd (load (xs @ ys) i) (\<lambda>x. f x s)) s = for_each ys f s"
    if "n = length xs" for n xs ys
    using that
  proof (induction ys arbitrary: n xs s)
    case (Cons y ys)
    have "[n..<n + length (y # ys)] = n # [Suc n..<Suc n + length ys]" by (subst upt_conv_Cons) simp_all
    moreover have "load (xs @ y # ys) n = Inr y" using Cons.prems by (simp add: load_def)
    ultimately show ?case using Cons.IH [of "Suc n" "xs @ [y]"] Cons.prems by (simp cong: bnd_cong)
  qed simp
  from this [of 0 "[]" xs] show ?thesis by simp
qed

definition wide_args :: "bytes list \<Rightarrow> wide list \<Rightarrow> bool" where
  "wide_args ss args \<longleftrightarrow> map utf8 args = ss \<and> (\<forall>ws \<in> set args. \<forall>c \<in> set ws. scalar c)"

lemma wide_args_Cons:
  "wide_args (s # ss) args \<longleftrightarrow> (\<exists>w as. args = w # as \<and> utf8 w = s \<and> (\<forall>c \<in> set w. scalar c) \<and> wide_args ss as)"
  by (auto simp: wide_args_def map_eq_Cons_conv)

definition add_arg :: "iconv_lib \<Rightarrow> bytes \<Rightarrow> wide list \<Rightarrow> wide list res" where
  "add_arg ic s result = bnd (utf8_to_wstring ic s) (\<lambda>w. Inr (result @ [w]))"

lemma add_args:
  assumes "iconv_ok ic" "\<forall>s \<in> set ss. 0 \<notin> set s \<and> length s < 2 ^ 61"
  shows "case for_each (map (\<lambda>s. s @ [0]) ss) (add_arg ic) acc of
      Inl e \<Rightarrow> e = Throw \<and> (\<forall>args. \<not> wide_args ss args)
    | Inr r \<Rightarrow> \<exists>args. r = acc @ args \<and> map utf8 args = ss \<and> (\<forall>args'. wide_args ss args' \<longrightarrow> args' = args)"
  using assms(2)
proof (induction ss arbitrary: acc)
  case (Cons s ss)
  let ?r = "iconv ic s ((of_nat (length s) + 1) * 4)"
  have s: "0 \<notin> set s" "length s < 2 ^ 61" using Cons.prems by simp_all
  note v = utf8_to_wstring_value [OF assms(1) s]
  show ?case
  proof (cases ?r)
    case None
    then have "utf8 ws \<noteq> s" if "\<forall>c \<in> set ws. scalar c" for ws using v(2) [of ws] that by auto
    then show ?thesis using v(1) None by (auto simp: wide_args_Cons add_arg_def)
  next
    case (Some w)
    then have w: "utf8 w = s" using assms(1) unfolding iconv_ok_def by blast
    have only: "w' = w" if "\<forall>c \<in> set w'. scalar c" "utf8 w' = s" for w' using v(2) [of w'] that Some by simp
    have step: "add_arg ic (s @ [0]) acc = Inr (acc @ [w])" using v(1) Some by (simp add: add_arg_def)
    show ?thesis
    proof (cases "for_each (map (\<lambda>s. s @ [0]) ss) (add_arg ic) (acc @ [w])")
      case (Inl e)
      then show ?thesis using Cons.IH [of "acc @ [w]"] Cons.prems step by (auto simp: wide_args_Cons)
    next
      case (Inr r)
      then obtain args where "r = (acc @ [w]) @ args" "map utf8 args = ss" "\<forall>args'. wide_args ss args' \<longrightarrow> args' = args"
        using Cons.IH [of "acc @ [w]"] Cons.prems by auto
      then show ?thesis using Inr step w only by (auto simp: wide_args_Cons intro!: exI [of _ "w # args"])
    qed
  qed
qed (simp add: wide_args_def)

lemma getArgv_each: "getArgv ic (int (length argv)) argv = for_each argv (add_arg ic) []"
  by (simp add: getArgv_def add_arg_def [abs_def] for_each_index)

section \<open>A decoder\<close>

text \<open>
  A function that keeps the promises: the first bytes determine a candidate, which is checked. Like
  the converter of glibc it accepts every code point below \<open>2 ^ 31\<close> that is not a surrogate.
\<close>

definition code_point :: "u32 \<Rightarrow> bool" where
  "code_point c \<longleftrightarrow> unat c < 0x80000000 \<and> \<not> (0xd800 \<le> unat c \<and> unat c < 0xe000)"

lemma scalar_code_point: "scalar c \<Longrightarrow> code_point c"
  by (simp add: scalar_def code_point_def)

definition first_char :: "bytes \<Rightarrow> u32" where
  "first_char s =
     (let n = unat (s ! 0); tail = (\<lambda>i. if i < length s then unat (s ! i) mod 64 else 0)
      in of_nat (if n < 0x80 then n
         else if n < 0xe0 then n mod 32 * 64 + tail 1
         else if n < 0xf0 then n mod 16 * 4096 + tail 1 * 64 + tail 2
         else if n < 0xf8 then n mod 8 * 262144 + tail 1 * 4096 + tail 2 * 64 + tail 3
         else if n < 0xfc then n mod 4 * 16777216 + tail 1 * 262144 + tail 2 * 4096 + tail 3 * 64 + tail 4
         else n mod 2 * 1073741824 + tail 1 * 16777216 + tail 2 * 262144 + tail 3 * 4096 + tail 4 * 64 + tail 5))"

fun decode :: "nat \<Rightarrow> bytes \<Rightarrow> wide option" where
  "decode _ [] = Some []"
| "decode 0 s = None"
| "decode (Suc n) s =
     (let c = first_char s; k = length (utf8_char c)
      in if code_point c \<and> take k s = utf8_char c then map_option (Cons c) (decode n (drop k s)) else None)"

definition example_iconv :: iconv_lib where
  "example_iconv = \<lparr>iconv_opens = True, iconv = \<lambda>s n. decode (length s) s\<rparr>"

lemma u8_of_nat: "n < 256 \<Longrightarrow> unat (of_nat n :: u8) = n"
  by (intro unat_of_nat_small) simp

lemma lead_byte:
  assumes "k < m" "m * j + m \<le> 256"
  shows "unat (of_nat (m * j + k) :: u8) = m * j + k" "(m * j + k) mod m = k"
  using assms by (simp_all only: u8_of_nat mod_mult_self4 mod_less)

lemma first_char_utf8:
  assumes "unat c < 0x80000000"
  shows "first_char (utf8_char c @ s) = c"
proof -
  define n where "n = unat c"
  have c: "c = of_nat n" by (simp add: n_def)
  have n: "n < 0x80000000" using assms by (simp add: n_def)
  have d: "n div 4096 = n div 64 div 64" "n div 262144 = n div 64 div 64 div 64"
    "n div 16777216 = n div 64 div 64 div 64 div 64" "n div 1073741824 = n div 64 div 64 div 64 div 64 div 64"
    by (simp_all add: div_mult2_eq [symmetric])
  define q1 r0 where q1: "q1 = n div 64" and r0: "r0 = n mod 64"
  define q2 r1 where q2: "q2 = q1 div 64" and r1: "r1 = q1 mod 64"
  define q3 r2 where q3: "q3 = q2 div 64" and r2: "r2 = q2 mod 64"
  define q4 r3 where q4: "q4 = q3 div 64" and r3: "r3 = q3 mod 64"
  define q5 r4 where q5: "q5 = q4 div 64" and r4: "r4 = q4 mod 64"
  note names = d q1 [symmetric] r0 [symmetric] q2 [symmetric] r1 [symmetric] q3 [symmetric] r2 [symmetric]
    q4 [symmetric] r3 [symmetric] q5 [symmetric] r4 [symmetric]
  have s: "n = q1 * 64 + r0" "q1 = q2 * 64 + r1" "q2 = q3 * 64 + r2" "q3 = q4 * 64 + r3" "q4 = q5 * 64 + r4"
    by (simp_all add: q1 r0 q2 r1 q3 r2 q4 r3 q5 r4)
  have tail: "unat (of_nat (128 + r) :: u8) mod 64 = r" if "r < 64" for r
  proof -
    have "128 + r < 256" "(r + 64 * 2) mod 64 = r mod 64" using that by (simp, intro mod_mult_self2)
    then show ?thesis using that by (simp only: u8_of_nat) (simp add: add.commute)
  qed
  have "r0 < 64" "r1 < 64" "r2 < 64" "r3 < 64" "r4 < 64" by (simp_all add: r0 r1 r2 r3 r4)
  note t = this [THEN tail]
  note chars = utf8_char_def first_char_def Let_def n_def [symmetric] names t
  consider "n < 0x80" | "0x80 \<le> n" "n < 0x800" | "0x800 \<le> n" "n < 0x10000" | "0x10000 \<le> n" "n < 0x200000"
    | "0x200000 \<le> n" "n < 0x4000000" | "0x4000000 \<le> n" by linarith
  then have "first_char (utf8_char c @ s) = of_nat n"
  proof cases
    case 1
    then show ?thesis by (simp add: utf8_char_def first_char_def Let_def n_def [symmetric] u8_of_nat)
  next
    case 2
    then have "q1 < 32" "q1 * 64 + r0 = n" using s by linarith+
    then show ?thesis using 2 lead_byte [of q1 32 6] by (simp add: chars del: of_nat_add)
  next
    case 3
    then have "q2 < 16" "q2 * 4096 + r1 * 64 + r0 = n" using s by linarith+
    then show ?thesis using 3 lead_byte [of q2 16 14] by (simp add: chars del: of_nat_add)
  next
    case 4
    then have "q3 < 8" "q3 * 262144 + r2 * 4096 + r1 * 64 + r0 = n" using s by linarith+
    then show ?thesis using 4 lead_byte [of q3 8 30] by (simp add: chars del: of_nat_add)
  next
    case 5
    then have "q4 < 4" "q4 * 16777216 + r3 * 262144 + r2 * 4096 + r1 * 64 + r0 = n" using s by linarith+
    then show ?thesis using 5 lead_byte [of q4 4 62] by (simp add: chars del: of_nat_add)
  next
    case 6
    then have "q5 < 2" "q5 * 1073741824 + r4 * 16777216 + r3 * 262144 + r2 * 4096 + r1 * 64 + r0 = n" using n s by linarith+
    then show ?thesis using 6 lead_byte [of q5 2 126] by (simp add: chars del: of_nat_add)
  qed
  then show ?thesis using c by simp
qed

lemma decode_utf8: "\<forall>c \<in> set ws. code_point c \<Longrightarrow> length (utf8 ws) \<le> n \<Longrightarrow> decode n (utf8 ws) = Some ws"
proof (induction ws arbitrary: n)
  case (Cons c ws)
  have ne: "utf8_char c \<noteq> []" and l: "0 < length (utf8_char c)" using utf8_char_length [of c] by auto
  then obtain k where n: "n = Suc k" using Cons.prems(2) by (cases n) (simp_all add: utf8_def)
  obtain b bs where b: "utf8 (c # ws) = b # bs" using ne by (cases "utf8 (c # ws)") (simp_all add: utf8_def)
  have f: "first_char (b # bs) = c" "take (length (utf8_char c)) (b # bs) = utf8_char c" "drop (length (utf8_char c)) (b # bs) = utf8 ws"
    unfolding b [symmetric] using first_char_utf8 [of c "utf8 ws"] Cons.prems(1) by (simp_all add: utf8_def code_point_def)
  have "length (utf8_char c) + length (utf8 ws) \<le> Suc k" using Cons.prems(2) by (simp add: n utf8_def)
  then have "length (utf8 ws) \<le> k" using l by linarith
  then show ?case using Cons.IH [of k] Cons.prems(1) f by (simp add: n b Let_def)
qed (simp add: utf8_def)

lemma decode_sound: "decode n s = Some ws \<Longrightarrow> utf8 ws = s \<and> (\<forall>c \<in> set ws. code_point c)"
proof (induction n s arbitrary: ws rule: decode.induct)
  case (3 n b bs)
  let ?c = "first_char (b # bs)" and ?k = "length (utf8_char (first_char (b # bs)))"
  have c: "code_point ?c" "take ?k (b # bs) = utf8_char ?c" using "3.prems" by (auto simp: Let_def split: if_splits)
  obtain vs where vs: "decode n (drop ?k (b # bs)) = Some vs" "ws = ?c # vs"
    using "3.prems" c by (auto simp: Let_def split: if_splits)
  have "utf8 vs = drop ?k (b # bs) \<and> (\<forall>c \<in> set vs. code_point c)"
    using "3.IH" [OF refl refl _ vs(1)] c by blast
  then have "utf8 ws = take ?k (b # bs) @ drop ?k (b # bs)" "\<forall>c \<in> set ws. code_point c"
    using c vs(2) by (simp_all add: utf8_def)
  then show ?case by simp
qed (simp_all add: utf8_def)

lemma example_iconv_ok: "iconv_ok example_iconv"
proof -
  have "decode (length (utf8 ws)) (utf8 ws) = Some ws" if "\<forall>c \<in> set ws. scalar c" for ws
    using that by (intro decode_utf8) (auto intro: scalar_code_point)
  then show ?thesis unfolding iconv_ok_def example_iconv_def using decode_sound by (intro conjI allI impI) (auto dest: decode_sound)
qed

section \<open>The arguments\<close>

lemma byte_nonzero: "0 < k \<Longrightarrow> k < 256 \<Longrightarrow> (0 :: u8) \<noteq> of_nat k"
  using u8_of_nat [of k] by (metis less_irrefl unat_0)

lemma utf8_char_nonzero:
  assumes "scalar c" "c \<noteq> 0"
  shows "0 \<notin> set (utf8_char c)"
proof -
  have n: "unat c < 0x110000" "0 < unat c" using assms by (simp_all add: scalar_def unat_gt_0)
  have "(0 :: u8) \<noteq> of_nat (128 + m mod 64)" for m
    by (intro byte_nonzero) (simp_all add: less_trans [OF mod_less_divisor])
  moreover have "unat c < 2048 \<Longrightarrow> (0 :: u8) \<noteq> of_nat (192 + unat c div 64)"
    "unat c < 65536 \<Longrightarrow> (0 :: u8) \<noteq> of_nat (224 + unat c div 4096)" "(0 :: u8) \<noteq> of_nat (240 + unat c div 262144)"
    using n(1) by (intro byte_nonzero, linarith, linarith)+
  moreover have "unat c < 128 \<Longrightarrow> (0 :: u8) \<noteq> of_nat (unat c)" using n(2) by (intro byte_nonzero) simp_all
  ultimately show ?thesis using n(1) by (auto simp: utf8_char_def Let_def simp del: of_nat_add)
qed

lemma utf8_room: "length (utf8 ws) \<le> 6 * length ws"
proof (induction ws)
  case (Cons c ws)
  have "length (utf8_char c) \<le> 6" by (simp add: utf8_char_def Let_def)
  then show ?case using Cons by (simp add: utf8_def)
qed (simp add: utf8_def)

lemma getArgv_utf8:
  assumes "iconv_ok ic" "\<forall>w \<in> set words. (\<forall>c \<in> set w. scalar c \<and> c \<noteq> 0) \<and> length w < 2 ^ 58"
  shows "getArgv ic (int (length words)) (map (\<lambda>w. utf8 w @ [0]) words) = Inr words"
proof -
  let ?ss = "map utf8 words"
  have ok: "\<forall>s \<in> set ?ss. 0 \<notin> set s \<and> length s < 2 ^ 61"
  proof
    fix s assume "s \<in> set ?ss"
    then obtain w where w: "w \<in> set words" "s = utf8 w" by auto
    then have "0 \<notin> set s" using assms(2) utf8_char_nonzero by (auto simp: utf8_def)
    moreover have "length s < 2 ^ 61" using assms(2) w utf8_room [of w] by fastforce
    ultimately show "0 \<notin> set s \<and> length s < 2 ^ 61" ..
  qed
  have wa: "wide_args ?ss words" using assms(2) by (simp add: wide_args_def)
  have "getArgv ic (int (length words)) (map (\<lambda>w. utf8 w @ [0]) words) = for_each (map (\<lambda>s. s @ [0]) ?ss) (add_arg ic) []"
    using getArgv_each [of ic "map (\<lambda>s. s @ [0]) ?ss"] by (simp add: comp_def)
  then show ?thesis using add_args [OF assms(1) ok, of "[]"] wa by (auto split: sum.splits)
qed

text \<open>
  C33. The arguments of a program are decoded one by one. Arguments in UTF-8 always give the list of
  wide strings whose encodings they are: the room that the code makes suffices for every string, and
  nothing of it is left in the result. Otherwise the system's converter decides: the only failure
  is an exception, which needs an argument that is not UTF-8, and a result still has the arguments
  as its encodings, so that an argument that encodes nothing ends in the exception.
\<close>

theorem getArgv_decodes:
  assumes "iconv_ok ic" "\<forall>s \<in> set ss. 0 \<notin> set s \<and> length s < 2 ^ 61" "argc = int (length ss)"
  shows "(\<forall>args. wide_args ss args \<longrightarrow> getArgv ic argc (map (\<lambda>s. s @ [0]) ss) = Inr args) \<and>
    (case getArgv ic argc (map (\<lambda>s. s @ [0]) ss) of
       Inl e \<Rightarrow> e = Throw \<and> (\<exists>s \<in> set ss. \<forall>w. (\<forall>c \<in> set w. scalar c) \<longrightarrow> utf8 w \<noteq> s)
     | Inr args \<Rightarrow> map utf8 args = ss)"
proof -
  have each: "getArgv ic argc (map (\<lambda>s. s @ [0]) ss) = for_each (map (\<lambda>s. s @ [0]) ss) (add_arg ic) []"
    using getArgv_each [of ic "map (\<lambda>s. s @ [0]) ss"] by (simp only: assms(3) length_map)
  have "\<exists>s \<in> set ss. \<forall>w. (\<forall>c \<in> set w. scalar c) \<longrightarrow> utf8 w \<noteq> s" if "\<forall>args. \<not> wide_args ss args"
  proof (rule ccontr)
    assume "\<not> ?thesis"
    then obtain w where "\<forall>s \<in> set ss. (\<forall>c \<in> set (w s). scalar c) \<and> utf8 (w s) = s" by metis
    then have "wide_args ss (map w ss)" by (auto simp: wide_args_def intro: map_idI)
    then show False using that by blast
  qed
  then show ?thesis using add_args [OF assms(1,2), of "[]"] unfolding each by (auto split: sum.splits)
qed

text \<open>Valid arguments, one that encodes nothing, and one beyond the scalar values.\<close>

theorem getArgv_decodes_witness:
  "getArgv example_iconv 2 [lit ''a'' @ [0], [0xc3, 0xa9, 0]] = Inr [[0x61], [0xe9]] \<and>
   getArgv example_iconv 1 [[0xff, 0]] = Inl Throw \<and>
   getArgv example_iconv 1 [[0xf4, 0x90, 0x80, 0x80, 0]] = Inr [[0x110000]] \<and> utf8 [0x110000] = [0xf4, 0x90, 0x80, 0x80]"
proof -
  note r = getArgv_decodes [OF example_iconv_ok]
  have a: "wide_args [lit ''a'', [0xc3, 0xa9]] [[0x61], [0xe9]]"
    by (simp add: wide_args_def utf8_def utf8_char_def scalar_def lit_def)
  have "utf8 w \<noteq> [0xff]" for w
  proof
    assume w: "utf8 w = [0xff]"
    have "utf8_char c \<noteq> []" for c using utf8_char_length [of c] by auto
    with w obtain c where "utf8_char c = [0xff]"
      by (cases w) (auto simp: utf8_def append_eq_Cons_conv Cons_eq_append_conv)
    then show False
      by (auto simp: utf8_char_def Let_def word_unat_eq_iff u8_of_nat unsigned_ucast_eq take_bit_eq_mod split: if_splits)
  qed
  then have "getArgv example_iconv 1 [[0xff, 0]] = Inl Throw"
    using r [of "[[0xff]]" 1] by (auto split: sum.splits)
  moreover have u: "utf8 [0x110000] = [0xf4, 0x90, 0x80, 0x80]" by (simp add: utf8_def utf8_char_def Let_def)
  moreover have "decode (length [0xf4 :: u8, 0x90, 0x80, 0x80]) [0xf4, 0x90, 0x80, 0x80] = Some [0x110000]"
    using decode_utf8 [of "[0x110000]" "length [0xf4 :: u8, 0x90, 0x80, 0x80]"] u by (simp add: code_point_def del: decode.simps)
  then have "getArgv example_iconv 1 [[0xf4, 0x90, 0x80, 0x80, 0]] = Inr [[0x110000]]"
    using getArgv_each [of example_iconv "[[0xf4, 0x90, 0x80, 0x80, 0]]"]
      utf8_to_wstring_value(1) [OF example_iconv_ok, of "[0xf4, 0x90, 0x80, 0x80]"]
    by (simp add: add_arg_def example_iconv_def del: decode.simps)
  moreover have "getArgv example_iconv 2 [lit ''a'' @ [0], [0xc3, 0xa9, 0]] = Inr [[0x61], [0xe9]]"
    using r [of "[lit ''a'', [0xc3, 0xa9]]" 2, THEN conjunct1] a by (simp add: lit_def)
  ultimately show ?thesis by simp
qed

end
