(* ===== verification/Demo.thy ===== *)
theory Demo
  imports Engine Argv Digits
begin

text \<open>
  \<open>demo/src/main.cpp\<close>: the command line tool that prints the feature vectors of files. Its output is
  the log of what it does: the texts it prints, the files it announces, the pauses. How long an
  extraction takes is not part of the log.
\<close>

section \<open>The command line\<close>

definition wlit :: "string \<Rightarrow> wide" where
  "wlit s = map of_char s"

text \<open>\<open>operator[]\<close> of a string: the character after the last one is zero.\<close>

definition wchar_at :: "wide \<Rightarrow> nat \<Rightarrow> u32 res" where
  "wchar_at s i = (if i < length s then Inr (s ! i) else if i = length s then Inr 0 else Inl Undefined)"

datatype flag_t = FLAG_NONE | FLAG_TIME_GAP_MS | FLAG_LOOP

record demo_options =
  opt_paths :: "bytes list"
  opt_time_gap :: int
  opt_silent :: bool
  opt_loop :: int
  opt_flag :: flag_t

definition default_options :: demo_options where
  "default_options = \<lparr>opt_paths = [], opt_time_gap = 0, opt_silent = False, opt_loop = 1, opt_flag = FLAG_NONE\<rparr>"

text \<open>
  One turn of the loop over the arguments. No options mean an unknown flag. The conversion of a wide
  string to a path is a parameter and may throw.
\<close>

definition parse_arg :: "(wide \<Rightarrow> bytes res) \<Rightarrow> wide \<Rightarrow> demo_options \<Rightarrow> demo_options option res" where
  "parse_arg path_of_wide arg o' = (case opt_flag o' of
     FLAG_NONE \<Rightarrow>
       bnd (wchar_at arg 0) (\<lambda>c0.
       bnd (if c0 = 45 then map_res (\<lambda>c1. c1 = 45) (wchar_at arg 1) else Inr False) (\<lambda>long.
       if long then
         let flagName = drop 2 arg
         in if flagName = wlit ''time-gap-ms'' then Inr (Some (o'\<lparr>opt_flag := FLAG_TIME_GAP_MS\<rparr>))
            else if flagName = wlit ''silent'' then Inr (Some (o'\<lparr>opt_silent := True\<rparr>))
            else if flagName = wlit ''loop'' then Inr (Some (o'\<lparr>opt_flag := FLAG_LOOP\<rparr>))
            else Inr None
       else map_res (\<lambda>p. Some (o'\<lparr>opt_paths := opt_paths o' @ [p]\<rparr>)) (path_of_wide arg)))
   | FLAG_TIME_GAP_MS \<Rightarrow> map_res (\<lambda>n. Some (o'\<lparr>opt_time_gap := n, opt_flag := FLAG_NONE\<rparr>)) (stoi arg)
   | FLAG_LOOP \<Rightarrow> map_res (\<lambda>n. Some (o'\<lparr>opt_loop := n, opt_flag := FLAG_NONE\<rparr>)) (stoi arg))"

fun parse_args :: "(wide \<Rightarrow> bytes res) \<Rightarrow> wide list \<Rightarrow> demo_options \<Rightarrow> demo_options option res" where
  "parse_args path_of_wide [] o' = Inr (Some o')"
| "parse_args path_of_wide (arg # args) o' =
     bnd (parse_arg path_of_wide arg o') (\<lambda>r. case r of
       None \<Rightarrow> Inr None | Some o' \<Rightarrow> parse_args path_of_wide args o')"

section \<open>Scanning\<close>

text \<open>What the tool is linked with and runs on; \<open>env_show\<close> formats a \<open>float\<close>.\<close>

record demo_env =
  env_libraries :: libraries
  env_parse :: "bytes \<Rightarrow> parse_result"
  env_parse_authenticode :: "bytes \<Rightarrow> avast_result"
  env_system :: system
  env_iconv :: iconv_lib
  env_path_of_wide :: "wide \<Rightarrow> bytes res"
  env_show :: "fl \<Rightarrow> bytes"

datatype demo_event =
  Usage | Unknown_Flag | Slept int | Scanning bytes | Timed | Reported error_code | Printed bytes

definition LINE_BREAK_AT :: size_t where "LINE_BREAK_AT = 10"
definition RANGE_IN_LINE :: size_t where "RANGE_IN_LINE = LINE_BREAK_AT - 1"

definition line_head :: "size_t \<Rightarrow> size_t \<Rightarrow> bytes" where
  "line_head MAX_INDEX i =
     (if i mod LINE_BREAK_AT = 0
      then [10] @ pad4 (unat i) @ lit ''-'' @ pad4 (unat (min (i + RANGE_IN_LINE) MAX_INDEX)) @ lit '': ''
      else [])"

definition printFeatureVector :: "(fl \<Rightarrow> bytes) \<Rightarrow> fl list \<Rightarrow> size_t \<Rightarrow> bytes res" where
  "printFeatureVector sh featureVector N =
     (let MAX_INDEX = N - 1
      in map_res (\<lambda>out. out @ [10, 10] @ lit ''DIMENSION = '' @ decimal (unat N) @ [10])
           (for_each [0..<unat N] (\<lambda>i out. bnd (load featureVector i) (\<lambda>x.
              Inr (out @ line_head MAX_INDEX (of_nat i) @ sh x @ lit '' ''))) []))"

definition scanSingleFile ::
  "demo_env \<Rightarrow> bytes \<Rightarrow> bool \<Rightarrow> engine \<times> demo_event list \<Rightarrow> (bool \<times> engine \<times> demo_event list) res" where
  "scanSingleFile env filePath silent = (\<lambda>(fe, log).
     bnd (run_path (env_libraries env) (env_parse env) (env_parse_authenticode env) (env_system env) filePath fe)
       (\<lambda>(fe, featureVector, errorCode).
        let log = log @ [Timed]
        in (case errorCode of
              Some c \<Rightarrow> Inr (False, fe, log @ [Reported c])
            | None \<Rightarrow>
                if silent then Inr (True, fe, log)
                else (case featureVector of None \<Rightarrow> Inl Undefined | Some v \<Rightarrow>
                  map_res (\<lambda>out. (True, fe, log @ [Printed out])) (printFeatureVector (env_show env) v (getDim fe))))))"

text \<open>A loop over a list that a step may leave by \<open>return\<close>.\<close>

fun until_fails :: "'a list \<Rightarrow> ('a \<Rightarrow> 's \<Rightarrow> (bool \<times> 's) res) \<Rightarrow> 's \<Rightarrow> (bool \<times> 's) res" where
  "until_fails [] f s = Inr (True, s)"
| "until_fails (x # xs) f s = bnd (f x s) (\<lambda>(ok, s). if ok then until_fails xs f s else Inr (False, s))"

definition demo_step ::
  "demo_env \<Rightarrow> demo_options \<Rightarrow> bytes \<Rightarrow> bool \<times> engine \<times> demo_event list \<Rightarrow> (bool \<times> bool \<times> engine \<times> demo_event list) res" where
  "demo_step env o' filePath = (\<lambda>(first, fe, log).
     let log = (if first then log else log @ [Slept (opt_time_gap o')]) @ [Scanning filePath]
     in map_res (\<lambda>(ok, fe, log). (ok, False, fe, log)) (scanSingleFile env filePath (opt_silent o') (fe, log)))"

text \<open>\<open>fts\<close> are the feature objects that the constructor of the engine makes.\<close>

definition demo_main :: "demo_env \<Rightarrow> feature_object list \<Rightarrow> int \<Rightarrow> bytes list \<Rightarrow> (int \<times> demo_event list) res" where
  "demo_main env fts argc argv =
     (if argc < 2 then Inr (1, [Usage])
      else bnd (getArgv (env_iconv env) argc argv) (\<lambda>args.
        bnd (parse_args (env_path_of_wide env) (tl args) default_options) (\<lambda>r. case r of
          None \<Rightarrow> Inr (1, [Unknown_Flag])
        | Some o' \<Rightarrow>
            map_res (\<lambda>(ok, first, fe, log). (if ok then 0 else 1, log))
              (until_fails [0..<nat (opt_loop o')] (\<lambda>iLoop. until_fails (opt_paths o') (demo_step env o'))
                (True, engine_new fts, [])))))"

section \<open>Reading the options back\<close>

text \<open>What a user may ask for, how it is written, and what it means.\<close>

datatype demo_opt = Time_Gap int | Silent | Loop_Count int | Path wide bytes

fun opt_args :: "demo_opt \<Rightarrow> wide list" where
  "opt_args (Time_Gap n) = [wlit ''--time-gap-ms'', show_int n]"
| "opt_args Silent = [wlit ''--silent'']"
| "opt_args (Loop_Count n) = [wlit ''--loop'', show_int n]"
| "opt_args (Path w p) = [w]"

fun apply_opt :: "demo_options \<Rightarrow> demo_opt \<Rightarrow> demo_options" where
  "apply_opt o' (Time_Gap n) = o'\<lparr>opt_time_gap := n\<rparr>"
| "apply_opt o' Silent = o'\<lparr>opt_silent := True\<rparr>"
| "apply_opt o' (Loop_Count n) = o'\<lparr>opt_loop := n\<rparr>"
| "apply_opt o' (Path w p) = o'\<lparr>opt_paths := opt_paths o' @ [p]\<rparr>"

fun opt_ok :: "(wide \<Rightarrow> bytes res) \<Rightarrow> demo_opt \<Rightarrow> bool" where
  "opt_ok conv (Path w p) \<longleftrightarrow> conv w = Inr p \<and> take 2 w \<noteq> [45, 45]"
| "opt_ok conv (Time_Gap n) \<longleftrightarrow> - (2 ^ 31) \<le> n \<and> n < 2 ^ 31"
| "opt_ok conv (Loop_Count n) \<longleftrightarrow> - (2 ^ 31) \<le> n \<and> n < 2 ^ 31"
| "opt_ok conv Silent \<longleftrightarrow> True"

lemma parse_args_append:
  "parse_args conv (xs @ ys) o' = bnd (parse_args conv xs o') (\<lambda>r. case r of None \<Rightarrow> Inr None | Some o' \<Rightarrow> parse_args conv ys o')"
proof (induction xs arbitrary: o')
  case (Cons x xs)
  then show ?case by (cases "parse_arg conv x o'") (auto split: option.split)
qed simp

lemma parse_path:
  assumes "opt_flag o' = FLAG_NONE" "conv w = Inr p" "take 2 w \<noteq> [45, 45]"
  shows "parse_arg conv w o' = Inr (Some (o'\<lparr>opt_paths := opt_paths o' @ [p]\<rparr>))"
proof (cases w)
  case (Cons a v)
  then show ?thesis using assms by (cases v) (auto simp: parse_arg_def wchar_at_def)
qed (use assms in \<open>simp add: parse_arg_def wchar_at_def\<close>)

lemma wlit_simps: "wlit [] = []" "wlit (c # s) = of_char c # wlit s"
  by (simp_all add: wlit_def)

lemma parse_one:
  assumes "opt_ok conv q" "opt_flag o' = FLAG_NONE"
  shows "parse_args conv (opt_args q) o' = Inr (Some (apply_opt o' q)) \<and> opt_flag (apply_opt o' q) = FLAG_NONE"
proof (cases q)
  case (Path w p)
  then show ?thesis using assms parse_path by simp
next
  case (Time_Gap n)
  then show ?thesis using assms stoi_show_int [of n]
    by (simp add: parse_arg_def wchar_at_def wlit_simps)
next
  case (Loop_Count n)
  then show ?thesis using assms stoi_show_int [of n]
    by (simp add: parse_arg_def wchar_at_def wlit_simps)
next
  case Silent
  then show ?thesis using assms by (simp add: parse_arg_def wchar_at_def wlit_simps)
qed

lemma parse_opts:
  assumes "\<forall>q \<in> set opts. opt_ok conv q" "opt_flag o' = FLAG_NONE"
  shows "parse_args conv (concat (map opt_args opts)) o' = Inr (Some (foldl apply_opt o' opts))"
  using assms
proof (induction opts arbitrary: o')
  case (Cons q opts)
  then show ?case using parse_one [of conv q o'] by (simp add: parse_args_append)
qed simp

section \<open>The printed vector\<close>

text \<open>Lines of ten values, each after the first and the last index of the line, and the dimension.\<close>

definition vector_row :: "(fl \<Rightarrow> bytes) \<Rightarrow> fl list \<Rightarrow> nat \<Rightarrow> bytes" where
  "vector_row sh v r =
     [10] @ pad4 (10 * r) @ lit ''-'' @ pad4 (min (10 * r + 9) (length v - 1)) @ lit '': '' @
     concat (map (\<lambda>x. sh x @ lit '' '') (take 10 (drop (10 * r) v)))"

definition vector_text :: "(fl \<Rightarrow> bytes) \<Rightarrow> fl list \<Rightarrow> bytes" where
  "vector_text sh v =
     concat (map (vector_row sh v) [0..<(length v + 9) div 10]) @
     [10, 10] @ lit ''DIMENSION = '' @ decimal (length v) @ [10]"

lemma upt_tens: "concat (map (\<lambda>r. [10 * r..<min (10 * r + 10) n]) [0..<k]) = [0..<min (10 * k) n]"
proof (induction k)
  case (Suc k)
  have "[0..<min (10 * k) n] @ [10 * k..<min (10 * k + 10) n] = [0..<min (10 * Suc k) n]"
  proof (cases "10 * k \<le> n")
    case True
    define j where "j = min 10 (n - 10 * k)"
    have j: "min (10 * k) n = 10 * k" "min (10 * k + 10) n = 10 * k + j"
      using True by (simp_all add: j_def min_def) arith
    then show ?thesis using upt_add_eq_append [of 0 "10 * k" j] by (simp add: add.commute)
  qed simp
  then show ?case using Suc by simp
qed simp

lemma concat_map_concat: "concat (map g (concat (map h xs))) = concat (map (\<lambda>x. concat (map g (h x))) xs)"
  by (induction xs) simp_all

lemma line_head_inner:
  assumes "10 * r < i" "i < 10 * r + 10" "i < 2 ^ 64"
  shows "line_head m (of_nat i) = []"
proof -
  have "unat (of_nat i :: size_t) = i" using assms(3) by (intro unat_of_nat_small) simp
  then have "unat ((of_nat i :: size_t) mod LINE_BREAK_AT) = i mod 10" by (simp add: LINE_BREAK_AT_def unat_mod)
  moreover have "i mod 10 \<noteq> 0" using assms by presburger
  ultimately have "(of_nat i :: size_t) mod LINE_BREAK_AT \<noteq> 0" by (metis unat_0)
  then show ?thesis by (simp add: line_head_def)
qed

lemma line_head_first:
  assumes "10 * r < n" "n < 2 ^ 63"
  shows "line_head (of_nat n - 1) (of_nat (10 * r)) =
    [10] @ pad4 (10 * r) @ lit ''-'' @ pad4 (min (10 * r + 9) (n - 1)) @ lit '': ''"
proof -
  have u: "unat (of_nat k :: size_t) = k" if "k < 2 ^ 64" for k using that by (intro unat_of_nat_small) simp
  have r: "unat (of_nat (10 * r) :: size_t) = 10 * r" using assms by (intro u) simp
  have "unat (of_nat (10 * r) mod 10 :: size_t) = 0" using r by (simp only: unat_mod unat_numeral) simp
  then have z: "of_nat (10 * r) mod LINE_BREAK_AT = 0" by (simp only: LINE_BREAK_AT_def unat_eq_zero)
  have "of_nat (10 * r) + RANGE_IN_LINE = of_nat (10 * r + 9)" by (simp add: RANGE_IN_LINE_def LINE_BREAK_AT_def)
  then have a: "unat (of_nat (10 * r) + RANGE_IN_LINE) = 10 * r + 9" using assms u [of "10 * r + 9"] by (simp only:) simp
  have "(of_nat n - 1 :: size_t) = of_nat (n - 1)" using assms(1) by (simp add: of_nat_diff)
  then have b: "unat (of_nat n - 1 :: size_t) = n - 1" using assms u [of "n - 1"] by simp
  have "unat (min (of_nat (10 * r) + RANGE_IN_LINE) (of_nat n - 1)) = min (10 * r + 9) (n - 1)"
    unfolding min_def word_le_nat_alt a b by (simp only: if_distrib [of unat] a b)
  then show ?thesis using r by (simp only: line_head_def z refl if_True)
qed

lemma print_vector:
  assumes "length v < 2 ^ 63"
  shows "printFeatureVector sh v (of_nat (length v)) = Inr (vector_text sh v)"
proof -
  let ?n = "length v"
  define g where "g = (\<lambda>i. line_head (of_nat ?n - 1) (of_nat i) @ sh (v ! i) @ lit '' '')"
  have n: "unat (of_nat ?n :: size_t) = ?n" using assms by (intro unat_of_nat_small) simp
  have loop: "for_each is (\<lambda>i out. bnd (load v i) (\<lambda>x. Inr (out @ line_head (of_nat ?n - 1) (of_nat i) @ sh x @ lit '' ''))) out =
      Inr (out @ concat (map g is))" if "\<forall>i \<in> set is. i < ?n" for "is" out
    using that by (induction "is" arbitrary: out) (simp_all add: load_def g_def)
  have row: "concat (map g [10 * r..<min (10 * r + 10) ?n]) = vector_row sh v r" if "10 * r < ?n" for r
  proof -
    have cons: "[10 * r..<min (10 * r + 10) ?n] = 10 * r # [Suc (10 * r)..<min (10 * r + 10) ?n]"
      using that by (intro upt_conv_Cons) simp
    let ?rest = "concat (map (\<lambda>i. sh (v ! i) @ lit '' '') [Suc (10 * r)..<min (10 * r + 10) ?n])"
    have "take 10 (drop (10 * r) v) = map ((!) v) [10 * r..<min (10 * r + 10) ?n]"
      by (rule nth_equalityI) (use that in auto)
    then have cells: "concat (map (\<lambda>x. sh x @ lit '' '') (take 10 (drop (10 * r) v))) = sh (v ! (10 * r)) @ lit '' '' @ ?rest"
      unfolding cons by (simp add: comp_def)
    have "map g [Suc (10 * r)..<min (10 * r + 10) ?n] =
        map (\<lambda>i. sh (v ! i) @ lit '' '') [Suc (10 * r)..<min (10 * r + 10) ?n]"
      using assms by (intro map_cong refl) (simp add: g_def line_head_inner [of r])
    then have "concat (map g [10 * r..<min (10 * r + 10) ?n]) = g (10 * r) @ ?rest"
      unfolding cons by (simp only: list.map concat.simps)
    then show ?thesis
      unfolding vector_row_def cells g_def line_head_first [OF that assms] by (simp only: append_assoc)
  qed
  have "[0..<?n] = concat (map (\<lambda>r. [10 * r..<min (10 * r + 10) ?n]) [0..<(?n + 9) div 10])"
    unfolding upt_tens by (rule arg_cong [where f = "upt 0"]) simp
  then have "concat (map g [0..<?n]) = concat (map (\<lambda>r. concat (map g [10 * r..<min (10 * r + 10) ?n])) [0..<(?n + 9) div 10])"
    by (simp only: concat_map_concat)
  also have "\<dots> = concat (map (vector_row sh v) [0..<(?n + 9) div 10])"
    by (intro arg_cong [where f = concat] map_cong refl row) auto
  finally show ?thesis
    by (simp add: printFeatureVector_def vector_text_def n loop)
qed

section \<open>What a scan reports\<close>

text \<open>The vector of a file, or the error code of its path, without an engine.\<close>

definition path_vector :: "demo_env \<Rightarrow> bytes \<Rightarrow> (fl list + error_code) res" where
  "path_vector env path =
     (let sys = env_system env
      in bnd (sys_absolute sys path) (\<lambda>path. bnd (sys_exists sys path) (\<lambda>there.
         if \<not> there then Inr (Inr no_such_file_or_directory)
         else bnd (sys_file_size sys path) (\<lambda>n.
           if n = 0 then Inr (Inr no_message)
           else (case sys_map sys path of
             Map_Throws c \<Rightarrow> Inr (Inr (system_error c))
           | Map_Fails c \<Rightarrow> Inr (Inr (system_error c))
           | Mapped f \<Rightarrow>
               if n \<noteq> of_nat (length f) then Inr (Inr message_size)
               else map_res (\<lambda>t. Inl (all_features (env_libraries env) t (blocks 4194304 f)))
                      (new_PEFile (env_parse env) (env_parse_authenticode env) f (of_nat (length f))))))))"

definition env_ok :: "demo_env \<Rightarrow> bool" where
  "env_ok env \<longleftrightarrow> libraries_ok (env_libraries env) \<and> parser_ok (env_parse env) \<and> iconv_ok (env_iconv env) \<and>
     (\<forall>p f. sys_map (env_system env) p = Mapped f \<longrightarrow> length f < 2 ^ 61)"

definition report :: "demo_env \<Rightarrow> bool \<Rightarrow> fl list + error_code \<Rightarrow> demo_event list" where
  "report env silent r = Timed # (case r of
     Inl v \<Rightarrow> if silent then [] else [Printed (vector_text (env_show env) v)] | Inr c \<Rightarrow> [Reported c])"

lemma run_path_vector:
  assumes "env_ok env" "engine_inv (env_libraries env) e"
  shows "case path_vector env path of
      Inl x \<Rightarrow> run_path (env_libraries env) (env_parse env) (env_parse_authenticode env) (env_system env) path e = Inl x
    | Inr (Inl v) \<Rightarrow> \<exists>e'. run_path (env_libraries env) (env_parse env) (env_parse_authenticode env) (env_system env) path e =
        Inr (e', Some v, None) \<and> engine_inv (env_libraries env) e' \<and> length v = 2568
    | Inr (Inr c) \<Rightarrow> run_path (env_libraries env) (env_parse env) (env_parse_authenticode env) (env_system env) path e =
        Inr (e, None, Some c)"
proof -
  let ?sys = "env_system env" and ?L = "env_libraries env" and ?pa = "env_parse_authenticode env"
  have mem: "case new_PEFile (env_parse env) ?pa f (of_nat (length f)) of
      Inl x \<Rightarrow> run_memory ?L (env_parse env) ?pa f (of_nat (length f)) e = Inl x
    | Inr t \<Rightarrow> \<exists>e'. run_memory ?L (env_parse env) ?pa f (of_nat (length f)) e = Inr e' \<and> engine_inv ?L e' \<and>
        en_output e' = all_features ?L t (blocks 4194304 f)" if "sys_map ?sys p = Mapped f" for p f
  proof (cases "new_PEFile (env_parse env) ?pa f (of_nat (length f))")
    case (Inr t)
    have "length f < 2 ^ 61" "parser_ok (env_parse env)" using assms(1) that by (auto simp: env_ok_def)
    then show ?thesis using run_memory_result [OF _ assms(2) _ Inr] Inr by simp
  qed (simp add: run_memory_def)
  show ?thesis
  proof (cases "sys_absolute ?sys path")
    case p: (Inr p)
    show ?thesis
    proof (cases "sys_exists ?sys p")
      case there: (Inr there)
      show ?thesis
      proof (cases "sys_file_size ?sys p")
        case n: (Inr n)
        show ?thesis
        proof (cases "sys_map ?sys p")
          case (Mapped f)
          then show ?thesis using p there n assms(2) mem [OF Mapped]
            by (auto simp: path_vector_def run_path_def Let_def engine_inv_def split: sum.splits)
        qed (use p there n in \<open>simp_all add: path_vector_def run_path_def Let_def\<close>)
      qed (use p there in \<open>simp_all add: path_vector_def run_path_def Let_def\<close>)
    qed (use p in \<open>simp_all add: path_vector_def run_path_def Let_def\<close>)
  qed (simp add: path_vector_def run_path_def Let_def)
qed

lemma scan_reports:
  assumes "env_ok env" "engine_inv (env_libraries env) e" "path_vector env path = Inr r"
  shows "\<exists>e'. scanSingleFile env path silent (e, l) = Inr (isl r, e', l @ report env silent r) \<and>
    engine_inv (env_libraries env) e'"
proof (cases r)
  case (Inl v)
  obtain e' where e': "run_path (env_libraries env) (env_parse env) (env_parse_authenticode env) (env_system env) path e =
      Inr (e', Some v, None)" "engine_inv (env_libraries env) e'" "length v = 2568"
    using run_path_vector [OF assms(1,2), of path] assms(3) Inl by auto
  then have "getDim e' = of_nat (length v)" by (simp add: engine_inv_def getDim_def)
  then show ?thesis using e' print_vector [of v "env_show env"] by (simp add: scanSingleFile_def report_def Inl)
next
  case (Inr c)
  then show ?thesis using run_path_vector [OF assms(1,2), of path] assms(2,3) by (simp add: scanSingleFile_def report_def)
qed

section \<open>The run of the tool\<close>

text \<open>The jobs that are run: those before the first one that fails, and that one.\<close>

definition ran :: "('a \<Rightarrow> bool) \<Rightarrow> 'a list \<Rightarrow> 'a list" where
  "ran ok jobs = takeWhile ok jobs @ take 1 (dropWhile ok jobs)"

text \<open>The logs of jobs with a pause between two of them.\<close>

fun spaced :: "bool \<Rightarrow> int \<Rightarrow> demo_event list list \<Rightarrow> demo_event list" where
  "spaced first gap [] = []"
| "spaced first gap (l # ls) = (if first then l else Slept gap # l) @ spaced False gap ls"

lemma ran_simps: "ran ok [] = []" "ran ok (j # jobs) = j # (if ok j then ran ok jobs else [])"
  by (simp_all add: ran_def)

lemma until_fails_append:
  "until_fails (xs @ ys) f s = bnd (until_fails xs f s) (\<lambda>(ok, s). if ok then until_fails ys f s else Inr (False, s))"
proof (induction xs arbitrary: s)
  case (Cons x xs)
  then show ?case by (cases "f x s") auto
qed simp

lemma until_fails_rounds:
  "until_fails is (\<lambda>i. until_fails ps f) s = until_fails (concat (replicate (length is) ps)) f s"
proof (induction "is" arbitrary: s)
  case (Cons i "is")
  then show ?case by (cases "until_fails ps f s") (auto simp: until_fails_append)
qed simp

lemma demo_steps:
  assumes "env_ok env" "engine_inv (env_libraries env) e" "\<forall>p \<in> set jobs. path_vector env p = Inr (r p)"
  shows "\<exists>first' e'. until_fails jobs (demo_step env o') (first, e, l) =
    Inr (\<forall>p \<in> set jobs. isl (r p), first', e', l @ spaced first (opt_time_gap o')
      (map (\<lambda>p. Scanning p # report env (opt_silent o') (r p)) (ran (\<lambda>p. isl (r p)) jobs)))"
  using assms(2,3)
proof (induction jobs arbitrary: e first l)
  case (Cons p jobs)
  let ?l = "(if first then l else l @ [Slept (opt_time_gap o')]) @ [Scanning p]"
  obtain e' where e': "scanSingleFile env p (opt_silent o') (e, ?l) = Inr (isl (r p), e', ?l @ report env (opt_silent o') (r p))"
    "engine_inv (env_libraries env) e'"
    using scan_reports [OF assms(1) Cons.prems(1), of p "r p" "opt_silent o'" ?l] Cons.prems(2) by auto
  then have step: "demo_step env o' p (first, e, l) = Inr (isl (r p), False, e', ?l @ report env (opt_silent o') (r p))"
    by (simp add: demo_step_def)
  show ?case
  proof (cases "isl (r p)")
    case True
    then show ?thesis
      using Cons.IH [OF e'(2), of False "?l @ report env (opt_silent o') (r p)"] Cons.prems(2) step
      by (auto simp: ran_simps)
  next
    case False
    then show ?thesis using step by (intro exI [of _ False] exI [of _ e']) (auto simp: ran_simps)
  qed
qed (simp add: ran_simps)

text \<open>
  C5. The demo, started with any options and paths in any order, written as a user writes them: each
  path is scanned as often as the loop count says, in the order given and with the pause between
  two scans, up to and including the first scan that fails, and then the program ends, with 0
  exactly when no scan failed. What it prints for a file is the vector of that file, in lines of
  ten values, whatever was scanned before.
\<close>

theorem demo_scans:
  assumes "env_ok env" "constructed fts"
    and opts: "\<forall>q \<in> set opts. opt_ok (env_path_of_wide env) q" "opts \<noteq> []"
    and words: "words = prog # concat (map opt_args opts)"
      "\<forall>w \<in> set words. (\<forall>c \<in> set w. scalar c \<and> c \<noteq> 0) \<and> length w < 2 ^ 58"
    and o': "o' = foldl apply_opt default_options opts" "jobs = concat (replicate (nat (opt_loop o')) (opt_paths o'))"
    and results: "\<forall>p \<in> set jobs. path_vector env p = Inr (r p)"
  shows "demo_main env fts (int (length words)) (map (\<lambda>w. utf8 w @ [0]) words) =
    Inr (if \<forall>p \<in> set jobs. isl (r p) then 0 else 1,
         spaced True (opt_time_gap o')
           (map (\<lambda>p. Scanning p # report env (opt_silent o') (r p)) (ran (\<lambda>p. isl (r p)) jobs)))"
proof -
  obtain q qs where "opts = q # qs" using opts(2) by (cases opts) auto
  then have two: "2 \<le> length words" by (cases q) (simp_all add: words(1))
  have "getArgv (env_iconv env) (int (length words)) (map (\<lambda>w. utf8 w @ [0]) words) = Inr words"
    by (rule getArgv_utf8) (use assms(1) words(2) in \<open>auto simp: env_ok_def\<close>)
  moreover have "parse_args (env_path_of_wide env) (tl words) default_options = Inr (Some o')"
    using parse_opts [OF opts(1), of default_options] by (simp add: words(1) o'(1) default_options_def)
  moreover have "engine_inv (env_libraries env) (engine_new fts)"
    using assms(1,2) by (intro engine_new_inv) (simp_all add: env_ok_def)
  ultimately show ?thesis
    using two demo_steps [OF assms(1) _ results, of "engine_new fts" o' True "[]"]
    by (auto simp: demo_main_def until_fails_rounds o'(2) [symmetric])
qed

definition example_env :: demo_env where
  "example_env = \<lparr>env_libraries = example_libraries, env_parse = \<lambda>_. Thrown, env_parse_authenticode = \<lambda>_. None,
     env_system = \<lparr>sys_absolute = Inr, sys_exists = \<lambda>p. Inr (p = lit ''a''), sys_file_size = \<lambda>_. Inr 2,
       sys_map = \<lambda>_. Mapped [0x4d, 0x5a]\<rparr>,
     env_iconv = example_iconv, env_path_of_wide = \<lambda>w. Inr (utf8 w), env_show = \<lambda>_. lit ''0''\<rparr>"

lemma example_env_ok: "env_ok example_env"
  by (simp add: env_ok_def example_env_def libraries_ok_def example_libraries_def log2f_floor_ok find_readable_ok
      parser_ok_def example_iconv_ok)

text \<open>\<open>demo --silent --loop 2 --time-gap-ms 5 a\<close>, and the same with \<open>a b\<close>.\<close>

theorem demo_scans_witness:
  "demo_main example_env example_objects 7 (map (\<lambda>w. utf8 w @ [0])
     [wlit ''demo'', wlit ''--silent'', wlit ''--loop'', wlit ''2'', wlit ''--time-gap-ms'', wlit ''5'', wlit ''a'']) =
   Inr (0, [Scanning (lit ''a''), Timed, Slept 5, Scanning (lit ''a''), Timed]) \<and>
   demo_main example_env example_objects 8 (map (\<lambda>w. utf8 w @ [0])
     [wlit ''demo'', wlit ''--silent'', wlit ''--loop'', wlit ''2'', wlit ''--time-gap-ms'', wlit ''5'', wlit ''a'', wlit ''b'']) =
   Inr (1, [Scanning (lit ''a''), Timed, Slept 5, Scanning (lit ''b''), Timed, Reported no_such_file_or_directory])"
proof -
  let ?a = "Path (wlit ''a'') (lit ''a'')" and ?b = "Path (wlit ''b'') (lit ''b'')"
  let ?flags = "[Silent, Loop_Count 2, Time_Gap 5]"
  have u: "utf8 (wlit ''a'') = lit ''a''" "utf8 (wlit ''b'') = lit ''b''"
    by (simp_all add: utf8_def utf8_char_def wlit_def lit_def)
  have ok: "\<forall>q \<in> set (?flags @ [?a, ?b]). opt_ok (env_path_of_wide example_env) q"
    by (simp add: example_env_def u) (simp add: wlit_def)
  have digits: "show_int 2 = wlit ''2''" "show_int 5 = wlit ''5''"
    by (simp_all add: show_int_def wlit_def decimal.simps)
  define v where "v = all_features example_libraries (pe_file_init 2) (blocks 4194304 [0x4d, 0x5a])"
  define r where "r = (\<lambda>p. if p = lit ''a'' then Inl v else Inr no_such_file_or_directory)"
  have r: "path_vector example_env p = Inr (r p)" for p
    by (simp add: path_vector_def example_env_def Let_def r_def v_def new_PEFile_def)
  have words: "\<forall>w \<in> set (wlit ''demo'' # concat (map opt_args (?flags @ [?a, ?b]))).
      (\<forall>c \<in> set w. scalar c \<and> c \<noteq> 0) \<and> length w < 2 ^ 58"
    by (simp add: digits) (simp add: wlit_def scalar_def)
  show ?thesis
  proof
    show "demo_main example_env example_objects 7 (map (\<lambda>w. utf8 w @ [0])
       [wlit ''demo'', wlit ''--silent'', wlit ''--loop'', wlit ''2'', wlit ''--time-gap-ms'', wlit ''5'', wlit ''a'']) =
       Inr (0, [Scanning (lit ''a''), Timed, Slept 5, Scanning (lit ''a''), Timed])"
      using demo_scans [OF example_env_ok example_constructed, of "?flags @ [?a]" "[wlit ''demo'', wlit ''--silent'', wlit ''--loop'',
          wlit ''2'', wlit ''--time-gap-ms'', wlit ''5'', wlit ''a'']" "wlit ''demo''" _ _ r, OF _ _ _ _ refl refl] ok words r
      by (simp add: digits r_def report_def default_options_def numeral_2_eq_2 ran_simps)
  next
    show "demo_main example_env example_objects 8 (map (\<lambda>w. utf8 w @ [0])
       [wlit ''demo'', wlit ''--silent'', wlit ''--loop'', wlit ''2'', wlit ''--time-gap-ms'', wlit ''5'', wlit ''a'', wlit ''b'']) =
       Inr (1, [Scanning (lit ''a''), Timed, Slept 5, Scanning (lit ''b''), Timed, Reported no_such_file_or_directory])"
      using demo_scans [OF example_env_ok example_constructed, of "?flags @ [?a, ?b]" "[wlit ''demo'', wlit ''--silent'', wlit ''--loop'',
          wlit ''2'', wlit ''--time-gap-ms'', wlit ''5'', wlit ''a'', wlit ''b'']" "wlit ''demo''" _ _ r, OF _ _ _ _ refl refl] ok words r
      by (simp add: digits r_def report_def default_options_def numeral_2_eq_2 ran_simps lit_def)
  qed
qed

end
