(* ===== verification/SharedDemo.thy ===== *)
theory SharedDemo
  imports SharedApi Demo
begin

text \<open>
  \<open>shared_demo/src/main.cpp\<close>: the same tool for one file, written against the C interface. The engines
  of the process are part of its state, so that a handle that is lost or used too late would show.
\<close>

section \<open>The tool\<close>

datatype shared_event =
  Shared_Usage | No_Extractor | No_Dimension u32 | Extraction_Timed | Extraction_Failed u32 | Vector_Printed bytes

text \<open>
  The interface reports into the variable \<open>dim\<close>, an \<open>int\<close>. \<open>new_array\<close> stands for \<open>new float[dim]\<close>,
  which throws or gives that many cells with any contents; they are deleted at the end.
\<close>

definition shared_scanSingleFile ::
  "demo_env \<Rightarrow> (u32 \<Rightarrow> fl list res) \<Rightarrow> nat option \<Rightarrow> bytes \<Rightarrow> engines \<Rightarrow> (bool \<times> shared_event list \<times> engines) res" where
  "shared_scanSingleFile env new_array extractor filePath hs =
     bnd (EFE_GetNumFeatures extractor (Some 0) hs) (\<lambda>(result, out).
     case out of None \<Rightarrow> Inl Undefined | Some dim' \<Rightarrow>
     if result \<noteq> EXIT_SUCCESS then Inr (False, [No_Dimension result], hs)
     else bnd (new_array dim') (\<lambda>featureVector.
       bnd (EFE_ExtractFeatures32FromFileA (env_libraries env) (env_parse env) (env_parse_authenticode env) (env_system env)
              extractor (Some filePath) (Some featureVector) dim' hs) (\<lambda>(result, features, hs).
       if result \<noteq> EXIT_SUCCESS then Inr (False, [Extraction_Timed, Extraction_Failed result], hs)
       else (case features of None \<Rightarrow> Inl Undefined | Some v \<Rightarrow>
         map_res (\<lambda>out. (True, [Extraction_Timed, Vector_Printed out], hs))
           (printFeatureVector (env_show env) v (scast dim'))))))"

definition shared_main ::
  "demo_env \<Rightarrow> (engines \<Rightarrow> nat option) \<Rightarrow> feature_object list \<Rightarrow> (u32 \<Rightarrow> fl list res) \<Rightarrow> int \<Rightarrow> bytes list \<Rightarrow> engines \<Rightarrow>
   (int \<times> shared_event list \<times> engines) res" where
  "shared_main env new_nothrow fts new_array argc argv hs =
     (if argc \<noteq> 2 then Inr (1, [Shared_Usage], hs)
      else bnd (load argv 1) (\<lambda>filePath.
        let (extractor, hs) = EFE_Init new_nothrow fts hs
        in if extractor = None then Inr (1, [No_Extractor], hs)
           else bnd (shared_scanSingleFile env new_array extractor filePath hs) (\<lambda>(ok, log, hs).
             bnd (EFE_Cleanup extractor hs) (\<lambda>hs. Inr (if ok then 0 else 1, log, hs)))))"

section \<open>Its run\<close>

lemma extract_from_file:
  assumes "env_ok env" "hs a = Some e" "engine_inv (env_libraries env) e" "length fs = 2568"
    and r: "path_vector env (c_str path) = Inr r"
  shows "case r of
      Inl v \<Rightarrow> \<exists>e'. EFE_ExtractFeatures32FromFileA (env_libraries env) (env_parse env) (env_parse_authenticode env) (env_system env)
          (Some a) (Some path) (Some fs) 2568 hs = Inr (EXIT_SUCCESS, Some v, hs(a \<mapsto> e')) \<and> length v = 2568
    | Inr c \<Rightarrow> \<exists>e'. EFE_ExtractFeatures32FromFileA (env_libraries env) (env_parse env) (env_parse_authenticode env) (env_system env)
          (Some a) (Some path) (Some fs) 2568 hs = Inr (EXIT_FAILURE, Some fs, hs(a \<mapsto> e'))"
proof -
  have dim: "getDim e = 2568" using assms(3) by (simp add: engine_inv_def getDim_def)
  have enough: "\<not> (scast (2568 :: u32) :: size_t) < 2568" by simp
  note run = run_path_vector [OF assms(1,3), of "c_str path", unfolded r]
  show ?thesis
  proof (cases r)
    case (Inl v)
    then obtain e' where "run_path (env_libraries env) (env_parse env) (env_parse_authenticode env) (env_system env) (c_str path) e =
        Inr (e', Some v, None)" "length v = 2568"
      using run by auto
    then show ?thesis
      using assms(2,4) by (simp add: Inl EFE_ExtractFeatures32FromFileA_def EFE_Private_ExtractFeatures32FromFile_def
          live_engine_def dim enough load_list_def store_list_def blit_whole) blast
  next
    case (Inr c)
    then show ?thesis
      using assms(2) run by (auto simp: EFE_ExtractFeatures32FromFileA_def EFE_Private_ExtractFeatures32FromFile_def
          live_engine_def dim)
  qed
qed

text \<open>
  C26. The tool over the C interface: whatever engines the process holds and whatever the fresh array
  contains, the interface never writes outside that array or uses a dead handle, the tool prints
  exactly the vector of the file and ends with 0, or reports the failure and ends with 1, and it
  gives back the engine it asked for. Only the lack of memory for the array loses the engine.
\<close>

theorem shared_main_run:
  assumes "env_ok env" "constructed fts" "0 \<notin> set path" "path_vector env path = Inr r"
    and alloc: "\<forall>hs a. new_nothrow hs = Some a \<longrightarrow> hs a = None"
      "\<forall>n. new_array n = Inl Throw \<or> (\<exists>fs. new_array n = Inr fs \<and> length fs = unat n)"
  shows "shared_main env new_nothrow fts new_array 2 [prog, path @ [0]] hs =
    (if new_nothrow hs = None then Inr (1, [No_Extractor], hs)
     else if new_array 2568 = Inl Throw then Inl Throw
     else Inr (case r of Inl v \<Rightarrow> (0, [Extraction_Timed, Vector_Printed (vector_text (env_show env) v)], hs)
       | Inr c \<Rightarrow> (1, [Extraction_Timed, Extraction_Failed EXIT_FAILURE], hs)))"
proof (cases "new_nothrow hs")
  case None
  then show ?thesis by (simp add: shared_main_def load_def EFE_Init_def)
next
  case (Some a)
  let ?e = "engine_new fts"
  have free: "hs a = None" using alloc(1) Some by blast
  have inv: "engine_inv (env_libraries env) ?e" using assms(1,2) by (intro engine_new_inv) (simp_all add: env_ok_def)
  have dim: "EFE_GetNumFeatures (Some a) (Some 0) (hs(a \<mapsto> ?e)) = Inr (EXIT_SUCCESS, Some 2568)"
    using inv by (simp add: EFE_GetNumFeatures_def live_engine_def engine_inv_def getDim_def)
  have cs: "c_str (path @ [0]) = path" using assms(3) by (simp add: c_str_def takeWhile_append)
  have undo: "EFE_Cleanup (Some a) (hs(a \<mapsto> e)) = Inr hs" for e
    using free by (simp add: EFE_Cleanup_def live_engine_def fun_upd_idem)
  consider "new_array 2568 = Inl Throw" | fs where "new_array 2568 = Inr fs" "length fs = 2568"
    using alloc(2) [rule_format, of 2568] by auto
  then show ?thesis
  proof cases
    case 1
    then show ?thesis using Some dim by (simp add: shared_main_def load_def EFE_Init_def shared_scanSingleFile_def)
  next
    case 2
    have x: "case r of
        Inl v \<Rightarrow> \<exists>e'. EFE_ExtractFeatures32FromFileA (env_libraries env) (env_parse env) (env_parse_authenticode env) (env_system env)
            (Some a) (Some (path @ [0])) (Some fs) 2568 (hs(a \<mapsto> ?e)) = Inr (EXIT_SUCCESS, Some v, hs(a \<mapsto> e')) \<and> length v = 2568
      | Inr c \<Rightarrow> \<exists>e'. EFE_ExtractFeatures32FromFileA (env_libraries env) (env_parse env) (env_parse_authenticode env) (env_system env)
            (Some a) (Some (path @ [0])) (Some fs) 2568 (hs(a \<mapsto> ?e)) = Inr (EXIT_FAILURE, Some fs, hs(a \<mapsto> e'))"
      using extract_from_file [of env "hs(a \<mapsto> ?e)" a ?e fs "path @ [0]" r, unfolded cs, OF assms(1) _ inv 2(2) assms(4)]
      by (simp only: fun_upd_upd fun_upd_same simp_thms)
    have fail: "EXIT_FAILURE \<noteq> EXIT_SUCCESS" by (simp add: EXIT_SUCCESS_def EXIT_FAILURE_def)
    show ?thesis
    proof (cases r)
      case (Inl v)
      then show ?thesis using x Some dim 2(1) undo print_vector [of v "env_show env"]
        by (auto simp: shared_main_def load_def EFE_Init_def shared_scanSingleFile_def)
    next
      case (Inr c)
      then show ?thesis using x Some dim 2(1) undo fail
        by (auto simp: shared_main_def load_def EFE_Init_def shared_scanSingleFile_def)
    qed
  qed
qed

theorem shared_main_run_witness:
  "shared_main example_env (\<lambda>hs. if hs 0 = None then Some 0 else None) example_objects (\<lambda>n. Inr (replicate (unat n) NaN)) 2
     [lit ''demo'', lit ''b'' @ [0]] Map.empty = Inr (1, [Extraction_Timed, Extraction_Failed EXIT_FAILURE], Map.empty)"
proof -
  have r: "path_vector example_env (lit ''b'') = Inr (Inr no_such_file_or_directory)"
    by (simp add: path_vector_def example_env_def lit_def)
  have b: "0 \<notin> set (lit ''b'')" by (simp add: lit_def)
  let ?new = "\<lambda>hs :: engines. if hs 0 = None then Some 0 else None" and ?array = "\<lambda>n :: u32. Inr (replicate (unat n) NaN) :: fl list res"
  have new: "\<forall>hs a. ?new hs = Some a \<longrightarrow> hs a = None" by (auto split: if_splits)
  have cells: "\<forall>n. ?array n = Inl Throw \<or> (\<exists>fs. ?array n = Inr fs \<and> length fs = unat n)" by simp
  show ?thesis
    using shared_main_run [OF example_env_ok example_constructed b r new cells, of "lit ''demo''" Map.empty] by simp
qed

end
