(* ===== verification/HasherTool.thy ===== *)
theory HasherTool
  imports FeatureHasher Digits
begin

text \<open>
  \<open>featurehasher/src/fh.cpp\<close>: the command line tool that hashes pairs of strings and numbers. Its
  standard output is a list of bytes; messages to the error stream are left out. \<open>std::atof\<close> and the
  formatting of a \<open>float\<close> are parameters.
\<close>

section \<open>The tool\<close>

text \<open>\<open>argv\<close> ends with the arguments: a pointer past them is not read.\<close>

function hash_loop :: "(bytes \<Rightarrow> fl) \<Rightarrow> int \<Rightarrow> bytes list \<Rightarrow> int \<Rightarrow> feature_hasher \<Rightarrow> feature_hasher res" where
  "hash_loop atof argc argv i fh =
     (if i < argc then
        (case load_at argv i of Inl e \<Rightarrow> Inl e | Inr p1 \<Rightarrow>
        (case load_at argv (i + 1) of Inl e \<Rightarrow> Inl e | Inr s \<Rightarrow>
        (case fh_reduce p1 (fl_to f32 (atof s)) fh of Inl e \<Rightarrow> Inl e | Inr fh \<Rightarrow>
         hash_loop atof argc argv (i + 2) fh)))
      else Inr fh)"
  by pat_completeness auto

termination
  by (relation "measure (\<lambda>(atof, argc, argv, i, fh). nat (argc - i))") auto

declare hash_loop.simps [simp del]

definition print_row :: "(fl \<Rightarrow> bytes) \<Rightarrow> size_t \<Rightarrow> fl list \<Rightarrow> bytes res" where
  "print_row sh N output =
     for_each [0..<unat N] (\<lambda>i out. bnd (load output i) (\<lambda>x.
       Inr (out @ (if i mod 11 = 0 then [10] else []) @ sh x @ lit '' ''))) []"

text \<open>
  \<open>std::make_unique\<close> fills the array with zeros; \<open>allocates\<close> says for which sizes there is memory. The
  word \<open>junk\<close> is the uninitialised field of the hasher.
\<close>

definition hash :: "(size_t \<Rightarrow> bool) \<Rightarrow> u64 \<Rightarrow> (bytes \<Rightarrow> fl) \<Rightarrow> (fl \<Rightarrow> bytes) \<Rightarrow> size_t \<Rightarrow> int \<Rightarrow> bytes list \<Rightarrow> bytes res" where
  "hash allocates junk atof sh N argc argv =
     (if \<not> allocates N then Inl Throw
      else let output = replicate (unat N) fl_zero;
               fh = setOutput (Some 0) (setSize N (fh_reset (fh_new junk)))
           in bnd (fh_start fh output) (\<lambda>(fh, output).
              bnd (hash_loop atof argc argv 0 fh) (\<lambda>fh.
              bnd (fh_finalize fh output) (\<lambda>(fh, output). print_row sh N output))))"

definition fh_main ::
  "(size_t \<Rightarrow> bool) \<Rightarrow> u64 \<Rightarrow> (bytes \<Rightarrow> fl) \<Rightarrow> (fl \<Rightarrow> bytes) \<Rightarrow> int \<Rightarrow> bytes list \<Rightarrow> (int \<times> bytes) res" where
  "fh_main allocates junk atof sh argc argv =
     (if argc < 4 \<or> argc mod 2 = 0 then Inr (1, [])
      else bnd (load argv 1) (\<lambda>command.
        if c_str command = lit ''hash'' then
          bnd (load argv 2) (\<lambda>size.
          bnd (atoi size) (\<lambda>bucketSize.
          map_res (\<lambda>out. (0, out @ [10]))
            (hash allocates junk atof sh (word_of_int bucketSize) (argc - 3) (drop 3 argv))))
        else Inr (1, [])))"

section \<open>What it prints\<close>

text \<open>The pairs of an argument list of even length.\<close>

fun tool_items :: "(bytes \<Rightarrow> fl) \<Rightarrow> bytes list \<Rightarrow> (bytes \<times> feature_t) list" where
  "tool_items atof [] = []"
| "tool_items atof [p] = []"
| "tool_items atof (p # s # args) = (p, fl_to f32 (atof s)) # tool_items atof args"

lemma length_tool_items: "length (tool_items atof args) = length args div 2"
  by (induction atof args rule: tool_items.induct) auto

lemma hash_loop_items:
  assumes "even (length args)"
  shows "hash_loop atof (int (length pre + length args)) (pre @ args) (int (length pre)) fh =
    reduce_all (tool_items atof args) fh"
  using assms
proof (induction atof args arbitrary: pre fh rule: tool_items.induct)
  case (3 atof p s args)
  have l: "load_at (pre @ p # s # args) (int (length pre)) = Inr p"
    "load_at (pre @ p # s # args) (int (length pre) + 1) = Inr s"
    by (simp_all add: load_at_def load_def nat_add_distrib nth_append)
  have "hash_loop atof (int (length pre + length (p # s # args))) (pre @ p # s # args) (int (length pre) + 2) fh' =
      reduce_all (tool_items atof args) fh'" for fh'
    using "3.IH" [of "pre @ [p, s]" fh'] "3.prems" by (simp add: algebra_simps)
  then show ?case
    by (subst hash_loop.simps) (cases "fh_reduce p (fl_to f32 (atof s)) fh"; simp only: l; simp add: reduce_all_def)
next
  case (1 atof)
  then show ?case by (subst hash_loop.simps) (simp add: reduce_all_def)
qed simp

definition row_text :: "(fl \<Rightarrow> bytes) \<Rightarrow> fl list \<Rightarrow> bytes" where
  "row_text sh v = concat (map (\<lambda>i. (if i mod 11 = 0 then [10] else []) @ sh (v ! i) @ lit '' '') [0..<length v])"

lemma print_row_text:
  assumes "length v = unat N"
  shows "print_row sh N v = Inr (row_text sh v)"
proof -
  have "for_each is (\<lambda>i out. bnd (load v i) (\<lambda>x. Inr (out @ (if i mod 11 = 0 then [10] else []) @ sh x @ lit '' ''))) out =
      Inr (out @ concat (map (\<lambda>i. (if i mod 11 = 0 then [10] else []) @ sh (v ! i) @ lit '' '') is))"
    if "\<forall>i \<in> set is. i < length v" for "is" out
    using that by (induction "is" arbitrary: out) (simp_all add: load_def)
  then show ?thesis
    using assms by (simp add: print_row_def row_text_def)
qed

lemma tool_items_ok:
  "\<forall>s. wf_fl f64 (atof s) \<Longrightarrow> \<forall>a \<in> set args. length (c_str a) < 2 ^ 31 \<Longrightarrow> \<forall>it \<in> set (tool_items atof args). item_ok it"
  by (induction atof args rule: tool_items.induct) (auto simp: item_ok_def wf_fl_to_f32)

lemma fh_config_tool: "setOutput (Some 0) (setSize N (fh_reset s)) = fh_config N 0 True 0 False s"
  by (simp add: fh_config_def setMultipleSamples_def setSeed_def setAlternateSign_def setOutput_def setSize_def fh_reset_def)

text \<open>
  C32. \<open>fh hash n key number ...\<close> prints, eleven to a line, the row of \<open>n\<close> cells in which every key is
  hashed with its number, and ends with 0. A size of zero ends the process in \<open>start\<close>, a negative
  one asks for more memory than there is and throws; any other command line prints nothing and
  ends with 1.
\<close>

theorem fh_main_prints:
  assumes argv: "argc = int (length argv)" "\<forall>a \<in> set argv. length (c_str a) < 2 ^ 31" "length argv < 2 ^ 31"
    and atof: "\<forall>s. wf_fl f64 (atof s)"
    and alloc: "\<forall>N. allocates N \<longrightarrow> unat N < 2 ^ 61"
    and size: "2 < length argv \<longrightarrow> atoi (argv ! 2) = Inr n"
  shows "fh_main allocates junk atof sh argc argv =
    (if length argv < 4 \<or> even (length argv) \<or> c_str (argv ! 1) \<noteq> lit ''hash'' then Inr (1, [])
     else if n < 0 \<or> \<not> allocates (word_of_int n) then Inl Throw
     else if n = 0 then Inl Exit
     else Inr (0, row_text sh (hash_row (nat n) 0 True (tool_items atof (drop 3 argv))) @ [10]))"
proof (cases "length argv < 4 \<or> even (length argv) \<or> c_str (argv ! 1) \<noteq> lit ''hash''")
  case True
  have "int (length argv) mod 2 = 0 \<longleftrightarrow> even (length argv)" by presburger
  then show ?thesis using True by (auto simp: fh_main_def argv(1) load_def)
next
  case False
  let ?args = "drop 3 argv" and ?N = "word_of_int n :: size_t"
  let ?items = "tool_items atof ?args"
  have n: "- (2 ^ 31) \<le> n" "n < 2 ^ 31" using False size by (auto simp: atoi_def split: prod.splits if_splits)
  have even: "even (length ?args)" "int (length argv) mod 2 \<noteq> 0" using False by auto presburger
  have items: "\<forall>it \<in> set ?items. item_ok it"
    by (rule tool_items_ok [OF atof]) (use argv(2) in \<open>auto dest: in_set_dropD\<close>)
  have main: "fh_main allocates junk atof sh argc argv =
      map_res (\<lambda>out. (0, out @ [10])) (hash allocates junk atof sh ?N (int (length ?args)) ?args)"
    using False size even(2) by (auto simp: fh_main_def argv(1) load_def of_nat_diff)
  have loop: "hash_loop atof (int (length ?args)) ?args 0 fh = reduce_all ?items fh" for fh
    using hash_loop_items [OF even(1), of atof "[]" fh] by simp
  show ?thesis
  proof (cases "n < 0 \<or> \<not> allocates ?N")
    case True
    have "\<not> allocates ?N"
    proof (cases "n < 0")
      case True
      have "(n + 2 ^ 64) mod 2 ^ 64 = n + 2 ^ 64" using True n(1) by (intro mod_pos_pos_trivial) simp_all
      then have "uint ?N = n + 2 ^ 64" unfolding mod_add_self2 by (simp add: uint_word_of_int)
      then have "int (unat ?N) = n + 2 ^ 64" by (simp only: uint_nat)
      then have "\<not> int (unat ?N) < int (2 ^ 61)" using n(1) by simp
      then have "\<not> unat ?N < 2 ^ 61" by (simp only: of_nat_less_iff not_False_eq_True)
      then show ?thesis using alloc by blast
    qed (use True in simp)
    then show ?thesis using False True main by (simp add: hash_def)
  next
    case ok: False
    have "n mod 2 ^ 64 = n" using ok n(2) by (intro mod_pos_pos_trivial) simp_all
    then have "uint ?N = n" by (simp add: uint_word_of_int)
    then have "nat (int (unat ?N)) = nat n" by (simp only: uint_nat)
    then have N: "unat ?N = nat n" by (simp only: nat_int)
    show ?thesis
    proof (cases "n = 0")
      case True
      then show ?thesis using False ok main by (simp add: hash_def fh_start_def setOutput_def setSize_def)
    next
      case pos: False
      then have "0 < unat ?N" using N ok by simp
      then have "0 < ?N" by (simp only: unat_gt_0 word_neq_0_conv)
      moreover have "nat n \<le> 2 ^ 31" "nat n < 2 ^ 61" using n(2) by simp_all
      moreover have "length ?items \<le> length argv" by (simp add: length_tool_items)
      then have "length ?items < 2 ^ 62" using argv(3) by simp
      ultimately obtain s' where "hash_items (fh_config ?N 0 True 0 False (fh_new junk)) ?items (replicate (unat ?N) fl_zero) =
          Inr (s', blit (replicate (unat ?N) fl_zero) 0 (hash_row (unat ?N) 0 True ?items))"
        using hash_items_row [of ?N 0 "replicate (unat ?N) fl_zero" ?items True 0 "fh_new junk"] N items by auto
      then have "hash allocates junk atof sh ?N (int (length ?args)) ?args = Inr (row_text sh (hash_row (nat n) 0 True ?items))"
        using ok N by (auto simp: hash_def fh_config_tool hash_items_def loop [unfolded length_drop] bnd_Inr_iff blit_whole print_row_text)
      then show ?thesis using False ok pos main by simp
    qed
  qed
qed

text \<open>\<open>fh hash 10 dog 1 cat 2 elephant 4\<close>, and a size of minus one.\<close>

definition example_atof :: "bytes \<Rightarrow> fl" where
  "example_atof s = (if s = lit ''1'' then fl_nat 1 else if s = lit ''2'' then fl_nat 2 else fl_nat 4)"

definition example_show :: "fl \<Rightarrow> bytes" where
  "example_show x = (if x = fl_zero then lit ''0'' else if x = fl_nat 2 then lit ''2''
     else if x = fl_neg (fl_nat 1) then lit ''-1'' else lit ''-4'')"

theorem fh_main_prints_witness:
  "fh_main (\<lambda>N. unat N < 2 ^ 40) 0 example_atof example_show 9
     [lit ''fh'', lit ''hash'', lit ''10'', lit ''dog'', lit ''1'', lit ''cat'', lit ''2'', lit ''elephant'', lit ''4''] =
   Inr (0, [10] @ lit ''0 0 -4 -1 0 0 0 0 0 2 '' @ [10]) \<and>
   fh_main (\<lambda>N. unat N < 2 ^ 40) 0 example_atof example_show 5 [lit ''fh'', lit ''hash'', lit ''-1'', lit ''dog'', lit ''1''] = Inl Throw"
proof -
  let ?argv = "[lit ''fh'', lit ''hash'', lit ''10'', lit ''dog'', lit ''1'', lit ''cat'', lit ''2'', lit ''elephant'', lit ''4'']"
  let ?neg = "[lit ''fh'', lit ''hash'', lit ''-1'', lit ''dog'', lit ''1'']"
  have "wf_fl f64 (fl_nat k)" if "k < 2 ^ 53" for k
    using that wf_fl_of_nat [of f64 k] fl_of_nat_exact [of f64 k] by (simp add: fl_nat_def)
  then have atof: "\<forall>s. wf_fl f64 (example_atof s)" by (simp add: example_atof_def)
  have c: "length (c_str x) \<le> length x" for x by (simp add: c_str_def length_takeWhile_le)
  have short: "\<forall>a \<in> set argv. length (c_str a) < 2 ^ 31" if "\<forall>a \<in> set argv. length a < 100" for argv :: "bytes list"
  proof
    fix a assume "a \<in> set argv"
    then show "length (c_str a) < 2 ^ 31" using that c [of a] by fastforce
  qed
  have size: "atoi (lit ''10'') = Inr 10" "atoi (lit ''-1'') = Inr (- 1)" by code_simp+
  have cs: "c_str (lit ''hash'') = lit ''hash''" by code_simp
  have items: "tool_items example_atof (drop 3 ?argv) = test_1a ! 0"
    by (simp add: test_1a_def example_atof_def lit_def fl_nat_def fl_eval)
  have row: "row_text example_show (hash_row 10 0 True (test_1a ! 0)) = [10] @ lit ''0 0 -4 -1 0 0 0 0 0 2 ''"
    unfolding test_rows by (simp add: row_text_def upt_rec example_show_def fl_nat_def fl_zero_def lit_def)
  show ?thesis
    using fh_main_prints [OF _ short _ atof, of 9 ?argv "\<lambda>N. unat N < 2 ^ 40" 10 0 example_show] size cs items row
      fh_main_prints [OF _ short _ atof, of 5 ?neg "\<lambda>N. unat N < 2 ^ 40" "- 1" 0 example_show]
    by (simp add: lit_def)
qed

end
