(* ===== verification/Spec2Isabelle.thy ===== *)
theory Spec2Isabelle
  imports Floats Meth Timestamps ByteTools BlockStream SlidingWindow Entropy Murmur3 FeatureHasher HashingFast
    PETypes Authenticode PEFile FeatureType HeaderFileInfo DirectoryFeatures HashedFeatures SectionInfo
    GeneralFileInfo ByteEntropyHistogram StringExtractor AllFeatures Engine SharedApi LkList LkTyped LruCache
    CachedFunction Digits Argv Demo SharedDemo HasherTool
begin

text \<open>
  A model of the EMBER2024 feature extractor in C++. The program turns a file, usually a Windows
  executable, into a vector of 2568 floating-point features for a malware classifier.

  How the parts interact. The engine (\<open>core/src/core.cpp\<close>) parses the file into a \<open>PEFile\<close>
  (\<open>pefile/\<close>), cuts it into blocks of four megabytes with a \<open>MemoryBlockStream\<close> (\<open>common/\<close>) and runs
  a composite of eleven feature types (\<open>core/src/all_feature_types.cpp\<close>) through \<open>reset\<close>, \<open>start\<close>,
  one \<open>reduce\<close> per block and \<open>finalize\<close>. Each feature type owns a segment of the output vector. The
  types that describe names hash them with \<open>FeatureHasher\<close> (\<open>featurehasher/\<close>), which uses MurmurHash3
  (\<open>murmur3/\<close>); those that describe bytes use counters, a sliding window and the Shannon entropy
  (\<open>common/\<close>). A C interface (\<open>shared/\<close>) wraps the engine. Command line tools drive the
  engine (\<open>demo/\<close>), the C interface (\<open>shared_demo/\<close>) and the hasher (\<open>featurehasher/src/fh.cpp\<close>). A linked
  list (\<open>lklist/\<close>) and a cache (\<open>caching/\<close>) stand beside them.

  Which theory models what.
  \<^item> \<open>Prelude\<close>: machine words, byte lists, the result type of operations that may fail, checked loads
    and stores. \<open>Floats\<close>: the binary32 and binary64 arithmetic of IEEE 754 that \<open>float\<close> and \<open>double\<close>
    follow, on exact rationals, with rounding to nearest even, infinities and NaN.
  \<^item> \<open>Meth\<close>, \<open>Timestamps\<close>, \<open>ByteTools\<close> (\<open>ByteCounter\<close>, \<open>ByteCatcher\<close>), \<open>BlockStream\<close>, \<open>SlidingWindow\<close>,
    \<open>Entropy\<close>: the sources of \<open>common/src\<close>, function by function. \<open>Reducer\<close>: the interface of all
    classes with \<open>reset\<close>, \<open>start\<close>, \<open>reduce\<close> and \<open>finalize\<close>.
  \<^item> \<open>Murmur3\<close>: \<open>murmur3/src/murmur3.c\<close>. \<open>FeatureHasher\<close>: \<open>featurehasher/src/featurehasher.cpp\<close>, with the
    sparse matrix it builds. \<open>HashingFast\<close>: the reference version in \<open>hashing_fast.h\<close>.
  \<^item> \<open>PETypes\<close>: sections, imports, exports, data directories, headers and the tables of constants in
    \<open>pefile/\<close>. \<open>Authenticode\<close>: \<open>authenticode_signature.cpp\<close>. \<open>PEFile\<close>: the class \<open>PEFile\<close> and its getters.
  \<^item> \<open>FeatureType\<close>: the interface of the feature types as a locale, and how segments of the output are
    written. \<open>HeaderFileInfo\<close>, \<open>DirectoryFeatures\<close> (data directories, authenticode, warnings),
    \<open>HashedFeatures\<close> (rich header, exports, imports), \<open>SectionInfo\<close>, \<open>GeneralFileInfo\<close>,
    \<open>ByteEntropyHistogram\<close>, \<open>StringExtractor\<close>: one group of definitions per feature type, each an
    interpretation of that locale. \<open>AllFeatures\<close>: the composite, the datatype of the eleven classes
    with the virtual calls as functions on it. \<open>Engine\<close>: \<open>EMBER2024FeatureExtractor\<close>. \<open>SharedApi\<close>:
    \<open>shared/src/shared.cpp\<close>.
  \<^item> \<open>LkList\<close>: \<open>lklist/src/lklist.c\<close> over an explicit memory of nodes. \<open>LkTyped\<close>: the typed functions that
    the macros of \<open>lklist.h\<close> generate, and the test program in \<open>lklist.c\<close>. \<open>LruCache\<close>: \<open>lru_cache.h\<close> and
    \<open>tuple_hash.h\<close>. \<open>CachedFunction\<close>: \<open>cached_function.h\<close>, with the contract of a cache as a locale that
    \<open>LruCache\<close> interprets.
  \<^item> \<open>Digits\<close>: decimal numbers, \<open>std::stoi\<close> and \<open>std::atoi\<close>. \<open>Argv\<close>: \<open>cmdline_tools/src/argv.cpp\<close>. \<open>Demo\<close>,
    \<open>SharedDemo\<close>, \<open>HasherTool\<close>: the \<open>main\<close> functions of \<open>demo/\<close>, \<open>shared_demo/\<close> and \<open>fh.cpp\<close>, whose output is
    a log.

  How state and effects are represented. A class is a record, its object a value that the operations
  return updated. A pointer into the output vector is an offset into the list of its cells, so that
  the theorems can say that a feature type writes its own segment only. Sizes are words of 64 bits,
  file offsets and counters wrap around as in the code, signed overflow is the error \<open>Undefined\<close>. An
  operation that may fail returns \<open>Inl\<close> with the reason: a call of \<open>exit\<close>, an access outside a
  buffer, undefined behaviour, an exception, a loop that does not return.

  What the lemmas show. For each helper: its function on every input, in particular that the result
  does not depend on how a file is cut into blocks. For each feature type: the vector that a complete
  run writes, as an explicit function of the parsed file and the bytes, whatever the object held
  before. For the composite and the engine: a run of any reachable engine over any file ends, and its
  vector is the concatenation of the vectors of the feature types; the runs over a path return a
  vector or an error code, never both. For the constructor of \<open>PEFile\<close>, the C interface, the linked
  list and the cache: exactly when they leave defined behaviour, and a refinement of a list-level
  specification. For the cached function: which call computed each
  result, also when a call moves its arguments away, and that without such calls it cannot be told
  from the function. For the header features: how the headers are read back from them. For the command
  line tools: that every run ends, with the exact output and exit code for any command line of the
  documented form, errors included.

  Bounds and loops. Loops over lists are structural. The block loop, the search for counter-signatures,
  the string search and the loops of the linked list are partial functions; their theorems say that
  they return. Bounds in hypotheses are those of the representation: file lengths below \<open>2 ^ 61\<close>
  (so that byte counts, and four times the number of floats, fit into 64 bits), names below \<open>2 ^ 30\<close>
  (the length of a hash key is an \<open>int\<close>), hash tables of at most \<open>2 ^ 31\<close> buckets, lists of fewer than
  \<open>2 ^ 31\<close> elements where the code counts with an \<open>int\<close>. No theorem uses fuel.

  What is a parameter. The LIEF parser is a function from bytes to a parsed binary, a null pointer or
  an exception, with no assumption but the sizes of what it returns; \<open>authenticode-parser\<close> a function
  from bytes to signing times; RE2 two functions, of which the search for runs of readable bytes is
  assumed to be leftmost-longest; \<open>std::log2\<close> a function with its documented range; the file system,
  the memory mapping, \<open>iconv\<close>, the conversion of wide strings to paths, \<open>std::atof\<close>, the formatting of
  a \<open>float\<close>, \<open>malloc\<close> and \<open>new\<close> are functions too. Of \<open>iconv\<close>
  it is assumed that it decodes UTF-8 and that what it accepts beyond UTF-8 encodes its result. Each hypothesis
  about a parameter is met by a concrete function in a witness.

  Not modelled. SQLite (vendored third-party code, which only the tests use), the tests, logging and
  its macros, \<open>is_cache\<close> (a compile-time trait without code), the Windows branch of \<open>getArgv\<close> (three
  calls of the Windows API) and the constants of \<open>pefile/common.h\<close> that no code uses. Timings,
  threads and the contents of uninitialised memory are outside the model; a result that depended on
  the latter would show as a free parameter of a definition.
\<close>

end
